(* ===== verification/Otel_Prelude.thy ===== *)
theory Otel_Prelude
  imports Main "HOL-Library.Word"
begin

text \<open>
  Shared ground of the development: the C integer types as words of their width,
  byte-addressed memory with little-endian loads and stores (the layout of the 64-bit
  targets the library builds for), NUL-terminated strings, and the rounding to eight
  bytes that the span arena uses.  The lemmas say how a read sees a write (same range,
  disjoint range), that a store followed by the load of the same width gives the value
  back, and what masking with a power of two minus one computes.
\<close>

unbundle bit_operations_syntax

type_synonym byte = "8 word"
type_synonym u16 = "16 word"
type_synonym u32 = "32 word"
type_synonym u64 = "64 word"
type_synonym mem = "nat \<Rightarrow> byte"

declare add_2_eq_Suc [simp del] add_2_eq_Suc' [simp del]

named_theorems frame_simps \<open>reads that do not see a write elsewhere\<close>

subsection \<open>Byte memory\<close>

definition mem_write :: "mem \<Rightarrow> nat \<Rightarrow> byte list \<Rightarrow> mem" where
  "mem_write m p bs = (\<lambda>i. if p \<le> i \<and> i < p + length bs then bs ! (i - p) else m i)"

definition mem_read :: "mem \<Rightarrow> nat \<Rightarrow> nat \<Rightarrow> byte list" where
  "mem_read m p n = map m [p ..< p + n]"

definition agree :: "nat \<Rightarrow> nat \<Rightarrow> mem \<Rightarrow> mem \<Rightarrow> bool" where
  "agree lo hi m m' \<longleftrightarrow> (\<forall>i. lo \<le> i \<and> i < hi \<longrightarrow> m i = m' i)"

lemma length_mem_read [simp]: "length (mem_read m p n) = n"
  by (simp add: mem_read_def)

lemma mem_read_write_same [simp]:
  "length bs = n \<Longrightarrow> mem_read (mem_write m p bs) p n = bs"
  by (auto simp: mem_read_def mem_write_def intro!: nth_equalityI)

lemma mem_read_write_disj [frame_simps]:
  "q + n \<le> p \<or> p + length bs \<le> q \<Longrightarrow> mem_read (mem_write m p bs) q n = mem_read m q n"
  by (auto simp: mem_read_def mem_write_def intro!: nth_equalityI)

lemma mem_read_add: "mem_read m p (a + b) = mem_read m p a @ mem_read m (p + a) b"
  by (rule nth_equalityI) (auto simp: mem_read_def nth_append)

lemma mem_read_agree:
  "agree lo hi m m' \<Longrightarrow> lo \<le> p \<Longrightarrow> p + n \<le> hi \<Longrightarrow> mem_read m p n = mem_read m' p n"
  by (auto simp: mem_read_def agree_def)

lemma agreeD: "agree lo hi m m' \<Longrightarrow> lo \<le> i \<Longrightarrow> i < hi \<Longrightarrow> m i = m' i"
  by (simp add: agree_def)

lemma agree_refl [simp]: "agree lo hi m m"
  by (simp add: agree_def)

lemma agree_sym: "agree lo hi m m' \<Longrightarrow> agree lo hi m' m"
  by (simp add: agree_def)

lemma agree_trans: "agree lo hi m m' \<Longrightarrow> agree lo hi m' m'' \<Longrightarrow> agree lo hi m m''"
  by (simp add: agree_def)

lemma agree_sub: "agree lo hi m m' \<Longrightarrow> lo \<le> lo' \<Longrightarrow> hi' \<le> hi \<Longrightarrow> agree lo' hi' m m'"
  by (simp add: agree_def)

lemma agree_write: "hi \<le> p \<or> p + length bs \<le> lo \<Longrightarrow> agree lo hi m (mem_write m p bs)"
  by (auto simp: agree_def mem_write_def)

subsection \<open>Little-endian words\<close>

fun le_bytes :: "nat \<Rightarrow> 'a::len word \<Rightarrow> byte list" where
  "le_bytes 0 w = []"
| "le_bytes (Suc n) w = ucast w # le_bytes n (drop_bit 8 w)"

fun of_le :: "byte list \<Rightarrow> 'a::len word" where
  "of_le [] = 0"
| "of_le (b # bs) = ucast b OR push_bit 8 (of_le bs)"

lemma length_le_bytes [simp]: "length (le_bytes n w) = n"
  by (induction n arbitrary: w) auto

lemma bit_le_bytes:
  "j < n \<Longrightarrow> bit (le_bytes n w ! j) i \<longleftrightarrow> i < 8 \<and> bit w (8 * j + i)"
proof (induction n arbitrary: w j)
  case 0
  then show ?case by simp
next
  case (Suc n)
  then show ?case
    by (cases j) (auto simp: bit_simps algebra_simps dest: bit_imp_le_length)
qed

lemma bit_of_le:
  "bit (of_le bs :: 'a::len word) i \<longleftrightarrow>
     i < LENGTH('a) \<and> i < 8 * length bs \<and> bit (bs ! (i div 8)) (i mod 8)"
proof (induction bs arbitrary: i)
  case Nil
  then show ?case by simp
next
  case (Cons b bs)
  show ?case
  proof (cases "i < 8")
    case True
    then show ?thesis by (auto simp: bit_simps)
  next
    case False
    then have "\<not> bit b i"
      by (auto dest: bit_imp_le_length)
    moreover from False obtain k where k: "i = 8 + k"
      by (metis le_Suc_ex not_less)
    moreover have "i div 8 = Suc (k div 8)" and "i mod 8 = k mod 8"
      using k by simp_all
    ultimately show ?thesis using Cons.IH[of k]
      by (auto simp: bit_simps)
  qed
qed

lemma of_le_le_bytes:
  "8 * n \<ge> LENGTH('a::len) \<Longrightarrow> of_le (le_bytes n w) = (w :: 'a word)"
  by (rule bit_word_eqI) (auto simp: bit_of_le bit_le_bytes less_mult_imp_div_less mult.commute)

definition load16 :: "mem \<Rightarrow> nat \<Rightarrow> u16" where
  "load16 m p = of_le (mem_read m p 2)"

definition store16 :: "mem \<Rightarrow> nat \<Rightarrow> u16 \<Rightarrow> mem" where
  "store16 m p v = mem_write m p (le_bytes 2 v)"

definition load64 :: "mem \<Rightarrow> nat \<Rightarrow> u64" where
  "load64 m p = of_le (mem_read m p 8)"

definition store64 :: "mem \<Rightarrow> nat \<Rightarrow> u64 \<Rightarrow> mem" where
  "store64 m p v = mem_write m p (le_bytes 8 v)"

definition store32 :: "mem \<Rightarrow> nat \<Rightarrow> u32 \<Rightarrow> mem" where
  "store32 m p v = mem_write m p (le_bytes 4 v)"

definition store8 :: "mem \<Rightarrow> nat \<Rightarrow> byte \<Rightarrow> mem" where
  "store8 m p v = mem_write m p [v]"

lemmas store_defs = store8_def store16_def store32_def store64_def

lemma load16_store16 [simp]: "load16 (store16 m p v) p = v"
  by (simp add: load16_def store16_def of_le_le_bytes)

lemma load64_store64 [simp]: "load64 (store64 m p v) p = v"
  by (simp add: load64_def store64_def of_le_le_bytes)

lemma load16_agree:
  "agree lo hi m m' \<Longrightarrow> lo \<le> p \<Longrightarrow> p + 2 \<le> hi \<Longrightarrow> load16 m p = load16 m' p"
  by (simp add: load16_def mem_read_agree)

lemma load64_agree:
  "agree lo hi m m' \<Longrightarrow> lo \<le> p \<Longrightarrow> p + 8 \<le> hi \<Longrightarrow> load64 m p = load64 m' p"
  by (simp add: load64_def mem_read_agree)

lemma load8_store8 [simp]: "store8 m p v p = v"
  by (simp add: store8_def mem_write_def)

lemma load16_write_disj [frame_simps]:
  "q + 2 \<le> p \<or> p + length bs \<le> q \<Longrightarrow> load16 (mem_write m p bs) q = load16 m q"
  by (simp add: load16_def mem_read_write_disj)

lemma load64_write_disj [frame_simps]:
  "q + 8 \<le> p \<or> p + length bs \<le> q \<Longrightarrow> load64 (mem_write m p bs) q = load64 m q"
  by (simp add: load64_def mem_read_write_disj)

lemma load8_write_disj [frame_simps]:
  "q < p \<or> p + length bs \<le> q \<Longrightarrow> mem_write m p bs q = m q"
  by (auto simp: mem_write_def)

subsection \<open>C strings\<close>

text \<open>\<open>c_str bs\<close> is the string a C function reads from a buffer that holds \<open>bs\<close>:
  the bytes before the first NUL.  \<open>cstr_from m bnd p\<close> reads the string stored at
  address \<open>p\<close> of an object of \<open>bnd\<close> bytes.\<close>

definition c_str :: "byte list \<Rightarrow> byte list" where
  "c_str bs = takeWhile (\<lambda>b. b \<noteq> 0) bs"

function cstr_from :: "mem \<Rightarrow> nat \<Rightarrow> nat \<Rightarrow> byte list" where
  "cstr_from m bnd p = (if p \<ge> bnd \<or> m p = 0 then [] else m p # cstr_from m bnd (Suc p))"
  by pat_completeness auto
termination
  by (relation "measure (\<lambda>(m, bnd, p). bnd - p)") auto

declare cstr_from.simps [simp del]

lemma c_str_no_nul: "0 \<notin> set bs \<Longrightarrow> c_str bs = bs"
  by (auto simp: c_str_def takeWhile_eq_all_conv)

lemma nul_notin_c_str: "0 \<notin> set (c_str bs)"
  by (auto simp: c_str_def dest: set_takeWhileD)

lemma c_str_c_str [simp]: "c_str (c_str bs) = c_str bs"
  by (simp add: c_str_no_nul nul_notin_c_str)

lemma length_c_str_le: "length (c_str bs) \<le> length bs"
  by (simp add: c_str_def length_takeWhile_le)

lemma cstr_from_read:
  "mem_read m p (Suc (length bs)) = bs @ [0] \<Longrightarrow> p + length bs < bnd \<Longrightarrow>
   cstr_from m bnd p = c_str bs"
proof (induction bs arbitrary: p)
  case Nil
  then show ?case
    by (simp add: cstr_from.simps mem_read_def c_str_def)
next
  case (Cons b bs)
  have up: "[p..<Suc (Suc (p + length bs))] = p # [Suc p..<Suc (Suc (p + length bs))]"
    by (rule upt_conv_Cons) simp
  from Cons.prems(1) have hd: "m p = b" and tl: "mem_read m (Suc p) (Suc (length bs)) = bs @ [0]"
    by (simp_all add: mem_read_def up del: upt_Suc)
  from Cons.prems(2) have IH: "cstr_from m bnd (Suc p) = c_str bs"
    by (intro Cons.IH tl) simp
  from Cons.prems(2) hd IH show ?case
    by (simp add: cstr_from.simps[of m bnd p] c_str_def)
qed

subsection \<open>Masks and rounding\<close>

definition round8 :: "nat \<Rightarrow> nat" where
  "round8 n = 8 * ((n + 7) div 8)"

lemma round8_ge: "n \<le> round8 n"
  by (simp add: round8_def)

lemma round8_less: "round8 n < n + 8"
  by (simp add: round8_def)

lemma dvd_round8 [simp]: "8 dvd round8 n"
  by (simp add: round8_def)

lemma round8_dvd: "8 dvd n \<Longrightarrow> round8 n = n"
  by (auto simp: round8_def)

lemma unat_and_not_7:
  fixes x :: u64
  shows "unat (x AND NOT 7) = 8 * (unat x div 8)"
proof -
  have "x AND NOT 7 = push_bit 3 (drop_bit 3 x)"
  proof (rule bit_word_eqI)
    fix n assume "n < LENGTH(64)"
    have "bit (7 :: u64) n \<longleftrightarrow> n < 3"
      using bit_mask_iff[of 3 n, where 'a = "u64"] \<open>n < LENGTH(64)\<close>
      by (simp add: mask_eq_exp_minus_1)
    then show "bit (x AND NOT 7) n \<longleftrightarrow> bit (push_bit 3 (drop_bit 3 x)) n"
      using \<open>n < LENGTH(64)\<close> by (auto simp: bit_simps)
  qed
  then have "unat (x AND NOT 7) = take_bit 64 (push_bit 3 (drop_bit 3 (unat x)))"
    by (simp add: unsigned_push_bit_eq unat_drop_bit_eq)
  also have "\<dots> = (unat x div 8 * 8) mod 2 ^ 64"
    by (simp add: take_bit_eq_mod push_bit_eq_mult drop_bit_eq_div)
  also have "\<dots> = 8 * (unat x div 8)"
    using unsigned_less[of x, where ?'a = nat] by simp
  finally show ?thesis .
qed

lemmas unat_and_minus_8 = unat_and_not_7 [simplified]

lemma unat_and_mask_pow2:
  fixes x :: u64
  shows "k \<le> 64 \<Longrightarrow> unat (x AND mask k) = unat x mod 2 ^ k"
  by (simp only: take_bit_eq_mask [symmetric] unsigned_take_bit_eq) (simp only: take_bit_eq_mod)

lemma unat_of_nat_small: "n < 2 ^ LENGTH('a::len) \<Longrightarrow> unat (of_nat n :: 'a word) = n"
  by (simp add: unat_of_nat)

end
