(* ===== verification/Otel_Sqlite_Store.thy ===== *)
theory Otel_Sqlite_Store
  imports Otel_Prelude
begin

text \<open>
  The database the SQLite sink writes to: the four tables of \<^verbatim>\<open>otel_sqlite_schema.h\<close>, the
  statements \<^verbatim>\<open>otel_sqlite.c\<close> prepares and executes and what each does to the tables, and
  the contract of the SQLite library as the locale \<open>sqlite_store\<close>.  SQLite itself is not part of
  the repository: the model takes it as a parameter \<open>lib\<close>, and the locale states its
  documented behaviour (autocommit, one transaction at a time, a failed write changes
  nothing or rolls the transaction back, row ids one above the largest).  \<open>table_db\<close> is an
  in-memory store with these laws, on which the locale is interpreted.
\<close>

subsection \<open>Rows and tables\<close>

record span_row =
  sr_trace_id :: "byte list"
  sr_span_id :: "byte list"
  sr_parent_id :: "byte list option"
  sr_service :: "byte list"
  sr_name :: "byte list"
  sr_kind :: int
  sr_status_code :: int
  sr_status_message :: "byte list"
  sr_start_unix_ns :: int
  sr_end_unix_ns :: int
  sr_duration_ns :: int
  sr_dropped_attrs :: int
  sr_dropped_events :: int

text \<open>A row of \<^verbatim>\<open>span_attrs\<close> (owner: a span) or of \<^verbatim>\<open>span_event_attrs\<close> (owner: an event);
  an absent value is SQL NULL, a REAL is the bits of the double.\<close>

record attr_row =
  ar_owner :: int
  ar_key :: "byte list"
  ar_type :: int
  ar_s_val :: "byte list option"
  ar_i_val :: "int option"
  ar_d_val :: "u64 option"

record event_row =
  er_span :: int
  er_name :: "byte list"
  er_time_unix_ns :: int

record tables =
  t_spans :: "(int \<times> span_row) list"
  t_attrs :: "attr_row list"
  t_events :: "(int \<times> event_row) list"
  t_event_attrs :: "attr_row list"

definition no_tables :: tables where
  "no_tables = \<lparr>t_spans = [], t_attrs = [], t_events = [], t_event_attrs = []\<rparr>"

subsection \<open>Statements\<close>

datatype sql_stmt =
  QPragma "byte list" | QSchema | QBegin | QCommit | QCheckpoint
| QInsSpan span_row | QInsAttr attr_row | QInsEvent event_row | QInsEventAttr attr_row
| QDelEventAttrs int | QDelAttrs int | QDelEvents int | QDelSpans int

fun is_write :: "sql_stmt \<Rightarrow> bool" where
  "is_write (QPragma x) = False" | "is_write QSchema = False" | "is_write QBegin = False"
| "is_write QCommit = False" | "is_write QCheckpoint = False" | "is_write _ = True"

text \<open>The effect of a write; \<open>rid\<close> is the row id an insert is given.\<close>

fun apply_stmt :: "int \<Rightarrow> sql_stmt \<Rightarrow> tables \<Rightarrow> tables" where
  "apply_stmt rid (QInsSpan r) t = t\<lparr>t_spans := t_spans t @ [(rid, r)]\<rparr>"
| "apply_stmt rid (QInsAttr r) t = t\<lparr>t_attrs := t_attrs t @ [r]\<rparr>"
| "apply_stmt rid (QInsEvent r) t = t\<lparr>t_events := t_events t @ [(rid, r)]\<rparr>"
| "apply_stmt rid (QInsEventAttr r) t = t\<lparr>t_event_attrs := t_event_attrs t @ [r]\<rparr>"
| "apply_stmt rid (QDelEventAttrs c) t =
     t\<lparr>t_event_attrs := filter (\<lambda>r. ar_owner r \<notin> fst ` set (filter (\<lambda>e. er_span (snd e) \<le> c) (t_events t))) (t_event_attrs t)\<rparr>"
| "apply_stmt rid (QDelAttrs c) t = t\<lparr>t_attrs := filter (\<lambda>r. \<not> ar_owner r \<le> c) (t_attrs t)\<rparr>"
| "apply_stmt rid (QDelEvents c) t = t\<lparr>t_events := filter (\<lambda>e. \<not> er_span (snd e) \<le> c) (t_events t)\<rparr>"
| "apply_stmt rid (QDelSpans c) t = t\<lparr>t_spans := filter (\<lambda>x. \<not> fst x \<le> c) (t_spans t)\<rparr>"
| "apply_stmt rid _ t = t"

definition span_ids :: "tables \<Rightarrow> int list" where
  "span_ids t = map fst (t_spans t)"

definition event_ids :: "tables \<Rightarrow> int list" where
  "event_ids t = map fst (t_events t)"

text \<open>The id of a new row of a table with an \<^verbatim>\<open>INTEGER PRIMARY KEY\<close>: one above the largest.\<close>

definition next_id :: "int list \<Rightarrow> int" where
  "next_id ids = (if ids = [] then 1 else Max (set ids) + 1)"

text \<open>Below this bound SQLite numbers rows consecutively.\<close>

definition ids_fit :: "int list \<Rightarrow> bool" where
  "ids_fit ids \<longleftrightarrow> (\<forall>i \<in> set ids. 0 < i \<and> i < 2 ^ 63 - 1)"

lemma next_id_fresh: "next_id ids \<notin> set ids" "i \<in> set ids \<Longrightarrow> i < next_id ids"
proof -
  show "i \<in> set ids \<Longrightarrow> i < next_id ids" for i
    using Max_ge[of "set ids" i] by (auto simp: next_id_def)
  then show "next_id ids \<notin> set ids" by blast
qed

lemma next_id_pos: "ids_fit ids \<Longrightarrow> 0 < next_id ids"
proof (cases "ids = []")
  case False
  moreover assume "ids_fit ids"
  moreover have "Max (set ids) \<in> set ids"
    using False by simp
  ultimately have "0 < Max (set ids)"
    by (auto simp: ids_fit_def)
  then show ?thesis
    using False by (simp add: next_id_def)
qed (simp add: next_id_def)

subsection \<open>The library\<close>

datatype max_result = PrepareFailed | StepFailed | NullRow | ValueRow int

text \<open>\<open>lib_step\<close> runs one statement to its end and says whether it succeeded; \<open>lib_rowid\<close> is
  \<^verbatim>\<open>sqlite3_last_insert_rowid\<close>; \<open>lib_max\<close> runs \<^verbatim>\<open>SELECT MAX(id) FROM spans\<close>.\<close>

record 'db sqlite_lib =
  lib_step :: "'db \<Rightarrow> sql_stmt \<Rightarrow> 'db \<times> bool"
  lib_rowid :: "'db \<Rightarrow> int"
  lib_max :: "'db \<Rightarrow> max_result"

text \<open>\<open>work db\<close>: the tables as this connection sees them; \<open>saved db\<close>: as committed, which is what
  other connections see; \<open>txn db\<close>: a transaction is open.\<close>

locale sqlite_store =
  fixes lib :: "'db sqlite_lib"
    and work :: "'db \<Rightarrow> tables"
    and saved :: "'db \<Rightarrow> tables"
    and txn :: "'db \<Rightarrow> bool"
  assumes autocommit: "\<not> txn db \<Longrightarrow> work db = saved db"
    and begin_ok: "lib_step lib db QBegin = (db', True) \<Longrightarrow> \<not> txn db \<and> txn db' \<and> work db' = work db \<and> saved db' = saved db"
    and begin_fail: "lib_step lib db QBegin = (db', False) \<Longrightarrow> txn db' = txn db \<and> work db' = work db \<and> saved db' = saved db"
    and commit_ok: "lib_step lib db QCommit = (db', True) \<Longrightarrow> \<not> txn db' \<and> saved db' = work db"
    and commit_fail: "lib_step lib db QCommit = (db', False) \<Longrightarrow>
      txn db' = txn db \<and> work db' = work db \<and> saved db' = saved db \<or> \<not> txn db' \<and> saved db' = saved db"
    and write_ok: "is_write q \<Longrightarrow> lib_step lib db q = (db', True) \<Longrightarrow>
      work db' = apply_stmt (lib_rowid lib db') q (work db) \<and> txn db' = txn db \<and>
      saved db' = (if txn db then saved db else work db')"
    and write_fail: "is_write q \<Longrightarrow> lib_step lib db q = (db', False) \<Longrightarrow>
      txn db' = txn db \<and> work db' = work db \<and> saved db' = saved db \<or> \<not> txn db' \<and> saved db' = saved db"
    and span_rowid: "lib_step lib db (QInsSpan r) = (db', True) \<Longrightarrow> ids_fit (span_ids (work db)) \<Longrightarrow>
      lib_rowid lib db' = next_id (span_ids (work db))"
    and event_rowid: "lib_step lib db (QInsEvent e) = (db', True) \<Longrightarrow> ids_fit (event_ids (work db)) \<Longrightarrow>
      lib_rowid lib db' = next_id (event_ids (work db))"
    and max_value: "lib_max lib db = ValueRow m \<Longrightarrow> span_ids (work db) \<noteq> [] \<and> m = Max (set (span_ids (work db)))"
    and max_null: "lib_max lib db = NullRow \<Longrightarrow> span_ids (work db) = []"
    and checkpoint: "lib_step lib db QCheckpoint = (db', b) \<Longrightarrow> txn db' = txn db \<and> work db' = work db \<and> saved db' = saved db"

text \<open>No statement fails for an outside reason (a full disk, a lock): only a \<^verbatim>\<open>BEGIN\<close> inside a
  transaction is refused.\<close>

definition no_faults :: "'db sqlite_lib \<Rightarrow> ('db \<Rightarrow> bool) \<Rightarrow> bool" where
  "no_faults lib txn \<longleftrightarrow> (\<forall>db q. snd (lib_step lib db q) = (q = QBegin \<longrightarrow> \<not> txn db)) \<and>
     (\<forall>db. lib_max lib db \<noteq> PrepareFailed \<and> lib_max lib db \<noteq> StepFailed)"

subsection \<open>An in-memory store\<close>

record table_db =
  td_saved :: tables
  td_open :: "tables option"   \<comment> \<open>the tables of the open transaction\<close>
  td_rowid :: int

definition table_work :: "table_db \<Rightarrow> tables" where
  "table_work db = (case td_open db of None \<Rightarrow> td_saved db | Some t \<Rightarrow> t)"

definition table_txn :: "table_db \<Rightarrow> bool" where
  "table_txn db \<longleftrightarrow> td_open db \<noteq> None"

definition empty_db :: table_db where
  "empty_db = \<lparr>td_saved = no_tables, td_open = None, td_rowid = 0\<rparr>"

text \<open>\<open>faulty q\<close>: the statement \<open>q\<close> fails.\<close>

definition table_step :: "(sql_stmt \<Rightarrow> bool) \<Rightarrow> table_db \<Rightarrow> sql_stmt \<Rightarrow> table_db \<times> bool" where
  "table_step faulty db q =
     (if faulty q \<or> (q = QBegin \<and> table_txn db) then (db, False)
      else if q = QBegin then (db\<lparr>td_open := Some (td_saved db)\<rparr>, True)
      else if q = QCommit then (db\<lparr>td_open := None, td_saved := table_work db\<rparr>, True)
      else if \<not> is_write q then (db, True)
      else let rid = (case q of QInsSpan r \<Rightarrow> next_id (span_ids (table_work db))
                      | QInsEvent e \<Rightarrow> next_id (event_ids (table_work db)) | _ \<Rightarrow> td_rowid db);
               t = apply_stmt rid q (table_work db)
           in (if table_txn db then db\<lparr>td_open := Some t, td_rowid := rid\<rparr>
               else db\<lparr>td_saved := t, td_rowid := rid\<rparr>, True))"

definition table_max :: "table_db \<Rightarrow> max_result" where
  "table_max db = (case span_ids (table_work db) of [] \<Rightarrow> NullRow | i # ids \<Rightarrow> ValueRow (Max (set (i # ids))))"

definition table_lib :: "(sql_stmt \<Rightarrow> bool) \<Rightarrow> table_db sqlite_lib" where
  "table_lib faulty = \<lparr>lib_step = table_step faulty, lib_rowid = td_rowid, lib_max = table_max\<rparr>"

lemma table_lib_simps [simp]:
  "lib_step (table_lib faulty) = table_step faulty" "lib_rowid (table_lib faulty) = td_rowid"
  "lib_max (table_lib faulty) = table_max"
  by (simp_all add: table_lib_def)

interpretation table: sqlite_store "table_lib faulty" table_work td_saved table_txn
proof
  fix db db' :: table_db and q r e m b
  show "\<not> table_txn db \<Longrightarrow> table_work db = td_saved db"
    by (simp add: table_txn_def table_work_def)
  show "lib_step (table_lib faulty) db QBegin = (db', True) \<Longrightarrow>
      \<not> table_txn db \<and> table_txn db' \<and> table_work db' = table_work db \<and> td_saved db' = td_saved db"
    by (auto simp: table_step_def table_txn_def table_work_def split: if_splits option.splits)
  show "lib_step (table_lib faulty) db QBegin = (db', False) \<Longrightarrow>
      table_txn db' = table_txn db \<and> table_work db' = table_work db \<and> td_saved db' = td_saved db"
    by (auto simp: table_step_def split: if_splits)
  show "lib_step (table_lib faulty) db QCommit = (db', True) \<Longrightarrow> \<not> table_txn db' \<and> td_saved db' = table_work db"
    by (auto simp: table_step_def table_txn_def split: if_splits)
  show "lib_step (table_lib faulty) db QCommit = (db', False) \<Longrightarrow>
      table_txn db' = table_txn db \<and> table_work db' = table_work db \<and> td_saved db' = td_saved db \<or>
      \<not> table_txn db' \<and> td_saved db' = td_saved db"
    by (auto simp: table_step_def split: if_splits)
  show "is_write q \<Longrightarrow> lib_step (table_lib faulty) db q = (db', True) \<Longrightarrow>
      table_work db' = apply_stmt (lib_rowid (table_lib faulty) db') q (table_work db) \<and>
      table_txn db' = table_txn db \<and> td_saved db' = (if table_txn db then td_saved db else table_work db')"
    by (cases q) (auto simp: table_step_def table_txn_def table_work_def Let_def split: if_splits option.splits)
  show "is_write q \<Longrightarrow> lib_step (table_lib faulty) db q = (db', False) \<Longrightarrow>
      table_txn db' = table_txn db \<and> table_work db' = table_work db \<and> td_saved db' = td_saved db \<or>
      \<not> table_txn db' \<and> td_saved db' = td_saved db"
    by (auto simp: table_step_def Let_def split: if_splits)
  show "lib_step (table_lib faulty) db (QInsSpan r) = (db', True) \<Longrightarrow> ids_fit (span_ids (table_work db)) \<Longrightarrow>
      lib_rowid (table_lib faulty) db' = next_id (span_ids (table_work db))"
    by (auto simp: table_step_def Let_def split: if_splits)
  show "lib_step (table_lib faulty) db (QInsEvent e) = (db', True) \<Longrightarrow> ids_fit (event_ids (table_work db)) \<Longrightarrow>
      lib_rowid (table_lib faulty) db' = next_id (event_ids (table_work db))"
    by (auto simp: table_step_def Let_def split: if_splits)
  show "lib_max (table_lib faulty) db = ValueRow m \<Longrightarrow>
      span_ids (table_work db) \<noteq> [] \<and> m = Max (set (span_ids (table_work db)))"
    by (auto simp: table_max_def split: list.splits)
  show "lib_max (table_lib faulty) db = NullRow \<Longrightarrow> span_ids (table_work db) = []"
    by (auto simp: table_max_def split: list.splits)
  show "lib_step (table_lib faulty) db QCheckpoint = (db', b) \<Longrightarrow>
      table_txn db' = table_txn db \<and> table_work db' = table_work db \<and> td_saved db' = td_saved db"
    by (auto simp: table_step_def split: if_splits)
qed

lemma table_no_faults: "no_faults (table_lib (\<lambda>_. False)) table_txn"
  by (auto simp: no_faults_def table_step_def table_max_def Let_def split: list.splits)

end
