(* ===== verification/Otel_Platform.thy ===== *)
theory Otel_Platform
  imports Otel_Prelude "HOL-Library.Signed_Division"
begin

text \<open>
  \<^verbatim>\<open>otel_platform.h\<close>: the parts that compute.  The big-endian length of the gRPC frame
  header, the absolute deadline of the flusher's timed wait, and the conversion of a
  Windows file time to a \<^verbatim>\<open>timespec\<close>.  The locks, condition variables and threads of
  that header are the operating system's and are not modelled.
\<close>

subsection \<open>Big-endian 32-bit integers\<close>

definition otel_load_be32 :: "byte list \<Rightarrow> u32" where
  "otel_load_be32 bytes =
     push_bit 24 (ucast (bytes ! 0)) OR push_bit 16 (ucast (bytes ! 1)) OR
     push_bit 8 (ucast (bytes ! 2)) OR ucast (bytes ! 3)"

definition otel_store_be32 :: "u32 \<Rightarrow> byte list" where
  "otel_store_be32 v =
     [ucast (drop_bit 24 v), ucast (drop_bit 16 v), ucast (drop_bit 8 v), ucast v]"

lemma byte_bit_high [simp]: "8 \<le> n \<Longrightarrow> \<not> bit (b :: byte) n"
  by (auto dest: bit_imp_le_length)

lemma length_store_be32 [simp]: "length (otel_store_be32 v) = 4"
  by (simp add: otel_store_be32_def)

lemma load_store_be32: "otel_load_be32 (otel_store_be32 v) = v"
proof (rule bit_word_eqI)
  fix n assume n: "n < LENGTH(32)"
  consider "n < 8" | "8 \<le> n" "n < 16" | "16 \<le> n" "n < 24" | "24 \<le> n" "n < 32"
    using n by fastforce
  then show "bit (otel_load_be32 (otel_store_be32 v)) n \<longleftrightarrow> bit v n"
    by cases (auto simp: otel_load_be32_def otel_store_be32_def bit_simps)
qed

text \<open>the four header bytes are the big-endian digits of the length, and reading them
  back gives the length.\<close>

theorem be32_roundtrip:
  "otel_load_be32 (otel_store_be32 v) = v \<and>
   otel_store_be32 (otel_load_be32 [b0, b1, b2, b3]) = [b0, b1, b2, b3]"
proof
  show "otel_load_be32 (otel_store_be32 v) = v"
    by (rule load_store_be32)
  show "otel_store_be32 (otel_load_be32 [b0, b1, b2, b3]) = [b0, b1, b2, b3]"
    unfolding otel_store_be32_def otel_load_be32_def
    by (auto simp: bit_simps intro!: bit_word_eqI dest: bit_imp_le_length)
qed

subsection \<open>Timed waits\<close>

record timespec =
  tv_sec :: int
  tv_nsec :: int

definition timespec_ok :: "timespec \<Rightarrow> bool" where
  "timespec_ok ts \<longleftrightarrow> 0 \<le> tv_nsec ts \<and> tv_nsec ts < 1000000000"

definition timespec_ns :: "timespec \<Rightarrow> int" where
  "timespec_ns ts = tv_sec ts * 1000000000 + tv_nsec ts"

text \<open>The deadline \<^verbatim>\<open>otel_cond_wait_ms\<close> passes to \<^verbatim>\<open>pthread_cond_timedwait\<close>, from the
  time \<open>now\<close> that \<^verbatim>\<open>otel_realtime\<close> returned.  Division and remainder are C's.\<close>

definition cond_deadline :: "timespec \<Rightarrow> u32 \<Rightarrow> timespec" where
  "cond_deadline now ms =
     (let nsec = tv_nsec now + uint (ms mod 1000) * 1000000;
          sec = tv_sec now + uint (ms div 1000) + nsec sdiv 1000000000
      in \<lparr>tv_sec = sec, tv_nsec = nsec smod 1000000000\<rparr>)"

lemma sdiv_nonneg: "0 \<le> a \<Longrightarrow> 0 < b \<Longrightarrow> (a :: int) sdiv b = a div b"
  by (cases "a = 0") (simp_all add: signed_divide_int_def)

lemma smod_nonneg: "0 \<le> a \<Longrightarrow> 0 < b \<Longrightarrow> (a :: int) smod b = a mod b"
  by (cases "a = 0") (simp_all add: signed_modulo_int_def)

text \<open>the deadline is a normalised time that lies exactly \<open>ms\<close> milliseconds after now,
  and no intermediate value leaves the range of a 64-bit \<^verbatim>\<open>long\<close>.\<close>

theorem cond_deadline_exact:
  assumes "timespec_ok now"
  shows "timespec_ok (cond_deadline now ms) \<and>
    timespec_ns (cond_deadline now ms) = timespec_ns now + uint ms * 1000000 \<and>
    tv_nsec now + uint (ms mod 1000) * 1000000 < 2000000000"
proof -
  define ns where "ns = tv_nsec now + uint (ms mod 1000) * 1000000"
  have m: "uint (ms mod 1000) = uint ms mod 1000" and d: "uint (ms div 1000) = uint ms div 1000"
    by (simp_all add: uint_mod uint_div)
  have "0 \<le> uint ms mod 1000" "uint ms mod 1000 < 1000"
    by simp_all
  then have ns: "0 \<le> ns" "ns < 2000000000"
    using assms by (auto simp: ns_def m timespec_ok_def)
  have eq: "cond_deadline now ms =
      \<lparr>tv_sec = tv_sec now + uint ms div 1000 + ns div 1000000000, tv_nsec = ns mod 1000000000\<rparr>"
    using ns(1) by (simp add: cond_deadline_def Let_def sdiv_nonneg smod_nonneg d flip: ns_def)
  have "timespec_ns (cond_deadline now ms) =
      (tv_sec now + uint ms div 1000) * 1000000000 + (ns div 1000000000 * 1000000000 + ns mod 1000000000)"
    by (simp add: eq timespec_ns_def algebra_simps)
  also have "\<dots> = tv_sec now * 1000000000 + tv_nsec now + (uint ms div 1000 * 1000 + uint ms mod 1000) * 1000000"
    unfolding div_mult_mod_eq[of ns] by (simp only: ns_def m algebra_simps)
  also have "\<dots> = timespec_ns now + uint ms * 1000000"
    unfolding div_mult_mod_eq by (simp add: timespec_ns_def)
  finally show ?thesis
    using ns by (simp add: eq timespec_ok_def ns_def[symmetric])
qed

lemma cond_deadline_exact_witness:
  "timespec_ok \<lparr>tv_sec = 10, tv_nsec = 900000000\<rparr> \<and>
   timespec_ok (cond_deadline \<lparr>tv_sec = 10, tv_nsec = 900000000\<rparr> 250)"
  using cond_deadline_exact[of "\<lparr>tv_sec = 10, tv_nsec = 900000000\<rparr>" 250]
  by (simp add: timespec_ok_def)

subsection \<open>Windows file times\<close>

text \<open>\<^verbatim>\<open>otel_realtime\<close> on Windows: \<open>ticks\<close> is the 64-bit file time in units of 100 ns since
  1601, the result counts from 1970.\<close>

definition filetime_to_timespec :: "u64 \<Rightarrow> timespec" where
  "filetime_to_timespec ticks =
     (let unix_ticks = ticks - 116444736000000000
      in \<lparr>tv_sec = uint (unix_ticks div 10000000), tv_nsec = uint ((unix_ticks mod 10000000) * 100)\<rparr>)"

lemma filetime_normalised:
  assumes "116444736000000000 \<le> ticks"
  shows "timespec_ok (filetime_to_timespec ticks) \<and>
    timespec_ns (filetime_to_timespec ticks) = (uint ticks - 116444736000000000) * 100"
proof -
  define t where "t = ticks - 116444736000000000"
  have ut: "uint t = uint ticks - 116444736000000000"
    using assms unfolding t_def by (simp add: uint_minus_simple_alt)
  have "uint (t mod 10000000) = uint t mod 10000000"
    by (simp add: uint_mod)
  moreover have "uint ((t mod 10000000) * 100) = uint (t mod 10000000) * 100"
    by (simp add: uint_word_ariths calculation)
  ultimately have n: "uint ((t mod 10000000) * 100) = uint t mod 10000000 * 100"
    by simp
  have "(uint t div 10000000) * 1000000000 + uint t mod 10000000 * 100 =
      (uint t div 10000000 * 10000000 + uint t mod 10000000) * 100"
    by (simp only: algebra_simps)
  then show ?thesis
    by (simp add: filetime_to_timespec_def Let_def timespec_ok_def timespec_ns_def n uint_div ut
        flip: t_def)
qed

end
