(* ===== verification/Otel_Random.thy ===== *)
theory Otel_Random
  imports Otel_Prelude
begin

text \<open>
  \<^verbatim>\<open>otel_random.h\<close>: the per-thread id generator.  The code keeps a 128-bit state in
  two 64-bit halves and multiplies it by a 64-bit constant with 32-bit limbs.  The
  lemmas show that the limbs compute the 128-bit product exactly, that a non-zero state
  never becomes zero, and that the step is injective, so the generator never collapses two
  states into one.
\<close>

record otel_random_state =
  rs_lo :: u64
  rs_hi :: u64

definition otel_multiplier :: u64 where
  "otel_multiplier = 0xda942042e4dd58b5"

definition low32 :: "u64 \<Rightarrow> u64" where
  "low32 x = ucast (ucast x :: u32)"

definition otel_random_next :: "otel_random_state \<Rightarrow> otel_random_state \<times> u64" where
  "otel_random_next state =
     (let multiplier = otel_multiplier;
          a0 = low32 (rs_lo state); a1 = drop_bit 32 (rs_lo state);
          b0 = low32 multiplier; b1 = drop_bit 32 multiplier;
          w0 = a0 * b0;
          t = a1 * b0 + drop_bit 32 w0;
          w1 = low32 t;
          w2 = drop_bit 32 t;
          w1 = w1 + a0 * b1;
          hi = rs_hi state * multiplier + a1 * b1 + w2 + drop_bit 32 w1;
          lo = rs_lo state * multiplier
      in (\<lparr>rs_lo = lo, rs_hi = hi\<rparr>, hi))"

text \<open>The 128-bit number a state stands for.\<close>

definition state_value :: "otel_random_state \<Rightarrow> nat" where
  "state_value st = unat (rs_hi st) * 2 ^ 64 + unat (rs_lo st)"

subsection \<open>The limbs compute the high word of the product\<close>

lemma unat_low32: "unat (low32 x) = unat x mod 2 ^ 32"
proof -
  have "low32 x = take_bit 32 x"
    unfolding low32_def by (rule bit_word_eqI) (auto simp: bit_simps)
  then have "unat (low32 x) = take_bit 32 (unat x)"
    by (simp only: unsigned_take_bit_eq)
  then show ?thesis
    by (simp only: take_bit_eq_mod)
qed

lemma unat_high32: "unat (drop_bit 32 (x :: u64)) = unat x div 2 ^ 32"
  by (simp only: unat_drop_bit_eq) (simp only: drop_bit_eq_div)

lemma unat_lt64: "unat (x :: u64) < 2 ^ 64"
  using unsigned_less[of x, where ?'a = nat] by simp

lemma limb_product_bound:
  fixes a b :: nat
  assumes "a < 2 ^ 32" and "b < 2 ^ 32" and "c < 2 ^ 32"
  shows "a * b + c < 2 ^ 64"
proof -
  have "a * b \<le> (2 ^ 32 - 1) * (2 ^ 32 - 1)"
    using assms by (intro mult_le_mono) simp_all
  then show ?thesis using assms(3) by simp
qed

lemma high_word_by_limbs:
  fixes a b :: nat
  assumes "a < 2 ^ 64"
  defines "a0 \<equiv> a mod 2 ^ 32" and "a1 \<equiv> a div 2 ^ 32"
    and "b0 \<equiv> b mod 2 ^ 32" and "b1 \<equiv> b div 2 ^ 32"
  defines "t \<equiv> a1 * b0 + a0 * b0 div 2 ^ 32"
  shows "a * b div 2 ^ 64 = a1 * b1 + t div 2 ^ 32 + (t mod 2 ^ 32 + a0 * b1) div 2 ^ 32"
proof -
  have a: "a = a1 * 2 ^ 32 + a0" and b: "b = b1 * 2 ^ 32 + b0"
    by (simp_all add: a0_def a1_def b0_def b1_def)
  have "a * b = a1 * b1 * 2 ^ 64 + (a1 * b0 + a0 * b1) * 2 ^ 32 + a0 * b0"
    by (simp add: a b algebra_simps)
  moreover have "a0 * b0 = a0 * b0 div 2 ^ 32 * 2 ^ 32 + a0 * b0 mod 2 ^ 32"
    by simp
  ultimately have "a * b = a1 * b1 * 2 ^ 64 + (t + a0 * b1) * 2 ^ 32 + a0 * b0 mod 2 ^ 32"
    by (simp add: t_def algebra_simps)
  then have "a * b div 2 ^ 32 = a1 * b1 * 2 ^ 32 + (t + a0 * b1)"
    by simp
  then have "a * b div 2 ^ 32 div 2 ^ 32 = a1 * b1 + (t + a0 * b1) div 2 ^ 32"
    by simp
  moreover have "(t + a0 * b1) div 2 ^ 32 = t div 2 ^ 32 + (t mod 2 ^ 32 + a0 * b1) div 2 ^ 32"
    using div_mult_self3[of "2 ^ 32" "t div 2 ^ 32" "t mod 2 ^ 32 + a0 * b1"]
    by (simp add: add.assoc[symmetric])
  ultimately show ?thesis
    by (simp add: div_mult2_eq[symmetric])
qed

lemma unat_plus64: "unat (x :: u64) + unat y < 2 ^ 64 \<Longrightarrow> unat (x + y) = unat x + unat y"
  by (simp add: unat_word_ariths)

lemma unat_times64: "unat (x :: u64) * unat y < 2 ^ 64 \<Longrightarrow> unat (x * y) = unat x * unat y"
  by (simp add: unat_word_ariths)

lemma carry_words:
  fixes x y :: u64
  defines "t \<equiv> drop_bit 32 x * low32 y + drop_bit 32 (low32 x * low32 y)"
  shows "(unat x * unat y) div 2 ^ 64 =
    unat (drop_bit 32 x) * unat (drop_bit 32 y) + unat (drop_bit 32 t) +
    unat (drop_bit 32 (low32 t + low32 x * drop_bit 32 y))"
proof -
  have small: "unat (low32 z) < 2 ^ 32" "unat (drop_bit 32 z) < 2 ^ 32" for z :: u64
    using unat_lt64[of z] by (simp_all add: unat_low32 unat_high32 less_mult_imp_div_less)
  have w0: "unat (low32 x * low32 y) = unat (low32 x) * unat (low32 y)"
    using limb_product_bound[of _ _ 0] small by (intro unat_times64) simp
  have p1: "unat (drop_bit 32 x * low32 y) = unat (drop_bit 32 x) * unat (low32 y)"
    using limb_product_bound[of _ _ 0] small by (intro unat_times64) simp
  have p2: "unat (low32 x * drop_bit 32 y) = unat (low32 x) * unat (drop_bit 32 y)"
    using limb_product_bound[of _ _ 0] small by (intro unat_times64) simp
  have t: "unat t = unat (drop_bit 32 x) * unat (low32 y) + unat (drop_bit 32 (low32 x * low32 y))"
    unfolding t_def by (subst unat_plus64) (simp_all only: p1 small limb_product_bound)
  have w1: "unat (low32 t + low32 x * drop_bit 32 y) =
      unat (low32 t) + unat (low32 x) * unat (drop_bit 32 y)"
    using limb_product_bound[OF small(1)[of x] small(2)[of y] small(1)[of t]]
    by (subst unat_plus64) (simp_all only: p2 add.commute)
  have "unat (drop_bit 32 (low32 x * low32 y)) = unat (low32 x) * unat (low32 y) div 2 ^ 32"
    by (simp only: unat_high32 w0)
  then show ?thesis
    using high_word_by_limbs[OF unat_lt64[of x], of "unat y"] t w1
    by (simp only: unat_high32 unat_low32)
qed

lemma random_hi:
  "unat (rs_hi (fst (otel_random_next st))) =
     (unat (rs_hi st) * unat otel_multiplier +
      unat (rs_lo st) * unat otel_multiplier div 2 ^ 64) mod 2 ^ 64"
proof -
  let ?x = "rs_lo st" and ?m = otel_multiplier
  let ?t = "drop_bit 32 ?x * low32 ?m + drop_bit 32 (low32 ?x * low32 ?m)"
  have "unat (rs_hi (fst (otel_random_next st))) =
      unat (rs_hi st * ?m + drop_bit 32 ?x * drop_bit 32 ?m + drop_bit 32 ?t +
        drop_bit 32 (low32 ?t + low32 ?x * drop_bit 32 ?m))"
    by (simp add: otel_random_next_def Let_def)
  also have "\<dots> = (unat (rs_hi st) * unat ?m + (unat (drop_bit 32 ?x) * unat (drop_bit 32 ?m) +
      unat (drop_bit 32 ?t) + unat (drop_bit 32 (low32 ?t + low32 ?x * drop_bit 32 ?m)))) mod 2 ^ 64"
    by (simp only: unat_word_ariths mod_simps add.assoc) simp
  finally show ?thesis
    by (simp only: carry_words)
qed

lemma random_lo:
  "unat (rs_lo (fst (otel_random_next st))) = unat (rs_lo st) * unat otel_multiplier mod 2 ^ 64"
  by (simp add: otel_random_next_def Let_def unat_word_ariths)

lemma split_128: "(h * 2 ^ 64 + l) mod 2 ^ 128 = (h + l div 2 ^ 64) mod 2 ^ 64 * 2 ^ 64 + l mod 2 ^ 64"
  for h l :: nat
proof -
  have "h * 2 ^ 64 + l = (h + l div 2 ^ 64) * 2 ^ 64 + l mod 2 ^ 64"
    by (simp add: algebra_simps)
  moreover have "(k * 2 ^ 64 + r) mod 2 ^ 128 = k mod 2 ^ 64 * 2 ^ 64 + r"
    if "r < 2 ^ 64" for k r :: nat
    using mod_mult2_eq[of "k * 2 ^ 64 + r" "2 ^ 64" "2 ^ 64"] that by simp
  moreover have "l mod 2 ^ 64 < 2 ^ 64"
    by simp
  ultimately show ?thesis by metis
qed

lemma random_next_value:
  "state_value (fst (otel_random_next st)) = state_value st * unat otel_multiplier mod 2 ^ 128"
proof -
  have "state_value st * unat otel_multiplier =
      (unat (rs_hi st) * unat otel_multiplier) * 2 ^ 64 + unat (rs_lo st) * unat otel_multiplier"
    by (simp add: state_value_def algebra_simps)
  then show ?thesis
    by (simp only: split_128 state_value_def random_hi random_lo)
qed

subsection \<open>Consequences for the id stream\<close>

lemma state_value_less: "state_value st < 2 ^ 128"
proof -
  have "unat (rs_hi st) * 2 ^ 64 + unat (rs_lo st) < (unat (rs_hi st) + 1) * 2 ^ 64"
    using unat_lt64[of "rs_lo st"] by simp
  also have "\<dots> \<le> 2 ^ 64 * 2 ^ 64"
    using unat_lt64[of "rs_hi st"] by (intro mult_le_mono1) simp
  finally show ?thesis
    by (simp add: state_value_def)
qed

lemma state_value_inject: "state_value a = state_value b \<Longrightarrow> a = b"
proof -
  assume eq: "state_value a = state_value b"
  have "state_value c div 2 ^ 64 = unat (rs_hi c)" "state_value c mod 2 ^ 64 = unat (rs_lo c)" for c
    using unat_lt64[of "rs_lo c"] by (simp_all add: state_value_def)
  with eq have "unat (rs_hi a) = unat (rs_hi b)" "unat (rs_lo a) = unat (rs_lo b)"
    by metis+
  then show "a = b"
    by (cases a; cases b) (simp add: word_unat_eq_iff)
qed

lemma coprime_multiplier: "coprime (unat otel_multiplier) (2 ^ 128)"
proof -
  have "odd (unat otel_multiplier)"
    by (simp add: otel_multiplier_def)
  then show ?thesis
    by (metis coprime_power_right_iff coprime_right_2_iff_odd)
qed

fun otel_draws :: "nat \<Rightarrow> otel_random_state \<Rightarrow> otel_random_state \<times> u64 list" where
  "otel_draws 0 st = (st, [])"
| "otel_draws (Suc n) st =
     (let (st', r) = otel_random_next st; (st'', rs) = otel_draws n st' in (st'', r # rs))"

lemma random_next_nonzero:
  "state_value st \<noteq> 0 \<Longrightarrow> state_value (fst (otel_random_next st)) \<noteq> 0"
proof
  assume nz: "state_value st \<noteq> 0" and "state_value (fst (otel_random_next st)) = 0"
  then have "2 ^ 128 dvd state_value st * unat otel_multiplier"
    by (simp only: random_next_value dvd_eq_mod_eq_0)
  then have "2 ^ 128 dvd state_value st"
    using coprime_multiplier by (simp only: coprime_dvd_mult_left_iff coprime_commute)
  with nz state_value_less[of st] show False
    by (auto dest: dvd_imp_le)
qed

text \<open>C39: the limb arithmetic of \<^verbatim>\<open>otel_random_next\<close> is one exact multiplication of the
  128-bit state by the constant modulo \<open>2 ^ 128\<close>, and the id it returns is the high half
  of the new state.\<close>

theorem otel_random_next_is_128bit_product:
  "state_value (fst (otel_random_next st)) = state_value st * 0xda942042e4dd58b5 mod 2 ^ 128
   \<and> unat (snd (otel_random_next st)) = state_value (fst (otel_random_next st)) div 2 ^ 64"
proof
  show "state_value (fst (otel_random_next st)) = state_value st * 0xda942042e4dd58b5 mod 2 ^ 128"
    using random_next_value[of st] by (simp add: otel_multiplier_def)
  show "unat (snd (otel_random_next st)) = state_value (fst (otel_random_next st)) div 2 ^ 64"
    using unat_lt64[of "rs_lo (fst (otel_random_next st))"]
    by (simp add: state_value_def otel_random_next_def Let_def)
qed

lemma random_next_inject: "fst (otel_random_next x) = fst (otel_random_next y) \<Longrightarrow> x = y"
proof -
  assume "fst (otel_random_next x) = fst (otel_random_next y)"
  then have "state_value x * unat otel_multiplier mod 2 ^ 128 =
      state_value y * unat otel_multiplier mod 2 ^ 128"
    by (metis random_next_value)
  then have "int (2 ^ 128) dvd int (state_value x * unat otel_multiplier) - int (state_value y * unat otel_multiplier)"
    by (simp only: mod_eq_dvd_iff[symmetric] zmod_int[symmetric])
  then have "int (2 ^ 128) dvd (int (state_value x) - int (state_value y)) * int (unat otel_multiplier)"
    by (simp only: of_nat_mult left_diff_distrib)
  moreover have "coprime (int (2 ^ 128)) (int (unat otel_multiplier))"
    using coprime_multiplier by (simp only: coprime_int_iff coprime_commute)
  ultimately have "int (2 ^ 128) dvd int (state_value x) - int (state_value y)"
    by (simp only: coprime_dvd_mult_left_iff)
  then have "state_value x mod 2 ^ 128 = state_value y mod 2 ^ 128"
    by (simp only: mod_eq_dvd_iff[symmetric] zmod_int[symmetric] of_nat_eq_iff)
  then have "state_value x = state_value y"
    using state_value_less by (simp only: mod_less)
  then show "x = y"
    by (rule state_value_inject)
qed

text \<open>the generator never degenerates: drawing any number of ids from a state that is
  not all zero leaves a state that is not all zero, and two different states stay
  different.\<close>

theorem otel_random_state_never_collapses:
  assumes "state_value a \<noteq> 0" and "a \<noteq> b"
  shows "state_value (fst (otel_draws n a)) \<noteq> 0 \<and> fst (otel_draws n a) \<noteq> fst (otel_draws n b)"
  using assms
proof (induction n arbitrary: a b)
  case 0
  then show ?case by simp
next
  case (Suc n)
  have "state_value (fst (otel_random_next a)) \<noteq> 0"
    using Suc.prems(1) by (rule random_next_nonzero)
  moreover have "fst (otel_random_next a) \<noteq> fst (otel_random_next b)"
    using Suc.prems(2) random_next_inject by blast
  ultimately show ?case
    using Suc.IH by (simp add: Let_def split_beta)
qed

lemma otel_random_state_never_collapses_witness:
  "state_value (fst (otel_draws 3 \<lparr>rs_lo = 1, rs_hi = 0\<rparr>)) \<noteq> 0 \<and>
   fst (otel_draws 3 \<lparr>rs_lo = 1, rs_hi = 0\<rparr>) \<noteq> fst (otel_draws 3 \<lparr>rs_lo = 2, rs_hi = 0\<rparr>)"
  by (rule otel_random_state_never_collapses) (simp_all add: state_value_def)

text \<open>The first four ids of the state used by \<^verbatim>\<open>test/otel_concurrent_test.c\<close>.\<close>

lemma otel_draws_test_vector:
  "snd (otel_draws 4 \<lparr>rs_lo = 0xfedcba9876543210, rs_hi = 0x123456789abcdef0\<rparr>) =
     [0x89934c906e585824, 0x33385589f1f29a72, 0xc41201d68f028d63, 0x4f086e8b9efeffda]"
  by code_simp

end
