(* ===== verification/Otel_Arena.thy ===== *)
theory Otel_Arena
  imports Otel_Prelude
begin

text \<open>
  The span and its arena (\<^verbatim>\<open>oteltracing.h\<close>).  \<^verbatim>\<open>struct otel_span\<close> is a record whose
  \<^verbatim>\<open>arena\<close> is byte memory: attribute and event records are stored in it at byte offsets
  with the C layout (16 and 24 bytes) and strings with their NUL, so the overlap of two
  objects is a matter of addresses, as in the code.  Offsets are 16-bit words with
  \<open>OTEL_NIL\<close> for "none"; a C pointer into the arena is the address of its record.

  The lemmas build a typed view of the arena: \<open>heap_ok m0 m T used\<close> says that the bytes
  \<open>m\<close> below \<open>used\<close> hold the pairwise disjoint, aligned objects \<open>T\<close>, and that nothing was
  ever written past the 4024 bytes (\<open>m0\<close> is the memory the span was started in).
\<close>

subsection \<open>Constants and data\<close>

abbreviation (input) OTEL_SPAN_ARENA :: nat where "OTEL_SPAN_ARENA \<equiv> 4024"
abbreviation (input) OTEL_NIL :: u16 where "OTEL_NIL \<equiv> 0xFFFF"
abbreviation (input) OTEL_FLAG_RECORDING :: byte where "OTEL_FLAG_RECORDING \<equiv> 1"

abbreviation (input) OTEL_ATTR_STR :: byte where "OTEL_ATTR_STR \<equiv> 0"
abbreviation (input) OTEL_ATTR_I64 :: byte where "OTEL_ATTR_I64 \<equiv> 1"
abbreviation (input) OTEL_ATTR_U64 :: byte where "OTEL_ATTR_U64 \<equiv> 2"
abbreviation (input) OTEL_ATTR_F64 :: byte where "OTEL_ATTR_F64 \<equiv> 3"
abbreviation (input) OTEL_ATTR_BOOL :: byte where "OTEL_ATTR_BOOL \<equiv> 4"

abbreviation (input) OTEL_STATUS_UNSET :: byte where "OTEL_STATUS_UNSET \<equiv> 0"
abbreviation (input) OTEL_STATUS_OK :: byte where "OTEL_STATUS_OK \<equiv> 1"
abbreviation (input) OTEL_STATUS_ERROR :: byte where "OTEL_STATUS_ERROR \<equiv> 2"

text \<open>A C string argument: \<open>None\<close> is the null pointer, \<open>Some bs\<close> points to the bytes \<open>bs\<close>.\<close>

type_synonym c_string = "byte list option"

record otel_span =
  sp_trace_id :: "byte list"
  sp_span_id :: u64
  sp_parent_id :: u64
  sp_start_unix_ns :: u64
  sp_end_unix_ns :: u64
  sp_name :: u16
  sp_status_message :: u16
  sp_attr_head :: u16
  sp_attr_tail :: u16
  sp_event_head :: u16
  sp_event_tail :: u16
  sp_arena_used :: u16
  sp_num_attrs :: u16
  sp_num_events :: u16
  sp_kind :: byte
  sp_flags :: byte
  sp_status :: byte
  sp_dropped_attrs :: byte
  sp_dropped_events :: byte
  sp_arena :: mem

text \<open>The C view of 16 bytes as a \<^verbatim>\<open>struct otel_attr\<close> (the union is its eight raw bytes)
  and of 24 bytes as a \<^verbatim>\<open>struct otel_event\<close>.\<close>

record otel_attr =
  at_next :: u16
  at_key :: u16
  at_val :: u16
  at_type :: byte
  at_v :: "byte list"

record otel_event =
  ev_next :: u16
  ev_name :: u16
  ev_attr_head :: u16
  ev_attr_tail :: u16
  ev_num_attrs :: byte
  ev_dropped_attrs :: byte
  ev_time_unix_ns :: u64

definition attr_at :: "mem \<Rightarrow> nat \<Rightarrow> otel_attr" where
  "attr_at m p = \<lparr>at_next = load16 m p, at_key = load16 m (p + 2), at_val = load16 m (p + 4),
     at_type = m (p + 6), at_v = mem_read m (p + 8) 8\<rparr>"

definition event_at :: "mem \<Rightarrow> nat \<Rightarrow> otel_event" where
  "event_at m p = \<lparr>ev_next = load16 m p, ev_name = load16 m (p + 2),
     ev_attr_head = load16 m (p + 4), ev_attr_tail = load16 m (p + 6),
     ev_num_attrs = m (p + 8), ev_dropped_attrs = m (p + 9), ev_time_unix_ns = load64 m (p + 16)\<rparr>"

subsection \<open>Allocation and string copies\<close>

definition otel_arena_alloc :: "otel_span \<Rightarrow> u64 \<Rightarrow> otel_span \<times> u16" where
  "otel_arena_alloc s n =
     (let off = (ucast (sp_arena_used s) + 7) AND NOT 7;
          e = off + ((n + 7) AND NOT 7)
      in if e > 4024 then (s, OTEL_NIL)
         else (s\<lparr>sp_arena_used := ucast e\<rparr>, ucast off))"

definition otel_arena_putn :: "otel_span \<Rightarrow> c_string \<Rightarrow> u64 \<Rightarrow> otel_span \<times> u16" where
  "otel_arena_putn s str len =
     (case str of
        None \<Rightarrow> (s, OTEL_NIL)
      | Some bs \<Rightarrow>
          (let (s, off) = otel_arena_alloc s (len + 1)
           in if off = OTEL_NIL then (s, OTEL_NIL)
              else (let dst = unat off;
                        m = mem_write (sp_arena s) dst (take (unat len) bs);
                        m = store8 m (dst + unat len) 0
                    in (s\<lparr>sp_arena := m\<rparr>, off))))"

definition otel_arena_put :: "otel_span \<Rightarrow> c_string \<Rightarrow> otel_span \<times> u16" where
  "otel_arena_put s str =
     (case str of
        None \<Rightarrow> (s, OTEL_NIL)
      | Some bs \<Rightarrow> otel_arena_putn s str (of_nat (length (c_str bs))))"

subsection \<open>Read accessors\<close>

definition otel_span_strv :: "otel_span \<Rightarrow> u16 \<Rightarrow> byte list" where
  "otel_span_strv s off =
     (if off = OTEL_NIL then [] else cstr_from (sp_arena s) OTEL_SPAN_ARENA (unat off))"

definition otel_span_name :: "otel_span \<Rightarrow> byte list" where
  "otel_span_name s = otel_span_strv s (sp_name s)"

definition otel_span_status_message :: "otel_span \<Rightarrow> byte list" where
  "otel_span_status_message s = otel_span_strv s (sp_status_message s)"

definition as_ptr :: "u16 \<Rightarrow> nat option" where
  "as_ptr off = (if off = OTEL_NIL then None else Some (unat off))"

definition otel_attr_first :: "otel_span \<Rightarrow> nat option" where
  "otel_attr_first s = as_ptr (sp_attr_head s)"

definition otel_attr_next :: "otel_span \<Rightarrow> nat \<Rightarrow> nat option" where
  "otel_attr_next s a = as_ptr (at_next (attr_at (sp_arena s) a))"

definition otel_attr_key :: "otel_span \<Rightarrow> nat \<Rightarrow> byte list" where
  "otel_attr_key s a = otel_span_strv s (at_key (attr_at (sp_arena s) a))"

definition otel_attr_strval :: "otel_span \<Rightarrow> nat \<Rightarrow> byte list" where
  "otel_attr_strval s a = otel_span_strv s (at_val (attr_at (sp_arena s) a))"

definition otel_event_first :: "otel_span \<Rightarrow> nat option" where
  "otel_event_first s = as_ptr (sp_event_head s)"

definition otel_event_next :: "otel_span \<Rightarrow> nat \<Rightarrow> nat option" where
  "otel_event_next s e = as_ptr (ev_next (event_at (sp_arena s) e))"

definition otel_event_name :: "otel_span \<Rightarrow> nat \<Rightarrow> byte list" where
  "otel_event_name s e = otel_span_strv s (ev_name (event_at (sp_arena s) e))"

definition otel_event_attr_first :: "otel_span \<Rightarrow> nat \<Rightarrow> nat option" where
  "otel_event_attr_first s e = as_ptr (ev_attr_head (event_at (sp_arena s) e))"

text \<open>The loops \<^verbatim>\<open>for (p = first; p; p = next(p))\<close> over the attribute and event lists:
  \<open>None\<close> when the chain never reaches \<open>OTEL_NIL\<close>.\<close>

partial_function (option) walk_attrs :: "otel_span \<Rightarrow> nat option \<Rightarrow> nat list option" where
  "walk_attrs s p =
     (case p of None \<Rightarrow> Some []
      | Some a \<Rightarrow> Option.bind (walk_attrs s (otel_attr_next s a)) (\<lambda>as. Some (a # as)))"

partial_function (option) walk_events :: "otel_span \<Rightarrow> nat option \<Rightarrow> nat list option" where
  "walk_events s p =
     (case p of None \<Rightarrow> Some []
      | Some e \<Rightarrow> Option.bind (walk_events s (otel_event_next s e)) (\<lambda>es. Some (e # es)))"

declare walk_attrs.simps [code] walk_events.simps [code]

subsection \<open>Field stores in a record\<close>

named_theorems record_stores \<open>what a store to a field does to the record view\<close>

lemma attr_at_agree: "agree p (p + 16) m m' \<Longrightarrow> attr_at m p = attr_at m' p"
  by (simp add: attr_at_def load16_agree[where lo = p and hi = "p + 16"]
      mem_read_agree[where lo = p and hi = "p + 16"] agreeD)

lemma event_at_agree: "agree p (p + 24) m m' \<Longrightarrow> event_at m p = event_at m' p"
  by (simp add: event_at_def load16_agree[where lo = p and hi = "p + 24"]
      load64_agree[where lo = p and hi = "p + 24"] agreeD)

lemma attr_at_store_next [record_stores]:
  "attr_at (store16 m p v) p = (attr_at m p)\<lparr>at_next := v\<rparr>"
  by (simp add: attr_at_def) (simp add: store16_def frame_simps)

lemma attr_at_store_key [record_stores]:
  "attr_at (store16 m (p + 2) v) p = (attr_at m p)\<lparr>at_key := v\<rparr>"
  by (simp add: attr_at_def) (simp add: store16_def frame_simps)

lemma attr_at_store_val [record_stores]:
  "attr_at (store16 m (p + 4) v) p = (attr_at m p)\<lparr>at_val := v\<rparr>"
  by (simp add: attr_at_def) (simp add: store16_def frame_simps)

lemma attr_at_store_type [record_stores]:
  "attr_at (store8 m (p + 6) v) p = (attr_at m p)\<lparr>at_type := v\<rparr>"
  by (simp add: attr_at_def) (simp add: store8_def frame_simps)

lemma attr_at_store_v64 [record_stores]:
  "attr_at (store64 m (p + 8) v) p = (attr_at m p)\<lparr>at_v := le_bytes 8 v\<rparr>"
  by (simp add: attr_at_def store64_def frame_simps)

lemma attr_at_store_v32 [record_stores]:
  "attr_at (store32 m (p + 8) v) p =
     (attr_at m p)\<lparr>at_v := le_bytes 4 v @ drop 4 (at_v (attr_at m p))\<rparr>"
proof -
  have "mem_read m' (p + 8) 8 = mem_read m' (p + 8) 4 @ mem_read m' (p + 12) 4" for m'
    using mem_read_add[of m' "p + 8" 4 4] by (simp add: add.commute)
  then show ?thesis
    by (simp add: attr_at_def store32_def frame_simps)
qed

lemma event_at_store_next [record_stores]:
  "event_at (store16 m p v) p = (event_at m p)\<lparr>ev_next := v\<rparr>"
  by (simp add: event_at_def) (simp add: store16_def frame_simps)

lemma event_at_store_name [record_stores]:
  "event_at (store16 m (p + 2) v) p = (event_at m p)\<lparr>ev_name := v\<rparr>"
  by (simp add: event_at_def) (simp add: store16_def frame_simps)

lemma event_at_store_attr_head [record_stores]:
  "event_at (store16 m (p + 4) v) p = (event_at m p)\<lparr>ev_attr_head := v\<rparr>"
  by (simp add: event_at_def) (simp add: store16_def frame_simps)

lemma event_at_store_attr_tail [record_stores]:
  "event_at (store16 m (p + 6) v) p = (event_at m p)\<lparr>ev_attr_tail := v\<rparr>"
  by (simp add: event_at_def) (simp add: store16_def frame_simps)

lemma event_at_store_num_attrs [record_stores]:
  "event_at (store8 m (p + 8) v) p = (event_at m p)\<lparr>ev_num_attrs := v\<rparr>"
  by (simp add: event_at_def) (simp add: store8_def frame_simps)

lemma event_at_store_dropped [record_stores]:
  "event_at (store8 m (p + 9) v) p = (event_at m p)\<lparr>ev_dropped_attrs := v\<rparr>"
  by (simp add: event_at_def) (simp add: store8_def frame_simps)

lemma event_at_store_time [record_stores]:
  "event_at (store64 m (p + 16) v) p = (event_at m p)\<lparr>ev_time_unix_ns := v\<rparr>"
  by (simp add: event_at_def) (simp add: store64_def frame_simps)

end
