(* ===== verification/Otel_Heap.thy ===== *)
theory Otel_Heap
  imports Otel_Arena
begin

text \<open>
  The typed view of a span arena used by the proofs.  A block is a string with its NUL, an
  attribute record or an event record.  The lemmas of this theory say what an allocation
  and a field store do to the view, that a list threaded through it is walked by the
  accessor loops, and how many records fit into the arena.
\<close>

datatype blk = BStr "byte list" | BAttr otel_attr | BEvent otel_event

fun blk_size :: "blk \<Rightarrow> nat" where
  "blk_size (BStr bs) = Suc (length bs)"
| "blk_size (BAttr r) = 16"
| "blk_size (BEvent r) = 24"

fun blk_at :: "mem \<Rightarrow> nat \<Rightarrow> blk \<Rightarrow> bool" where
  "blk_at m p (BStr bs) \<longleftrightarrow> mem_read m p (Suc (length bs)) = bs @ [0]"
| "blk_at m p (BAttr r) \<longleftrightarrow> attr_at m p = r"
| "blk_at m p (BEvent r) \<longleftrightarrow> event_at m p = r"

definition heap_ok :: "mem \<Rightarrow> mem \<Rightarrow> (nat \<Rightarrow> blk option) \<Rightarrow> nat \<Rightarrow> bool" where
  "heap_ok m0 m T u \<longleftrightarrow>
     8 dvd u \<and> u \<le> 4024 \<and> (\<forall>i\<ge>4024. m i = m0 i) \<and>
     (\<forall>p b. T p = Some b \<longrightarrow> 8 dvd p \<and> p + blk_size b \<le> u \<and> blk_at m p b) \<and>
     (\<forall>p b q c. T p = Some b \<and> T q = Some c \<and> p < q \<longrightarrow> p + blk_size b \<le> q)"

lemma blk_size_pos [simp]: "0 < blk_size b"
  by (cases b) auto

lemma heap_okD:
  assumes "heap_ok m0 m T u"
  shows "8 dvd u" "u \<le> 4024" "\<And>i. i \<ge> 4024 \<Longrightarrow> m i = m0 i"
    and "\<And>p b. T p = Some b \<Longrightarrow> p + blk_size b \<le> u"
    and "\<And>p b. T p = Some b \<Longrightarrow> p < 4024"
    and "\<And>p b. T p = Some b \<Longrightarrow> blk_at m p b"
    and "\<And>p b. T p = Some b \<Longrightarrow> p < u"
proof -
  show "8 dvd u" "u \<le> 4024" "\<And>i. i \<ge> 4024 \<Longrightarrow> m i = m0 i"
    "\<And>p b. T p = Some b \<Longrightarrow> p + blk_size b \<le> u" "\<And>p b. T p = Some b \<Longrightarrow> blk_at m p b"
    using assms by (auto simp: heap_ok_def)
  fix p b assume "T p = Some b"
  then have "p + blk_size b \<le> u" and "u \<le> 4024"
    using assms by (auto simp: heap_ok_def)
  then show "p < u" "p < 4024"
    using blk_size_pos[of b] by linarith+
qed

lemma blk_at_agree: "blk_at m p b \<Longrightarrow> agree p (p + blk_size b) m m' \<Longrightarrow> blk_at m' p b"
  by (cases b) (auto dest: mem_read_agree[OF agree_sym] attr_at_agree event_at_agree)

lemma heap_fresh: "heap_ok m0 m T u \<Longrightarrow> T u = None"
  by (cases "T u") (auto dest: heap_okD(7))

lemma heap_grow: "heap_ok m0 m T u \<Longrightarrow> u + round8 n \<le> 4024 \<Longrightarrow> heap_ok m0 m T (u + round8 n)"
  by (auto simp: heap_ok_def intro: trans_le_add1)

lemma heap_new:
  assumes ok: "heap_ok m0 m T u" and fits: "u + round8 n \<le> 4024"
    and size: "blk_size b \<le> n" and new: "blk_at m' u b"
    and frame: "agree 0 u m m'" "\<And>i. 4024 \<le> i \<Longrightarrow> m' i = m i"
  shows "heap_ok m0 m' (T(u \<mapsto> b)) (u + round8 n)"
proof -
  have old: "blk_at m' p c" if "T p = Some c" for p c
    using heap_okD(4,6)[OF ok that] frame(1) by (auto elim!: blk_at_agree agree_sub)
  have "blk_size b \<le> round8 n"
    using size round8_ge[of n] by simp
  then show ?thesis
    using ok fits new old frame(2)
    unfolding heap_ok_def
    by (auto split: if_splits dest: heap_okD(7)[OF ok] intro: trans_le_add1)
qed

lemma heap_set:
  assumes ok: "heap_ok m0 m T u" and p: "T p = Some b"
    and size: "blk_size b' = blk_size b" and new: "blk_at m' p b'"
    and frame: "\<And>i. i < p \<or> p + blk_size b \<le> i \<Longrightarrow> m' i = m i"
  shows "heap_ok m0 m' (T(p \<mapsto> b')) u"
proof -
  have old: "blk_at m' q c" if "T q = Some c" "q \<noteq> p" for q c
  proof -
    have "q + blk_size c \<le> p \<or> p + blk_size b \<le> q"
      using ok p that unfolding heap_ok_def by (metis nat_neq_iff)
    then have "agree q (q + blk_size c) m m'"
      using frame by (auto simp: agree_def)
    then show ?thesis
      using heap_okD(6)[OF ok that(1)] by (rule blk_at_agree[rotated])
  qed
  have "p + blk_size b \<le> 4024"
    using heap_okD(2,4)[OF ok] p by fastforce
  then have "m' i = m0 i" if "4024 \<le> i" for i
    using frame[of i] heap_okD(3)[OF ok that] that by simp
  then show ?thesis
    using ok p size new old unfolding heap_ok_def by (auto split: if_splits)
qed

lemma heap_set_attr:
  assumes "heap_ok m0 m T u" and "T p = Some (BAttr r)" and "k + length bs \<le> 16"
  shows "heap_ok m0 (mem_write m (p + k) bs) (T(p \<mapsto> BAttr (attr_at (mem_write m (p + k) bs) p))) u"
  using assms(3) by (intro heap_set[OF assms(1,2)]) (auto simp: mem_write_def)

lemma heap_set_event:
  assumes "heap_ok m0 m T u" and "T p = Some (BEvent r)" and "k + length bs \<le> 24"
  shows "heap_ok m0 (mem_write m (p + k) bs) (T(p \<mapsto> BEvent (event_at (mem_write m (p + k) bs) p))) u"
  using assms(3) by (intro heap_set[OF assms(1,2)]) (auto simp: mem_write_def)

subsection \<open>Allocation\<close>

definition span_heap :: "mem \<Rightarrow> otel_span \<Rightarrow> (nat \<Rightarrow> blk option) \<Rightarrow> bool" where
  "span_heap m0 s T \<longleftrightarrow> heap_ok m0 (sp_arena s) T (unat (sp_arena_used s))"

lemma span_heap_used:
  assumes "span_heap m0 s T"
  shows "8 dvd unat (sp_arena_used s)" "unat (sp_arena_used s) \<le> 4024" "sp_arena_used s \<noteq> OTEL_NIL"
proof -
  show "8 dvd unat (sp_arena_used s)" "unat (sp_arena_used s) \<le> 4024"
    using assms by (auto simp: span_heap_def dest: heap_okD)
  then show "sp_arena_used s \<noteq> OTEL_NIL"
    by auto
qed

lemma unat_round_up:
  fixes n :: u64
  shows "unat n < 2 ^ 63 \<Longrightarrow> unat ((n + 7) AND NOT 7) = round8 (unat n)"
  by (simp add: unat_and_minus_8 unat_word_ariths round8_def)

lemma ucast_of_nat16: "n \<le> 4024 \<Longrightarrow> unat (x :: u64) = n \<Longrightarrow> (ucast x :: u16) = of_nat n"
  by (metis of_nat_unat)

lemma otel_arena_alloc_eq:
  assumes "8 dvd unat (sp_arena_used s)" and "unat (sp_arena_used s) \<le> 4024"
    and "unat n < 2 ^ 63"
  shows "otel_arena_alloc s n =
    (if unat (sp_arena_used s) + round8 (unat n) \<le> 4024
     then (s\<lparr>sp_arena_used := of_nat (unat (sp_arena_used s) + round8 (unat n))\<rparr>, sp_arena_used s)
     else (s, OTEL_NIL))"
proof -
  define u where "u = unat (sp_arena_used s)"
  have uc: "unat (ucast (sp_arena_used s) :: u64) = u"
    using unsigned_less[of "sp_arena_used s", where ?'a = nat]
    by (simp add: u_def unsigned_ucast_eq take_bit_nat_eq_self)
  define ow where "ow = (ucast (sp_arena_used s) + 7) AND (NOT 7 :: u64)"
  define ew where "ew = ow + ((n + 7) AND NOT 7)"
  have off: "unat ow = u"
    unfolding ow_def using assms(1,2)
    by (subst unat_round_up) (simp_all add: uc round8_dvd flip: u_def)
  have "round8 (unat n) < 2 ^ 63 + 8"
    using round8_less[of "unat n"] assms(3) by simp
  then have e: "unat ew = u + round8 (unat n)"
    using assms(2,3) unfolding u_def[symmetric] ew_def
    by (simp only: unat_word_ariths off unat_round_up[OF assms(3)]) simp
  have gt: "4024 < ew \<longleftrightarrow> \<not> u + round8 (unat n) \<le> 4024"
    by (simp add: word_less_nat_alt not_le flip: e)
  have "(ucast ow :: u16) = sp_arena_used s"
    using ucast_of_nat16[OF assms(2)[folded u_def] off] by (simp add: u_def)
  then show ?thesis
    using ucast_of_nat16[OF _ e]
    unfolding otel_arena_alloc_def Let_def ow_def[symmetric] ew_def[symmetric] u_def[symmetric]
    by (simp add: gt)
qed

definition bump :: "otel_span \<Rightarrow> nat \<Rightarrow> otel_span" where
  "bump s k = s\<lparr>sp_arena_used := of_nat (unat (sp_arena_used s) + round8 k)\<rparr>"

definition put_at :: "otel_span \<Rightarrow> byte list \<Rightarrow> otel_span" where
  "put_at s c = (bump s (Suc (length c)))\<lparr>sp_arena :=
     mem_write (sp_arena s) (unat (sp_arena_used s)) (c @ [0])\<rparr>"

definition fits :: "otel_span \<Rightarrow> nat \<Rightarrow> bool" where
  "fits s n \<longleftrightarrow> unat (sp_arena_used s) + round8 n \<le> 4024"

lemma unat_bump_used:
  "fits s k \<Longrightarrow> unat (sp_arena_used (bump s k)) = unat (sp_arena_used s) + round8 k"
proof -
  assume "fits s k"
  then have "unat (sp_arena_used s) + round8 k < 2 ^ LENGTH(16)"
    by (simp add: fits_def)
  then show ?thesis
    by (simp add: bump_def unat_of_nat_small del: of_nat_add)
qed

lemma alloc_eq:
  assumes "span_heap m0 s T" and "n < 2 ^ 63"
  shows "otel_arena_alloc s (of_nat n) =
    (if fits s n then (bump s n, sp_arena_used s) else (s, OTEL_NIL))"
proof -
  have "unat (of_nat n :: u64) = n"
    using assms(2) by (intro unat_of_nat_small) simp
  then show ?thesis
    using otel_arena_alloc_eq[OF span_heap_used(1,2)[OF assms(1)], of "of_nat n"] assms(2)
    by (simp add: fits_def bump_def del: of_nat_add)
qed

lemma bump_heap: "span_heap m0 s T \<Longrightarrow> fits s n \<Longrightarrow> span_heap m0 (bump s n) T"
  by (simp add: span_heap_def unat_bump_used) (simp add: bump_def fits_def heap_grow)

lemma bump_heap_attr:
  "span_heap m0 s T \<Longrightarrow> fits s 16 \<Longrightarrow>
   span_heap m0 (bump s 16) (T(unat (sp_arena_used s) \<mapsto>
     BAttr (attr_at (sp_arena s) (unat (sp_arena_used s)))))"
  by (simp add: span_heap_def unat_bump_used)
    (simp add: bump_def fits_def heap_new[where n = 16])

lemma bump_heap_event:
  "span_heap m0 s T \<Longrightarrow> fits s 24 \<Longrightarrow>
   span_heap m0 (bump s 24) (T(unat (sp_arena_used s) \<mapsto>
     BEvent (event_at (sp_arena s) (unat (sp_arena_used s)))))"
  by (simp add: span_heap_def unat_bump_used)
    (simp add: bump_def fits_def heap_new[where n = 24])

lemma put_at_heap:
  assumes "span_heap m0 s T" and "fits s (Suc (length c))"
  shows "span_heap m0 (put_at s c) (T(unat (sp_arena_used s) \<mapsto> BStr c))"
proof -
  let ?u = "unat (sp_arena_used s)" and ?m = "sp_arena s"
  have "heap_ok m0 (mem_write ?m ?u (c @ [0])) (T(?u \<mapsto> BStr c)) (?u + round8 (Suc (length c)))"
  proof (rule heap_new)
    show "heap_ok m0 ?m T ?u"
      using assms(1) by (simp add: span_heap_def)
    show "?u + round8 (Suc (length c)) \<le> 4024"
      using assms(2) by (simp add: fits_def)
    then show "mem_write ?m ?u (c @ [0]) i = ?m i" if "4024 \<le> i" for i
      using that round8_ge[of "Suc (length c)"] by (simp add: mem_write_def)
  qed (simp_all add: agree_write)
  then show ?thesis
    using unat_bump_used[OF assms(2)] by (simp add: span_heap_def put_at_def)
qed

lemma mem_write_append: "mem_write (mem_write m p a) (p + length a) b = mem_write m p (a @ b)"
  by (auto simp: mem_write_def nth_append fun_eq_iff)

lemma putn_eq:
  assumes "span_heap m0 s T" and "unat len \<le> length bs" and "length bs < 2 ^ 62"
  shows "otel_arena_putn s (Some bs) len =
    (if fits s (Suc (unat len)) then (put_at s (take (unat len) bs), sp_arena_used s)
     else (s, OTEL_NIL))"
proof -
  have l: "len + 1 = of_nat (Suc (unat len))"
    by (simp add: add.commute)
  have "otel_arena_alloc s (len + 1) =
    (if fits s (Suc (unat len)) then (bump s (Suc (unat len)), sp_arena_used s) else (s, OTEL_NIL))"
    unfolding l using assms by (intro alloc_eq[OF assms(1)]) simp
  moreover have "store8 (mem_write m p (take (unat len) bs)) (p + unat len) 0 =
      mem_write m p (take (unat len) bs @ [0])" for m p
    using mem_write_append[of m p "take (unat len) bs" "[0]"] assms(2) by (simp add: store8_def)
  ultimately show ?thesis
    using assms(2) span_heap_used(3)[OF assms(1)]
    by (simp add: otel_arena_putn_def put_at_def bump_def Let_def)
qed

lemma put_eq:
  assumes "span_heap m0 s T" and "length bs < 2 ^ 62"
  shows "otel_arena_put s (Some bs) =
    (if fits s (Suc (length (c_str bs))) then (put_at s (c_str bs), sp_arena_used s)
     else (s, OTEL_NIL))"
proof -
  have "length (c_str bs) < 2 ^ LENGTH(64)"
    using assms(2) length_c_str_le[of bs] by simp
  then have l: "unat (of_nat (length (c_str bs)) :: u64) = length (c_str bs)"
    by (rule unat_of_nat_small)
  have "take (length (c_str bs)) bs = c_str bs"
    by (simp add: c_str_def takeWhile_eq_take[symmetric])
  then show ?thesis
    using putn_eq[OF assms(1), of "of_nat (length (c_str bs))" bs] assms(2) length_c_str_le[of bs]
    by (simp add: otel_arena_put_def l)
qed

lemma put_None [simp]: "otel_arena_put s None = (s, OTEL_NIL)" "otel_arena_putn s None len = (s, OTEL_NIL)"
  by (simp_all add: otel_arena_put_def otel_arena_putn_def)

subsection \<open>Field stores on the typed view\<close>

lemma span_heap_at:
  assumes "span_heap m0 s T"
  shows "T p = Some (BAttr r) \<Longrightarrow> attr_at (sp_arena s) p = r"
    and "T p = Some (BEvent e) \<Longrightarrow> event_at (sp_arena s) p = e"
  using heap_okD(6)[OF assms[unfolded span_heap_def]] by fastforce+

lemma span_heap_attr_write:
  assumes "span_heap m0 s T" and "T p = Some (BAttr r)" and "k + length bs \<le> 16"
    and "attr_at (mem_write (sp_arena s) (p + k) bs) p = r'"
  shows "span_heap m0 (s\<lparr>sp_arena := mem_write (sp_arena s) (p + k) bs\<rparr>) (T(p \<mapsto> BAttr r'))"
  using heap_set_attr[OF assms(1)[unfolded span_heap_def] assms(2,3)] assms(4)
  by (simp add: span_heap_def)

lemma span_heap_event_write:
  assumes "span_heap m0 s T" and "T p = Some (BEvent r)" and "k + length bs \<le> 24"
    and "event_at (mem_write (sp_arena s) (p + k) bs) p = r'"
  shows "span_heap m0 (s\<lparr>sp_arena := mem_write (sp_arena s) (p + k) bs\<rparr>) (T(p \<mapsto> BEvent r'))"
  using heap_set_event[OF assms(1)[unfolded span_heap_def] assms(2,3)] assms(4)
  by (simp add: span_heap_def)

lemma heap_attr_stores:
  assumes "span_heap m0 s T" and "T p = Some (BAttr r)"
  shows "span_heap m0 (s\<lparr>sp_arena := store16 (sp_arena s) p v\<rparr>) (T(p \<mapsto> BAttr (r\<lparr>at_next := v\<rparr>)))"
    and "span_heap m0 (s\<lparr>sp_arena := store16 (sp_arena s) (p + 2) v\<rparr>) (T(p \<mapsto> BAttr (r\<lparr>at_key := v\<rparr>)))"
    and "span_heap m0 (s\<lparr>sp_arena := store16 (sp_arena s) (p + 4) v\<rparr>) (T(p \<mapsto> BAttr (r\<lparr>at_val := v\<rparr>)))"
    and "span_heap m0 (s\<lparr>sp_arena := store8 (sp_arena s) (p + 6) b\<rparr>) (T(p \<mapsto> BAttr (r\<lparr>at_type := b\<rparr>)))"
    and "span_heap m0 (s\<lparr>sp_arena := store64 (sp_arena s) (p + 8) w\<rparr>) (T(p \<mapsto> BAttr (r\<lparr>at_v := le_bytes 8 w\<rparr>)))"
    and "span_heap m0 (s\<lparr>sp_arena := store32 (sp_arena s) (p + 8) x\<rparr>)
           (T(p \<mapsto> BAttr (r\<lparr>at_v := le_bytes 4 x @ drop 4 (at_v r)\<rparr>)))"
  using span_heap_attr_write[OF assms, of 0 "le_bytes 2 v"]
    span_heap_attr_write[OF assms, of 2 "le_bytes 2 v"] span_heap_attr_write[OF assms, of 4 "le_bytes 2 v"]
    span_heap_attr_write[OF assms, of 6 "[b]"] span_heap_attr_write[OF assms, of 8 "le_bytes 8 w"]
    span_heap_attr_write[OF assms, of 8 "le_bytes 4 x"]
    record_stores[where p = p and m = "sp_arena s"] span_heap_at(1)[OF assms]
  by (simp_all add: store_defs)

lemma heap_event_stores:
  assumes "span_heap m0 s T" and "T p = Some (BEvent r)"
  shows "span_heap m0 (s\<lparr>sp_arena := store16 (sp_arena s) p v\<rparr>) (T(p \<mapsto> BEvent (r\<lparr>ev_next := v\<rparr>)))"
    and "span_heap m0 (s\<lparr>sp_arena := store16 (sp_arena s) (p + 2) v\<rparr>) (T(p \<mapsto> BEvent (r\<lparr>ev_name := v\<rparr>)))"
    and "span_heap m0 (s\<lparr>sp_arena := store16 (sp_arena s) (p + 4) v\<rparr>) (T(p \<mapsto> BEvent (r\<lparr>ev_attr_head := v\<rparr>)))"
    and "span_heap m0 (s\<lparr>sp_arena := store16 (sp_arena s) (p + 6) v\<rparr>) (T(p \<mapsto> BEvent (r\<lparr>ev_attr_tail := v\<rparr>)))"
    and "span_heap m0 (s\<lparr>sp_arena := store8 (sp_arena s) (p + 8) b\<rparr>) (T(p \<mapsto> BEvent (r\<lparr>ev_num_attrs := b\<rparr>)))"
    and "span_heap m0 (s\<lparr>sp_arena := store8 (sp_arena s) (p + 9) b\<rparr>) (T(p \<mapsto> BEvent (r\<lparr>ev_dropped_attrs := b\<rparr>)))"
    and "span_heap m0 (s\<lparr>sp_arena := store64 (sp_arena s) (p + 16) w\<rparr>) (T(p \<mapsto> BEvent (r\<lparr>ev_time_unix_ns := w\<rparr>)))"
  using span_heap_event_write[OF assms, of 0 "le_bytes 2 v"]
    span_heap_event_write[OF assms, of 2 "le_bytes 2 v"] span_heap_event_write[OF assms, of 4 "le_bytes 2 v"]
    span_heap_event_write[OF assms, of 6 "le_bytes 2 v"] span_heap_event_write[OF assms, of 8 "[b]"]
    span_heap_event_write[OF assms, of 9 "[b]"] span_heap_event_write[OF assms, of 16 "le_bytes 8 w"]
    record_stores[where p = p and m = "sp_arena s"] span_heap_at(2)[OF assms]
  by (simp_all add: store_defs)

lemma span_heap_fields:
  "sp_arena s' = sp_arena s \<Longrightarrow> sp_arena_used s' = sp_arena_used s \<Longrightarrow> span_heap m0 s' T = span_heap m0 s T"
  by (simp add: span_heap_def)

subsection \<open>Linked lists in the arena\<close>

definition attr_nx :: "(nat \<Rightarrow> blk option) \<Rightarrow> nat \<Rightarrow> u16 option" where
  "attr_nx T p = (case T p of Some (BAttr r) \<Rightarrow> Some (at_next r) | _ \<Rightarrow> None)"

definition event_nx :: "(nat \<Rightarrow> blk option) \<Rightarrow> nat \<Rightarrow> u16 option" where
  "event_nx T p = (case T p of Some (BEvent r) \<Rightarrow> Some (ev_next r) | _ \<Rightarrow> None)"

fun chain :: "(nat \<Rightarrow> u16 option) \<Rightarrow> u16 \<Rightarrow> nat list \<Rightarrow> bool" where
  "chain f h [] \<longleftrightarrow> h = OTEL_NIL"
| "chain f h (a # as) \<longleftrightarrow> h \<noteq> OTEL_NIL \<and> unat h = a \<and> (\<exists>n. f a = Some n \<and> chain f n as)"

definition tail_off :: "nat list \<Rightarrow> u16" where
  "tail_off as = (if as = [] then OTEL_NIL else of_nat (last as))"

lemma chain_cong: "(\<And>a. a \<in> set as \<Longrightarrow> f a = g a) \<Longrightarrow> chain f h as = chain g h as"
  by (induction as arbitrary: h) auto

lemma chain_Some: "chain f h as \<Longrightarrow> a \<in> set as \<Longrightarrow> \<exists>n. f a = Some n"
  by (induction as arbitrary: h) auto

lemma chain_snoc:
  assumes "chain f h as" and "as \<noteq> []" and "distinct as"
    and "g (last as) = Some off" and "off \<noteq> OTEL_NIL" and "g (unat off) = Some OTEL_NIL"
    and "\<And>a. a \<in> set as \<Longrightarrow> a \<noteq> last as \<Longrightarrow> g a = f a"
  shows "chain g h (as @ [unat off])"
  using assms
proof (induction as arbitrary: h)
  case Nil
  then show ?case by simp
next
  case (Cons a as)
  show ?case
  proof (cases "as = []")
    case True
    then show ?thesis using Cons.prems by auto
  next
    case False
    from Cons.prems(1) obtain n where n: "f a = Some n" "chain f n as" by auto
    have "chain g n (as @ [unat off])"
      using Cons.prems False by (intro Cons.IH n) auto
    moreover have "g a = Some n"
    proof -
      have "a \<noteq> last as"
        using Cons.prems(3) last_in_set[OF False] by auto
      then show ?thesis
        using Cons.prems(7)[of a] False n(1) by simp
    qed
    ultimately show ?thesis using Cons.prems(1) by auto
  qed
qed

lemma chain_singleton: "off \<noteq> OTEL_NIL \<Longrightarrow> g (unat off) = Some OTEL_NIL \<Longrightarrow> chain g off [unat off]"
  by simp

lemma walk_attrs_chain:
  assumes "span_heap m0 s T"
  shows "chain (attr_nx T) h as \<Longrightarrow> walk_attrs s (as_ptr h) = Some as"
proof (induction as arbitrary: h)
  case Nil
  then show ?case by (simp add: as_ptr_def walk_attrs.simps)
next
  case (Cons a as)
  then obtain n where n: "attr_nx T a = Some n" "chain (attr_nx T) n as" and h: "as_ptr h = Some a"
    by (auto simp: as_ptr_def)
  from n(1) have "otel_attr_next s a = as_ptr n"
    by (auto simp: attr_nx_def otel_attr_next_def span_heap_at[OF assms] split: option.splits blk.splits)
  with Cons.IH[OF n(2)] show ?case
    by (simp add: h walk_attrs.simps[of s "Some a"])
qed

lemma walk_events_chain:
  assumes "span_heap m0 s T"
  shows "chain (event_nx T) h es \<Longrightarrow> walk_events s (as_ptr h) = Some es"
proof (induction es arbitrary: h)
  case Nil
  then show ?case by (simp add: as_ptr_def walk_events.simps)
next
  case (Cons e es)
  then obtain n where n: "event_nx T e = Some n" "chain (event_nx T) n es" and h: "as_ptr h = Some e"
    by (auto simp: as_ptr_def)
  from n(1) have "otel_event_next s e = as_ptr n"
    by (auto simp: event_nx_def otel_event_next_def span_heap_at[OF assms] split: option.splits blk.splits)
  with Cons.IH[OF n(2)] show ?case
    by (simp add: h walk_events.simps[of s "Some e"])
qed

subsection \<open>How many records fit\<close>

lemma heap_capacity:
  assumes ok: "heap_ok m0 m T u" and P: "finite P" "\<And>p. p \<in> P \<Longrightarrow> \<exists>b. T p = Some b \<and> k \<le> blk_size b"
  shows "k * card P \<le> 4024"
proof -
  let ?I = "\<lambda>p. {p ..< p + k}"
  have disj: "?I p \<inter> ?I q = {}" if pq: "p \<in> P" "q \<in> P" "p < q" for p q
  proof -
    obtain b where b: "T p = Some b" "k \<le> blk_size b" using P(2)[OF pq(1)] by blast
    obtain c where "T q = Some c" using P(2)[OF pq(2)] by blast
    then have "p + blk_size b \<le> q"
      using ok b(1) pq(3) unfolding heap_ok_def by blast
    then show ?thesis using b(2) by auto
  qed
  have "card (\<Union>p\<in>P. ?I p) = (\<Sum>p\<in>P. card (?I p))"
    using P(1) disj by (intro card_UN_disjoint) (auto, metis disjoint_iff nat_neq_iff)
  moreover have "(\<Union>p\<in>P. ?I p) \<subseteq> {..<4024}"
    using heap_okD(2,4)[OF ok] P(2) by fastforce
  then have "card (\<Union>p\<in>P. ?I p) \<le> 4024"
    using card_mono[of "{..<4024::nat}"] by fastforce
  ultimately show ?thesis by (simp add: mult.commute)
qed

end
