(* ===== verification/Otel_Span.thy ===== *)
theory Otel_Span
  imports Otel_Heap
begin

text \<open>
  The operations on a span (\<^verbatim>\<open>oteltracing.h\<close> and the out-of-line parts in
  \<^verbatim>\<open>oteltracing.c\<close>): initialisation, attributes, events, event attributes, name and
  status.  Functions whose C name ends in an underscore carry the suffix \<open>_internal\<close> or
  \<open>_slow\<close>.  A returned \<^verbatim>\<open>struct otel_attr *\<close> or \<^verbatim>\<open>struct otel_event *\<close> is an address in
  the arena, \<open>None\<close> for the null pointer; an event handle is used with the span it came
  from.  The clock is read by the caller: \<open>now\<close> is what \<^verbatim>\<open>OT.clock()\<close> returned.
\<close>

subsection \<open>Starting a span\<close>

definition otel_span_init :: "otel_span \<Rightarrow> c_string \<Rightarrow> byte \<Rightarrow> u64 \<Rightarrow> otel_span" where
  "otel_span_init s name kind now =
     (let s = s\<lparr>sp_kind := kind, sp_status := OTEL_STATUS_UNSET, sp_status_message := OTEL_NIL,
                sp_num_attrs := 0, sp_num_events := 0, sp_dropped_attrs := 0,
                sp_dropped_events := 0, sp_end_unix_ns := 0, sp_start_unix_ns := now,
                sp_flags := OTEL_FLAG_RECORDING, sp_arena_used := 0,
                sp_attr_head := OTEL_NIL, sp_attr_tail := OTEL_NIL,
                sp_event_head := OTEL_NIL, sp_event_tail := OTEL_NIL\<rparr>;
          (s, off) = otel_arena_put s name
      in s\<lparr>sp_name := off\<rparr>)"

definition otel_span_recording :: "otel_span \<Rightarrow> bool" where
  "otel_span_recording s \<longleftrightarrow> sp_flags s AND OTEL_FLAG_RECORDING \<noteq> 0"

definition otel_span_set_name :: "otel_span \<Rightarrow> c_string \<Rightarrow> otel_span" where
  "otel_span_set_name s name =
     (if \<not> otel_span_recording s then s
      else let (s, n) = otel_arena_put s name
           in if n \<noteq> OTEL_NIL then s\<lparr>sp_name := n\<rparr> else s)"

subsection \<open>Span attributes\<close>

definition attr_init :: "mem \<Rightarrow> nat \<Rightarrow> u16 \<Rightarrow> mem" where
  "attr_init m a koff =
     (let m = store16 m a OTEL_NIL;
          m = store16 m (a + 2) koff;
          m = store16 m (a + 4) OTEL_NIL
      in store8 m (a + 6) OTEL_ATTR_STR)"

text \<open>Fill in the new record at \<open>roff\<close> and append it to the span's list.\<close>

definition span_attr_link :: "otel_span \<Rightarrow> u16 \<Rightarrow> u16 \<Rightarrow> otel_span" where
  "span_attr_link s koff roff =
     (let s = s\<lparr>sp_arena := attr_init (sp_arena s) (unat roff) koff\<rparr>;
          s = (if sp_attr_tail s = OTEL_NIL then s\<lparr>sp_attr_head := roff\<rparr>
               else s\<lparr>sp_arena := store16 (sp_arena s) (unat (sp_attr_tail s)) roff\<rparr>)
      in s\<lparr>sp_attr_tail := roff, sp_num_attrs := sp_num_attrs s + 1\<rparr>)"

definition otel_span_attr_internal :: "otel_span \<Rightarrow> c_string \<Rightarrow> otel_span \<times> nat option" where
  "otel_span_attr_internal s key =
     (if \<not> otel_span_recording s then (s, None)
      else let (s, koff) = otel_arena_put s key;
               (s, roff) = otel_arena_alloc s 16
           in if koff = OTEL_NIL \<or> roff = OTEL_NIL
              then (if sp_dropped_attrs s < 255
                    then s\<lparr>sp_dropped_attrs := sp_dropped_attrs s + 1\<rparr> else s, None)
              else (span_attr_link s koff roff, Some (unat roff)))"

text \<open>The bodies of \<^verbatim>\<open>if (a) { ... }\<close>, shared by the span and the event variants.\<close>

definition attr_fill_str :: "otel_span \<Rightarrow> nat \<Rightarrow> c_string \<Rightarrow> otel_span" where
  "attr_fill_str s a value =
     (let s = s\<lparr>sp_arena := store8 (sp_arena s) (a + 6) OTEL_ATTR_STR\<rparr>;
          (s, off) = otel_arena_put s value
      in s\<lparr>sp_arena := store16 (sp_arena s) (a + 4) off\<rparr>)"

definition attr_fill_strn :: "otel_span \<Rightarrow> nat \<Rightarrow> c_string \<Rightarrow> u64 \<Rightarrow> otel_span" where
  "attr_fill_strn s a value len =
     (let s = s\<lparr>sp_arena := store8 (sp_arena s) (a + 6) OTEL_ATTR_STR\<rparr>;
          (s, off) = otel_arena_putn s value len
      in s\<lparr>sp_arena := store16 (sp_arena s) (a + 4) off\<rparr>)"

definition attr_fill_i64 :: "otel_span \<Rightarrow> nat \<Rightarrow> u64 \<Rightarrow> otel_span" where
  "attr_fill_i64 s a value =
     (let s = s\<lparr>sp_arena := store8 (sp_arena s) (a + 6) OTEL_ATTR_I64\<rparr>
      in s\<lparr>sp_arena := store64 (sp_arena s) (a + 8) value\<rparr>)"

definition attr_fill_u64 :: "otel_span \<Rightarrow> nat \<Rightarrow> u64 \<Rightarrow> otel_span" where
  "attr_fill_u64 s a value =
     (let s = s\<lparr>sp_arena := store8 (sp_arena s) (a + 6) OTEL_ATTR_U64\<rparr>
      in s\<lparr>sp_arena := store64 (sp_arena s) (a + 8) value\<rparr>)"

definition attr_fill_bool :: "otel_span \<Rightarrow> nat \<Rightarrow> u32 \<Rightarrow> otel_span" where
  "attr_fill_bool s a value =
     (let s = s\<lparr>sp_arena := store8 (sp_arena s) (a + 6) OTEL_ATTR_BOOL\<rparr>
      in s\<lparr>sp_arena := store32 (sp_arena s) (a + 8) (if value \<noteq> 0 then 1 else 0)\<rparr>)"

definition otel_span_attr_str :: "otel_span \<Rightarrow> c_string \<Rightarrow> c_string \<Rightarrow> otel_span" where
  "otel_span_attr_str s key value =
     (case otel_span_attr_internal s key of
        (s, None) \<Rightarrow> s | (s, Some a) \<Rightarrow> attr_fill_str s a value)"

definition otel_span_attr_strn :: "otel_span \<Rightarrow> c_string \<Rightarrow> c_string \<Rightarrow> u64 \<Rightarrow> otel_span" where
  "otel_span_attr_strn s key value len =
     (case otel_span_attr_internal s key of
        (s, None) \<Rightarrow> s | (s, Some a) \<Rightarrow> attr_fill_strn s a value len)"

definition otel_span_attr_i64 :: "otel_span \<Rightarrow> c_string \<Rightarrow> u64 \<Rightarrow> otel_span" where
  "otel_span_attr_i64 s key value =
     (case otel_span_attr_internal s key of
        (s, None) \<Rightarrow> s | (s, Some a) \<Rightarrow> attr_fill_i64 s a value)"

definition otel_span_attr_u64 :: "otel_span \<Rightarrow> c_string \<Rightarrow> u64 \<Rightarrow> otel_span" where
  "otel_span_attr_u64 s key value =
     (case otel_span_attr_internal s key of
        (s, None) \<Rightarrow> s | (s, Some a) \<Rightarrow> attr_fill_u64 s a value)"

definition otel_span_attr_bool :: "otel_span \<Rightarrow> c_string \<Rightarrow> u32 \<Rightarrow> otel_span" where
  "otel_span_attr_bool s key value =
     (case otel_span_attr_internal s key of
        (s, None) \<Rightarrow> s | (s, Some a) \<Rightarrow> attr_fill_bool s a value)"

subsection \<open>Events and their attributes\<close>

definition event_init :: "mem \<Rightarrow> nat \<Rightarrow> u16 \<Rightarrow> u64 \<Rightarrow> mem" where
  "event_init m e noff now =
     (let m = store16 m e OTEL_NIL;
          m = store16 m (e + 2) noff;
          m = store16 m (e + 4) OTEL_NIL;
          m = store16 m (e + 6) OTEL_NIL;
          m = store8 m (e + 8) 0;
          m = store8 m (e + 9) 0
      in store64 m (e + 16) now)"

definition span_event_link :: "otel_span \<Rightarrow> u16 \<Rightarrow> u16 \<Rightarrow> u64 \<Rightarrow> otel_span" where
  "span_event_link s noff roff now =
     (let s = s\<lparr>sp_arena := event_init (sp_arena s) (unat roff) noff now\<rparr>;
          s = (if sp_event_tail s = OTEL_NIL then s\<lparr>sp_event_head := roff\<rparr>
               else s\<lparr>sp_arena := store16 (sp_arena s) (unat (sp_event_tail s)) roff\<rparr>)
      in s\<lparr>sp_event_tail := roff, sp_num_events := sp_num_events s + 1\<rparr>)"

definition otel_span_event_slow :: "otel_span \<Rightarrow> c_string \<Rightarrow> u64 \<Rightarrow> otel_span \<times> nat option" where
  "otel_span_event_slow s name now =
     (let (s, noff) = otel_arena_put s name;
          (s, roff) = otel_arena_alloc s 24
      in if roff = OTEL_NIL
         then (if sp_dropped_events s < 255
               then s\<lparr>sp_dropped_events := sp_dropped_events s + 1\<rparr> else s, None)
         else (span_event_link s noff roff now, Some (unat roff)))"

definition otel_span_event :: "otel_span \<Rightarrow> c_string \<Rightarrow> u64 \<Rightarrow> otel_span \<times> nat option" where
  "otel_span_event s name now =
     (if \<not> otel_span_recording s then (s, None) else otel_span_event_slow s name now)"

definition event_attr_link :: "otel_span \<Rightarrow> nat \<Rightarrow> u16 \<Rightarrow> u16 \<Rightarrow> otel_span" where
  "event_attr_link s e koff roff =
     (let s = s\<lparr>sp_arena := attr_init (sp_arena s) (unat roff) koff\<rparr>;
          tail = ev_attr_tail (event_at (sp_arena s) e);
          s = (if tail = OTEL_NIL then s\<lparr>sp_arena := store16 (sp_arena s) (e + 4) roff\<rparr>
               else s\<lparr>sp_arena := store16 (sp_arena s) (unat tail) roff\<rparr>);
          s = s\<lparr>sp_arena := store16 (sp_arena s) (e + 6) roff\<rparr>
      in s\<lparr>sp_arena := store8 (sp_arena s) (e + 8)
             (ev_num_attrs (event_at (sp_arena s) e) + 1)\<rparr>)"

definition otel_event_attr_internal ::
    "otel_span \<Rightarrow> nat option \<Rightarrow> c_string \<Rightarrow> otel_span \<times> nat option" where
  "otel_event_attr_internal s ev key =
     (case ev of
        None \<Rightarrow> (s, None)
      | Some e \<Rightarrow>
          let (s, koff) = otel_arena_put s key;
              (s, roff) = otel_arena_alloc s 16
          in if koff = OTEL_NIL \<or> roff = OTEL_NIL
             then (let r = event_at (sp_arena s) e
                   in if ev_dropped_attrs r < 255
                      then s\<lparr>sp_arena := store8 (sp_arena s) (e + 9) (ev_dropped_attrs r + 1)\<rparr>
                      else s, None)
             else (event_attr_link s e koff roff, Some (unat roff)))"

definition otel_event_attr_str :: "otel_span \<Rightarrow> nat option \<Rightarrow> c_string \<Rightarrow> c_string \<Rightarrow> otel_span" where
  "otel_event_attr_str s e key value =
     (case otel_event_attr_internal s e key of
        (s, None) \<Rightarrow> s | (s, Some a) \<Rightarrow> attr_fill_str s a value)"

definition otel_event_attr_strn ::
    "otel_span \<Rightarrow> nat option \<Rightarrow> c_string \<Rightarrow> c_string \<Rightarrow> u64 \<Rightarrow> otel_span" where
  "otel_event_attr_strn s e key value len =
     (case otel_event_attr_internal s e key of
        (s, None) \<Rightarrow> s | (s, Some a) \<Rightarrow> attr_fill_strn s a value len)"

definition otel_event_attr_i64 :: "otel_span \<Rightarrow> nat option \<Rightarrow> c_string \<Rightarrow> u64 \<Rightarrow> otel_span" where
  "otel_event_attr_i64 s e key value =
     (case otel_event_attr_internal s e key of
        (s, None) \<Rightarrow> s | (s, Some a) \<Rightarrow> attr_fill_i64 s a value)"

definition otel_event_attr_u64 :: "otel_span \<Rightarrow> nat option \<Rightarrow> c_string \<Rightarrow> u64 \<Rightarrow> otel_span" where
  "otel_event_attr_u64 s e key value =
     (case otel_event_attr_internal s e key of
        (s, None) \<Rightarrow> s | (s, Some a) \<Rightarrow> attr_fill_u64 s a value)"

definition otel_event_attr_bool :: "otel_span \<Rightarrow> nat option \<Rightarrow> c_string \<Rightarrow> u32 \<Rightarrow> otel_span" where
  "otel_event_attr_bool s e key value =
     (case otel_event_attr_internal s e key of
        (s, None) \<Rightarrow> s | (s, Some a) \<Rightarrow> attr_fill_bool s a value)"

definition otel_span_set_status :: "otel_span \<Rightarrow> byte \<Rightarrow> c_string \<Rightarrow> otel_span" where
  "otel_span_set_status s status message =
     (if \<not> otel_span_recording s then s
      else let s = s\<lparr>sp_status := status\<rparr>;
               (s, off) = otel_arena_put s message
           in s\<lparr>sp_status_message := off\<rparr>)"

subsection \<open>What a consumer reads from a span\<close>

text \<open>A consumer (the OTLP encoder or a sink) walks the lists with the accessors.  A view is
  what it sees; \<open>None\<close> stands for a list that never ends.\<close>

datatype otel_value =
  VStr "byte list" | VI64 u64 | VU64 u64 | VF64 u64 | VBool u32 | VOther byte

record event_view =
  evw_name :: "byte list"
  evw_time :: u64
  evw_attrs :: "(byte list \<times> otel_value) list"
  evw_dropped :: nat

record span_view =
  vw_name :: "byte list"
  vw_status :: byte
  vw_message :: "byte list"
  vw_attrs :: "(byte list \<times> otel_value) list"
  vw_events :: "event_view list"
  vw_dropped_attrs :: nat
  vw_dropped_events :: nat
  vw_used :: nat

definition attr_value :: "otel_span \<Rightarrow> nat \<Rightarrow> otel_value" where
  "attr_value s a =
     (let r = attr_at (sp_arena s) a
      in if at_type r = OTEL_ATTR_STR then VStr (otel_attr_strval s a)
         else if at_type r = OTEL_ATTR_I64 then VI64 (of_le (at_v r))
         else if at_type r = OTEL_ATTR_U64 then VU64 (of_le (at_v r))
         else if at_type r = OTEL_ATTR_F64 then VF64 (of_le (at_v r))
         else if at_type r = OTEL_ATTR_BOOL then VBool (of_le (take 4 (at_v r)))
         else VOther (at_type r))"

definition attr_view :: "otel_span \<Rightarrow> nat \<Rightarrow> byte list \<times> otel_value" where
  "attr_view s a = (otel_attr_key s a, attr_value s a)"

definition event_view_of :: "otel_span \<Rightarrow> nat \<Rightarrow> event_view option" where
  "event_view_of s e =
     map_option (\<lambda>as. \<lparr>evw_name = otel_event_name s e,
         evw_time = ev_time_unix_ns (event_at (sp_arena s) e),
         evw_attrs = map (attr_view s) as,
         evw_dropped = unat (ev_dropped_attrs (event_at (sp_arena s) e))\<rparr>)
       (walk_attrs s (otel_event_attr_first s e))"

definition span_view_of :: "otel_span \<Rightarrow> span_view option" where
  "span_view_of s =
     Option.bind (walk_attrs s (otel_attr_first s)) (\<lambda>as.
     Option.bind (walk_events s (otel_event_first s)) (\<lambda>es.
     map_option (\<lambda>evs. \<lparr>vw_name = otel_span_name s, vw_status = sp_status s,
         vw_message = otel_span_status_message s, vw_attrs = map (attr_view s) as,
         vw_events = evs, vw_dropped_attrs = unat (sp_dropped_attrs s),
         vw_dropped_events = unat (sp_dropped_events s), vw_used = unat (sp_arena_used s)\<rparr>)
       (those (map (event_view_of s) es))))"

end
