(* ===== verification/Otel_Span_Rep.thy ===== *)
theory Otel_Span_Rep
  imports Otel_Span
begin

text \<open>
  The representation of a recording span: which blocks of its arena are its attributes, its
  events and their attributes, and what a consumer reads from them.  \<open>span_sim m0 s T A E v\<close>
  ties the span \<open>s\<close>, the typed view \<open>T\<close> of its arena, the addresses \<open>A\<close> of its attribute
  records, the addresses \<open>E\<close> of its events with those of their attributes, and the view
  \<open>v\<close>.  Each lemma moves this relation over one primitive step of an operation.
\<close>

subsection \<open>Strings and values on the typed view\<close>

definition str_ref :: "(nat \<Rightarrow> blk option) \<Rightarrow> u16 \<Rightarrow> bool" where
  "str_ref T off \<longleftrightarrow> off = OTEL_NIL \<or> (\<exists>c. T (unat off) = Some (BStr c))"

definition str_val :: "(nat \<Rightarrow> blk option) \<Rightarrow> u16 \<Rightarrow> byte list" where
  "str_val T off =
     (if off = OTEL_NIL then []
      else case T (unat off) of Some (BStr c) \<Rightarrow> c_str c | _ \<Rightarrow> [])"

definition rec_value :: "(nat \<Rightarrow> blk option) \<Rightarrow> otel_attr \<Rightarrow> otel_value" where
  "rec_value T r =
     (if at_type r = OTEL_ATTR_STR then VStr (str_val T (at_val r))
      else if at_type r = OTEL_ATTR_I64 then VI64 (of_le (at_v r))
      else if at_type r = OTEL_ATTR_U64 then VU64 (of_le (at_v r))
      else if at_type r = OTEL_ATTR_F64 then VF64 (of_le (at_v r))
      else if at_type r = OTEL_ATTR_BOOL then VBool (of_le (take 4 (at_v r)))
      else VOther (at_type r))"

definition attr_of :: "(nat \<Rightarrow> blk option) \<Rightarrow> nat \<Rightarrow> byte list \<times> otel_value" where
  "attr_of T a = (case T a of Some (BAttr r) \<Rightarrow> (str_val T (at_key r), rec_value T r) | _ \<Rightarrow> ([], VOther 0))"

definition event_of :: "(nat \<Rightarrow> blk option) \<Rightarrow> nat \<times> nat list \<Rightarrow> event_view" where
  "event_of T x =
     (case T (fst x) of
        Some (BEvent r) \<Rightarrow> \<lparr>evw_name = str_val T (ev_name r), evw_time = ev_time_unix_ns r,
          evw_attrs = map (attr_of T) (snd x), evw_dropped = unat (ev_dropped_attrs r)\<rparr>
      | _ \<Rightarrow> \<lparr>evw_name = [], evw_time = 0, evw_attrs = [], evw_dropped = 0\<rparr>)"

definition attr_ok :: "(nat \<Rightarrow> blk option) \<Rightarrow> nat \<Rightarrow> bool" where
  "attr_ok T a \<longleftrightarrow> (\<exists>r. T a = Some (BAttr r) \<and> str_ref T (at_key r) \<and> str_ref T (at_val r))"

definition event_ok :: "(nat \<Rightarrow> blk option) \<Rightarrow> nat \<times> nat list \<Rightarrow> bool" where
  "event_ok T x \<longleftrightarrow> (\<exists>r. T (fst x) = Some (BEvent r) \<and> str_ref T (ev_name r) \<and>
     chain (attr_nx T) (ev_attr_head r) (snd x) \<and> ev_attr_tail r = tail_off (snd x) \<and>
     unat (ev_num_attrs r) = length (snd x) \<and> (\<forall>a\<in>set (snd x). attr_ok T a))"

definition all_attrs :: "nat list \<Rightarrow> (nat \<times> nat list) list \<Rightarrow> nat list" where
  "all_attrs A E = A @ concat (map snd E)"

definition span_rep :: "otel_span \<Rightarrow> (nat \<Rightarrow> blk option) \<Rightarrow> nat list \<Rightarrow> (nat \<times> nat list) list \<Rightarrow> bool" where
  "span_rep s T A E \<longleftrightarrow>
     str_ref T (sp_name s) \<and> str_ref T (sp_status_message s) \<and>
     chain (attr_nx T) (sp_attr_head s) A \<and> sp_attr_tail s = tail_off A \<and>
     unat (sp_num_attrs s) = length A \<and> (\<forall>a\<in>set A. attr_ok T a) \<and>
     chain (event_nx T) (sp_event_head s) (map fst E) \<and> sp_event_tail s = tail_off (map fst E) \<and>
     unat (sp_num_events s) = length E \<and> (\<forall>x\<in>set E. event_ok T x) \<and>
     distinct (all_attrs A E) \<and> distinct (map fst E)"

definition view_of :: "otel_span \<Rightarrow> (nat \<Rightarrow> blk option) \<Rightarrow> nat list \<Rightarrow> (nat \<times> nat list) list \<Rightarrow> span_view" where
  "view_of s T A E = \<lparr>vw_name = str_val T (sp_name s), vw_status = sp_status s,
     vw_message = str_val T (sp_status_message s), vw_attrs = map (attr_of T) A,
     vw_events = map (event_of T) E, vw_dropped_attrs = unat (sp_dropped_attrs s),
     vw_dropped_events = unat (sp_dropped_events s), vw_used = unat (sp_arena_used s)\<rparr>"

definition span_sim :: "mem \<Rightarrow> otel_span \<Rightarrow> (nat \<Rightarrow> blk option) \<Rightarrow> nat list \<Rightarrow> (nat \<times> nat list) list \<Rightarrow>
    span_view \<Rightarrow> bool" where
  "span_sim m0 s T A E v \<longleftrightarrow> span_heap m0 s T \<and> span_rep s T A E \<and> view_of s T A E = v"

subsection \<open>The consumer reads the typed view\<close>

lemma strv_str_val:
  assumes "span_heap m0 s T" and "str_ref T off"
  shows "otel_span_strv s off = str_val T off"
proof (cases "off = OTEL_NIL")
  case False
  with assms(2) obtain c where c: "T (unat off) = Some (BStr c)"
    by (auto simp: str_ref_def)
  note ok = assms(1)[unfolded span_heap_def]
  have "cstr_from (sp_arena s) OTEL_SPAN_ARENA (unat off) = c_str c"
    using heap_okD(2,4,6)[OF ok] c by (intro cstr_from_read) fastforce+
  then show ?thesis
    using False c by (simp add: otel_span_strv_def str_val_def)
qed (simp add: otel_span_strv_def str_val_def)

lemma attr_view_attr_of:
  assumes "span_heap m0 s T" and "attr_ok T a"
  shows "attr_view s a = attr_of T a"
proof -
  from assms(2) obtain r where r: "T a = Some (BAttr r)" "str_ref T (at_key r)" "str_ref T (at_val r)"
    by (auto simp: attr_ok_def)
  show ?thesis
    using r span_heap_at(1)[OF assms(1) r(1)] strv_str_val[OF assms(1)]
    by (simp add: attr_view_def attr_value_def attr_of_def rec_value_def otel_attr_key_def
        otel_attr_strval_def Let_def)
qed

lemma event_view_event_of:
  assumes "span_heap m0 s T" and "event_ok T x"
  shows "event_view_of s (fst x) = Some (event_of T x)"
proof -
  from assms(2) obtain r where r: "T (fst x) = Some (BEvent r)" "str_ref T (ev_name r)"
      "chain (attr_nx T) (ev_attr_head r) (snd x)" "\<forall>a\<in>set (snd x). attr_ok T a"
    by (auto simp: event_ok_def)
  have "walk_attrs s (otel_event_attr_first s (fst x)) = Some (snd x)"
    using walk_attrs_chain[OF assms(1) r(3)] span_heap_at(2)[OF assms(1) r(1)]
    by (simp add: otel_event_attr_first_def)
  moreover have "map (attr_view s) (snd x) = map (attr_of T) (snd x)"
    using r(4) attr_view_attr_of[OF assms(1)] by simp
  ultimately show ?thesis
    using r(1,2) span_heap_at(2)[OF assms(1) r(1)] strv_str_val[OF assms(1)]
    by (simp add: event_view_of_def event_of_def otel_event_name_def)
qed

lemma those_map_Some: "(\<And>x. x \<in> set xs \<Longrightarrow> f x = Some (g x)) \<Longrightarrow> those (map f xs) = Some (map g xs)"
  by (induction xs) auto

lemma span_rep_walks:
  assumes "span_heap m0 s T" and "span_rep s T A E"
  shows "walk_attrs s (otel_attr_first s) = Some A"
    and "walk_events s (otel_event_first s) = Some (map fst E)"
    and "x \<in> set E \<Longrightarrow> walk_attrs s (otel_event_attr_first s (fst x)) = Some (snd x)"
proof -
  show "walk_attrs s (otel_attr_first s) = Some A"
    "walk_events s (otel_event_first s) = Some (map fst E)"
    using assms(2) walk_attrs_chain[OF assms(1)] walk_events_chain[OF assms(1)]
    by (auto simp: span_rep_def otel_attr_first_def otel_event_first_def)
  assume "x \<in> set E"
  with assms(2) obtain r where "T (fst x) = Some (BEvent r)" "chain (attr_nx T) (ev_attr_head r) (snd x)"
    by (auto simp: span_rep_def event_ok_def)
  then show "walk_attrs s (otel_event_attr_first s (fst x)) = Some (snd x)"
    using walk_attrs_chain[OF assms(1)] span_heap_at(2)[OF assms(1)]
    by (simp add: otel_event_attr_first_def)
qed

lemma span_sim_view: "span_sim m0 s T A E v \<Longrightarrow> span_view_of s = Some v"
proof -
  assume sim: "span_sim m0 s T A E v"
  then have heap: "span_heap m0 s T" and rep: "span_rep s T A E" and v: "view_of s T A E = v"
    by (auto simp: span_sim_def)
  have "those (map (event_view_of s) (map fst E)) = Some (map (event_of T) E)"
    unfolding map_map using event_view_event_of[OF heap] rep
    by (intro those_map_Some) (auto simp: span_rep_def)
  moreover have "map (attr_view s) A = map (attr_of T) A"
    using attr_view_attr_of[OF heap] rep by (auto simp: span_rep_def)
  ultimately show ?thesis
    using span_rep_walks[OF heap rep] v strv_str_val[OF heap] rep
    by (simp add: span_view_of_def view_of_def span_rep_def otel_span_name_def
        otel_span_status_message_def del: map_eq_conv map_map)
qed

subsection \<open>Frame: blocks outside the lists\<close>

text \<open>\<open>keeps T T' X\<close>: every block of \<open>T\<close> outside \<open>X\<close> is unchanged in \<open>T'\<close>, and no block in
  \<open>X\<close> is a string.\<close>

definition keeps :: "(nat \<Rightarrow> blk option) \<Rightarrow> (nat \<Rightarrow> blk option) \<Rightarrow> nat set \<Rightarrow> bool" where
  "keeps T T' X \<longleftrightarrow> (\<forall>p b. T p = Some b \<and> p \<notin> X \<longrightarrow> T' p = Some b) \<and>
     (\<forall>p\<in>X. \<forall>c. T p \<noteq> Some (BStr c))"

lemma keeps_str: "keeps T T' X \<Longrightarrow> str_ref T off \<Longrightarrow> str_ref T' off \<and> str_val T' off = str_val T off"
  unfolding keeps_def str_ref_def str_val_def by (metis option.simps(5) blk.simps(10))

lemma keeps_attr:
  assumes "keeps T T' X" and "attr_ok T a" and "a \<notin> X"
  shows "attr_ok T' a" "attr_of T' a = attr_of T a" "attr_nx T' a = attr_nx T a"
proof -
  from assms(2) obtain r where r: "T a = Some (BAttr r)" "str_ref T (at_key r)" "str_ref T (at_val r)"
    by (auto simp: attr_ok_def)
  with assms(1,3) have "T' a = Some (BAttr r)"
    by (auto simp: keeps_def)
  with r keeps_str[OF assms(1) r(2)] keeps_str[OF assms(1) r(3)]
  show "attr_ok T' a" "attr_of T' a = attr_of T a" "attr_nx T' a = attr_nx T a"
    by (auto simp: attr_ok_def attr_of_def attr_nx_def rec_value_def)
qed

lemma keeps_event:
  assumes "keeps T T' X" and "event_ok T x" and "fst x \<notin> X" and "set (snd x) \<inter> X = {}"
  shows "event_ok T' x" "event_of T' x = event_of T x" "event_nx T' (fst x) = event_nx T (fst x)"
proof -
  from assms(2) obtain r where r: "T (fst x) = Some (BEvent r)" "str_ref T (ev_name r)"
    and ch: "chain (attr_nx T) (ev_attr_head r) (snd x)" "ev_attr_tail r = tail_off (snd x)"
      "unat (ev_num_attrs r) = length (snd x)"
    and at: "\<forall>a\<in>set (snd x). attr_ok T a"
    by (auto simp: event_ok_def)
  from r(1) assms(1,3) have r': "T' (fst x) = Some (BEvent r)"
    by (auto simp: keeps_def)
  have a: "attr_ok T' a" "attr_of T' a = attr_of T a" "attr_nx T' a = attr_nx T a" if "a \<in> set (snd x)" for a
    using keeps_attr[OF assms(1)] at assms(4) that by blast+
  have "chain (attr_nx T') (ev_attr_head r) (snd x)"
    using ch(1) a(3) chain_cong[of "snd x" "attr_nx T'" "attr_nx T"] by simp
  then show "event_ok T' x" "event_of T' x = event_of T x" "event_nx T' (fst x) = event_nx T (fst x)"
    using r r' ch a keeps_str[OF assms(1) r(2)]
    by (auto simp: event_ok_def event_of_def event_nx_def)
qed

definition same_lists :: "otel_span \<Rightarrow> otel_span \<Rightarrow> bool" where
  "same_lists s s' \<longleftrightarrow> sp_attr_head s' = sp_attr_head s \<and> sp_attr_tail s' = sp_attr_tail s \<and>
     sp_num_attrs s' = sp_num_attrs s \<and> sp_event_head s' = sp_event_head s \<and>
     sp_event_tail s' = sp_event_tail s \<and> sp_num_events s' = sp_num_events s"

lemma attrs_keep:
  assumes "keeps T T' X" and "chain (attr_nx T) h as" and "\<forall>a\<in>set as. attr_ok T a" and "set as \<inter> X = {}"
  shows "chain (attr_nx T') h as" "\<forall>a\<in>set as. attr_ok T' a" "map (attr_of T') as = map (attr_of T) as"
proof -
  have a: "attr_ok T' a" "attr_of T' a = attr_of T a" "attr_nx T' a = attr_nx T a" if "a \<in> set as" for a
    using keeps_attr[OF assms(1)] assms(3,4) that by blast+
  then show "chain (attr_nx T') h as" "\<forall>a\<in>set as. attr_ok T' a" "map (attr_of T') as = map (attr_of T) as"
    using assms(2) chain_cong[of as "attr_nx T'" "attr_nx T"] by auto
qed

lemma events_keep:
  assumes "keeps T T' X" and "chain (event_nx T) h (map fst E)" and "\<forall>x\<in>set E. event_ok T x"
    and "fst ` set E \<inter> X = {}" and "set (concat (map snd E)) \<inter> X = {}"
  shows "chain (event_nx T') h (map fst E)" "\<forall>x\<in>set E. event_ok T' x"
    "map (event_of T') E = map (event_of T) E"
proof -
  have e: "event_ok T' x" "event_of T' x = event_of T x" "event_nx T' (fst x) = event_nx T (fst x)"
    if "x \<in> set E" for x
  proof -
    have "fst x \<notin> X" "set (snd x) \<inter> X = {}"
      using that assms(4,5) by auto
    then show "event_ok T' x" "event_of T' x = event_of T x" "event_nx T' (fst x) = event_nx T (fst x)"
      using keeps_event[OF assms(1)] assms(3) that by blast+
  qed
  then have "event_nx T' p = event_nx T p" if "p \<in> set (map fst E)" for p
    using that by auto
  then show "chain (event_nx T') h (map fst E)"
    using assms(2) chain_cong[of "map fst E" "event_nx T'" "event_nx T"] by blast
  show "\<forall>x\<in>set E. event_ok T' x" "map (event_of T') E = map (event_of T) E"
    using e by auto
qed

lemma rep_frame:
  assumes rep: "span_rep s T A E" and k: "keeps T T' X"
    and off: "set (all_attrs A E) \<inter> X = {}" "fst ` set E \<inter> X = {}"
    and same: "same_lists s s'" "str_ref T' (sp_name s')" "str_ref T' (sp_status_message s')"
  shows "span_rep s' T' A E"
    and "map (attr_of T') A = map (attr_of T) A" and "map (event_of T') E = map (event_of T) E"
proof -
  have dj: "set A \<inter> X = {}" "set (concat (map snd E)) \<inter> X = {}"
    using off(1) by (auto simp: all_attrs_def)
  have ch: "chain (attr_nx T) (sp_attr_head s) A" "\<forall>a\<in>set A. attr_ok T a"
    "chain (event_nx T) (sp_event_head s) (map fst E)" "\<forall>x\<in>set E. event_ok T x"
    using rep by (auto simp: span_rep_def)
  note A = attrs_keep[OF k ch(1,2) dj(1)] and E = events_keep[OF k ch(3,4) off(2) dj(2)]
  show "map (attr_of T') A = map (attr_of T) A" "map (event_of T') E = map (event_of T) E"
    by (rule A E)+
  show "span_rep s' T' A E"
    using rep A(1,2) E(1,2) same by (simp add: span_rep_def same_lists_def)
qed

end
