(* ===== verification/Otel_Span_Spec.thy ===== *)
theory Otel_Span_Spec
  imports Otel_Span_Rep
begin

text \<open>
  The contract of a recording span: a list of attributes, a list of events with their own
  attributes, a name, a status and a byte budget of 4024.  Every record and every string
  costs its size rounded up to eight; what does not fit is dropped and counted.  The specification
  \<open>spec_call\<close> works on views and knows nothing of offsets.
\<close>

subsection \<open>Calls on a span\<close>

datatype attr_arg =
  ArgStr c_string | ArgStrn c_string u64 | ArgI64 u64 | ArgU64 u64 | ArgBool u32

datatype span_call =
  CSetName c_string
| CSetStatus byte c_string
| CAttr c_string attr_arg
| CEvent c_string u64
| CEventAttr nat c_string attr_arg

fun span_attr_call :: "otel_span \<Rightarrow> c_string \<Rightarrow> attr_arg \<Rightarrow> otel_span" where
  "span_attr_call s key (ArgStr v) = otel_span_attr_str s key v"
| "span_attr_call s key (ArgStrn v n) = otel_span_attr_strn s key v n"
| "span_attr_call s key (ArgI64 v) = otel_span_attr_i64 s key v"
| "span_attr_call s key (ArgU64 v) = otel_span_attr_u64 s key v"
| "span_attr_call s key (ArgBool v) = otel_span_attr_bool s key v"

fun event_attr_call :: "otel_span \<Rightarrow> nat option \<Rightarrow> c_string \<Rightarrow> attr_arg \<Rightarrow> otel_span" where
  "event_attr_call s e key (ArgStr v) = otel_event_attr_str s e key v"
| "event_attr_call s e key (ArgStrn v n) = otel_event_attr_strn s e key v n"
| "event_attr_call s e key (ArgI64 v) = otel_event_attr_i64 s e key v"
| "event_attr_call s e key (ArgU64 v) = otel_event_attr_u64 s e key v"
| "event_attr_call s e key (ArgBool v) = otel_event_attr_bool s e key v"

text \<open>The client keeps the handles \<open>hs\<close> that \<^verbatim>\<open>otel_span_event\<close> returned; \<open>CEventAttr k\<close>
  uses the \<open>k\<close>-th of them.\<close>

definition nth_handle :: "'a option list \<Rightarrow> nat \<Rightarrow> 'a option" where
  "nth_handle hs k = (if k < length hs then hs ! k else None)"

fun exec_call :: "otel_span \<times> nat option list \<Rightarrow> span_call \<Rightarrow> otel_span \<times> nat option list" where
  "exec_call (s, hs) (CSetName name) = (otel_span_set_name s name, hs)"
| "exec_call (s, hs) (CSetStatus st msg) = (otel_span_set_status s st msg, hs)"
| "exec_call (s, hs) (CAttr key arg) = (span_attr_call s key arg, hs)"
| "exec_call (s, hs) (CEvent name now) = (let (s, h) = otel_span_event s name now in (s, hs @ [h]))"
| "exec_call (s, hs) (CEventAttr k key arg) = (event_attr_call s (nth_handle hs k) key arg, hs)"

subsection \<open>The specification\<close>

definition spec_reserve :: "span_view \<Rightarrow> nat \<Rightarrow> span_view \<times> bool" where
  "spec_reserve v n =
     (if vw_used v + round8 n \<le> OTEL_SPAN_ARENA
      then (v\<lparr>vw_used := vw_used v + round8 n\<rparr>, True) else (v, False))"

definition spec_put :: "span_view \<Rightarrow> byte list option \<Rightarrow> span_view \<times> bool" where
  "spec_put v str = (case str of None \<Rightarrow> (v, False) | Some c \<Rightarrow> spec_reserve v (Suc (length c)))"

fun spec_value :: "span_view \<Rightarrow> attr_arg \<Rightarrow> span_view \<times> otel_value" where
  "spec_value v (ArgStr str) =
     (let c = map_option c_str str; (v, ok) = spec_put v c in (v, VStr (if ok then the c else [])))"
| "spec_value v (ArgStrn str len) =
     (let c = map_option (take (unat len)) str; (v, ok) = spec_put v c
      in (v, VStr (if ok then c_str (the c) else [])))"
| "spec_value v (ArgI64 n) = (v, VI64 n)"
| "spec_value v (ArgU64 n) = (v, VU64 n)"
| "spec_value v (ArgBool b) = (v, VBool (if b \<noteq> 0 then 1 else 0))"

text \<open>Where an attribute goes: the span's own list or that of its \<open>i\<close>-th event.\<close>

datatype attr_place = OfSpan | OfEvent nat

fun place_upd :: "attr_place \<Rightarrow> ((byte list \<times> otel_value) list \<Rightarrow> (byte list \<times> otel_value) list) \<Rightarrow>
    span_view \<Rightarrow> span_view" where
  "place_upd OfSpan f v = v\<lparr>vw_attrs := f (vw_attrs v)\<rparr>"
| "place_upd (OfEvent i) f v = v\<lparr>vw_events := (vw_events v)[i :=
     (vw_events v ! i)\<lparr>evw_attrs := f (evw_attrs (vw_events v ! i))\<rparr>]\<rparr>"

definition count_drop :: "nat \<Rightarrow> nat" where
  "count_drop n = (if n < 255 then n + 1 else n)"

fun place_drop :: "attr_place \<Rightarrow> span_view \<Rightarrow> span_view" where
  "place_drop OfSpan v = v\<lparr>vw_dropped_attrs := count_drop (vw_dropped_attrs v)\<rparr>"
| "place_drop (OfEvent i) v = v\<lparr>vw_events := (vw_events v)[i :=
     (vw_events v ! i)\<lparr>evw_dropped := count_drop (evw_dropped (vw_events v ! i))\<rparr>]\<rparr>"

definition spec_attr :: "attr_place \<Rightarrow> span_view \<Rightarrow> c_string \<Rightarrow> attr_arg \<Rightarrow> span_view" where
  "spec_attr pl v key arg =
     (let (v, k) = spec_put v (map_option c_str key);
          (v, r) = spec_reserve v 16
      in if k \<and> r
         then let (v, x) = spec_value v arg
              in place_upd pl (\<lambda>xs. xs @ [(c_str (the key), x)]) v
         else place_drop pl v)"

definition spec_event :: "span_view \<Rightarrow> c_string \<Rightarrow> u64 \<Rightarrow> span_view \<times> nat option" where
  "spec_event v name now =
     (let (v, k) = spec_put v (map_option c_str name);
          (v, r) = spec_reserve v 24
      in if r
         then (v\<lparr>vw_events := vw_events v @ [\<lparr>evw_name = (if k then c_str (the name) else []),
                 evw_time = now, evw_attrs = [], evw_dropped = 0\<rparr>]\<rparr>, Some (length (vw_events v)))
         else (v\<lparr>vw_dropped_events := count_drop (vw_dropped_events v)\<rparr>, None))"

fun spec_call :: "span_view \<times> nat option list \<Rightarrow> span_call \<Rightarrow> span_view \<times> nat option list" where
  "spec_call (v, hs) (CSetName name) =
     (let (v, ok) = spec_put v (map_option c_str name)
      in (if ok then v\<lparr>vw_name := c_str (the name)\<rparr> else v, hs))"
| "spec_call (v, hs) (CSetStatus st msg) =
     (let (v, ok) = spec_put v (map_option c_str msg)
      in (v\<lparr>vw_status := st, vw_message := (if ok then c_str (the msg) else [])\<rparr>, hs))"
| "spec_call (v, hs) (CAttr key arg) = (spec_attr OfSpan v key arg, hs)"
| "spec_call (v, hs) (CEvent name now) = (let (v, h) = spec_event v name now in (v, hs @ [h]))"
| "spec_call (v, hs) (CEventAttr k key arg) =
     (case nth_handle hs k of None \<Rightarrow> (v, hs) | Some i \<Rightarrow> (spec_attr (OfEvent i) v key arg, hs))"

definition spec_init :: "c_string \<Rightarrow> span_view" where
  "spec_init name =
     (let v = \<lparr>vw_name = [], vw_status = OTEL_STATUS_UNSET, vw_message = [], vw_attrs = [],
               vw_events = [], vw_dropped_attrs = 0, vw_dropped_events = 0, vw_used = 0\<rparr>;
          (v, ok) = spec_put v (map_option c_str name)
      in v\<lparr>vw_name := (if ok then c_str (the name) else [])\<rparr>)"

text \<open>Arguments a C caller can pass: objects are shorter than \<open>2 ^ 62\<close> bytes, and a value of
  explicit length has that many bytes.\<close>

definition str_arg_ok :: "c_string \<Rightarrow> bool" where
  "str_arg_ok str = (case str of None \<Rightarrow> True | Some bs \<Rightarrow> length bs < 2 ^ 62)"

fun arg_ok :: "attr_arg \<Rightarrow> bool" where
  "arg_ok (ArgStr str) = str_arg_ok str"
| "arg_ok (ArgStrn str len) =
     (str_arg_ok str \<and> (case str of None \<Rightarrow> True | Some bs \<Rightarrow> unat len \<le> length bs))"
| "arg_ok _ = True"

fun call_ok :: "span_call \<Rightarrow> bool" where
  "call_ok (CSetName name) = str_arg_ok name"
| "call_ok (CSetStatus st msg) = str_arg_ok msg"
| "call_ok (CAttr key arg) = (str_arg_ok key \<and> arg_ok arg)"
| "call_ok (CEvent name now) = str_arg_ok name"
| "call_ok (CEventAttr k key arg) = (str_arg_ok key \<and> arg_ok arg)"

end
