(* ===== verification/Otel_Span_Refine.thy ===== *)
theory Otel_Span_Refine
  imports Otel_Span_Spec
begin

text \<open>
  The span operations implement the specification.  The lemmas follow the code: string
  copies and allocations, linking a new record, filling in its value, then whole calls and
  runs of calls.
\<close>

subsection \<open>Fields the arena operations leave alone\<close>

definition same_core :: "otel_span \<Rightarrow> otel_span \<Rightarrow> bool" where
  "same_core s s' \<longleftrightarrow> (\<exists>m u. s' = s\<lparr>sp_arena := m, sp_arena_used := u\<rparr>)"

lemma same_core_fields:
  assumes "same_core s s'"
  shows "sp_name s' = sp_name s" "sp_status_message s' = sp_status_message s" "sp_flags s' = sp_flags s"
    "sp_status s' = sp_status s" "sp_dropped_attrs s' = sp_dropped_attrs s"
    "sp_dropped_events s' = sp_dropped_events s" "same_lists s s'"
    "sp_trace_id s' = sp_trace_id s" "sp_span_id s' = sp_span_id s" "sp_parent_id s' = sp_parent_id s"
    "sp_start_unix_ns s' = sp_start_unix_ns s" "sp_end_unix_ns s' = sp_end_unix_ns s" "sp_kind s' = sp_kind s"
  using assms by (auto simp: same_core_def same_lists_def)

lemma same_coreI: "s' = s\<lparr>sp_arena := m, sp_arena_used := u\<rparr> \<Longrightarrow> same_core s s'"
  by (auto simp: same_core_def)

lemma same_core_refl [simp]: "same_core s s"
  by (rule same_coreI[where m = "sp_arena s" and u = "sp_arena_used s"]) simp

lemma same_core_trans: "same_core a b \<Longrightarrow> same_core b c \<Longrightarrow> same_core a c"
  unfolding same_core_def by force

lemma same_core_arena [simp]: "same_core s (s\<lparr>sp_arena := m\<rparr>)"
  by (rule same_coreI[where m = m and u = "sp_arena_used s"]) simp

lemma same_core_bump [simp]: "same_core s (bump s n)"
  unfolding bump_def
  by (rule same_coreI[where m = "sp_arena s" and u = "of_nat (unat (sp_arena_used s) + round8 n)"]) simp

lemma same_core_put_at [simp]: "same_core s (put_at s c)"
  unfolding put_at_def using same_core_bump same_core_arena by (rule same_core_trans)

subsection \<open>String copies and allocations\<close>

lemma span_simD:
  assumes "span_sim m0 s T A E v"
  shows "span_heap m0 s T" "span_rep s T A E" "view_of s T A E = v" "vw_used v = unat (sp_arena_used s)"
  using assms by (auto simp: span_sim_def view_of_def)

lemma keeps_fresh: "span_heap m0 s T \<Longrightarrow> keeps T (T(unat (sp_arena_used s) \<mapsto> b)) {}"
  using heap_fresh[of m0 "sp_arena s" T] by (auto simp: keeps_def span_heap_def)

lemma keeps_refl [simp]: "keeps T T {}"
  by (simp add: keeps_def)

lemma sim_core:
  assumes sim: "span_sim m0 s T A E v" and heap: "span_heap m0 s' T'" and k: "keeps T T' {}"
    and core: "same_core s s'"
  shows "span_sim m0 s' T' A E (v\<lparr>vw_used := unat (sp_arena_used s')\<rparr>)"
proof -
  note rep = span_simD(2)[OF sim] and f = same_core_fields[OF core]
  have names: "str_ref T (sp_name s)" "str_ref T (sp_status_message s)"
    using rep by (auto simp: span_rep_def)
  note n = keeps_str[OF k names(1)] keeps_str[OF k names(2)]
  have "span_rep s' T' A E" "map (attr_of T') A = map (attr_of T) A"
    "map (event_of T') E = map (event_of T) E"
    using rep_frame[OF rep k _ _ f(7)] n f(1,2) by auto
  then show ?thesis
    using heap n f span_simD(3)[OF sim] unfolding span_sim_def view_of_def by auto
qed

lemma sim_bump:
  assumes "span_sim m0 s T A E v" and "fits s n"
  shows "span_sim m0 (bump s n) T A E (v\<lparr>vw_used := vw_used v + round8 n\<rparr>)"
  using sim_core[OF assms(1) bump_heap[OF span_simD(1)[OF assms(1)] assms(2)]]
    unat_bump_used[OF assms(2)] span_simD(4)[OF assms(1)] by simp

lemma sim_put_at:
  assumes "span_sim m0 s T A E v" and "fits s (Suc (length c))"
  shows "span_sim m0 (put_at s c) (T(unat (sp_arena_used s) \<mapsto> BStr c)) A E
    (v\<lparr>vw_used := vw_used v + round8 (Suc (length c))\<rparr>)"
proof -
  have "sp_arena_used (put_at s c) = sp_arena_used (bump s (Suc (length c)))"
    by (simp add: put_at_def)
  then show ?thesis
    using sim_core[OF assms(1) put_at_heap[OF span_simD(1)[OF assms(1)] assms(2)]
        keeps_fresh[OF span_simD(1)[OF assms(1)]]]
      unat_bump_used[OF assms(2)] span_simD(4)[OF assms(1)] by simp
qed

lemma fits_spec: "span_sim m0 s T A E v \<Longrightarrow> fits s n \<longleftrightarrow> vw_used v + round8 n \<le> OTEL_SPAN_ARENA"
  using span_simD(4) by (fastforce simp: fits_def)

lemma alloc_sim:
  assumes sim: "span_sim m0 s T A E v" and n: "n < 2 ^ 63"
    and run: "otel_arena_alloc s (of_nat n) = (s', off)" and spec: "spec_reserve v n = (v', r)"
  shows "span_sim m0 s' T A E v'" "off \<noteq> OTEL_NIL \<longleftrightarrow> r" "same_core s s'"
    and "r \<Longrightarrow> fits s n \<and> s' = bump s n \<and> off = sp_arena_used s"
  using alloc_eq[OF span_simD(1)[OF sim] n] run spec sim_bump[OF sim] sim
    span_heap_used(3)[OF span_simD(1)[OF sim]] fits_spec[OF sim, of n]
  by (auto simp: spec_reserve_def split: if_splits)

text \<open>What a string copy does: \<open>c\<close> are the bytes copied.\<close>

definition put_post :: "mem \<Rightarrow> otel_span \<Rightarrow> (nat \<Rightarrow> blk option) \<Rightarrow> nat list \<Rightarrow> (nat \<times> nat list) list \<Rightarrow>
    otel_span \<Rightarrow> u16 \<Rightarrow> span_view \<Rightarrow> bool \<Rightarrow> byte list option \<Rightarrow> (nat \<Rightarrow> blk option) \<Rightarrow> bool" where
  "put_post m0 s T A E s' off v' ok c T' \<longleftrightarrow>
     span_sim m0 s' T' A E v' \<and> keeps T T' {} \<and> (off \<noteq> OTEL_NIL \<longleftrightarrow> ok) \<and> str_ref T' off \<and>
     str_val T' off = (if ok then c_str (the c) else []) \<and> same_core s s'"

lemma put_content_sim:
  assumes sim: "span_sim m0 s T A E v"
    and run: "(s', off) = (if fits s (Suc (length c)) then (put_at s c, sp_arena_used s) else (s, OTEL_NIL))"
    and spec: "spec_put v (Some c) = (v', ok)"
  shows "\<exists>T'. put_post m0 s T A E s' off v' ok (Some c) T'"
proof (cases "fits s (Suc (length c))")
  case True
  note nn = span_heap_used(3)[OF span_simD(1)[OF sim]]
  have "put_post m0 s T A E s' off v' ok (Some c) (T(unat (sp_arena_used s) \<mapsto> BStr c))"
    using True run spec fits_spec[OF sim] sim_put_at[OF sim True] nn keeps_fresh[OF span_simD(1)[OF sim]]
    by (auto simp: put_post_def spec_put_def spec_reserve_def str_ref_def str_val_def)
  then show ?thesis by blast
next
  case False
  have "put_post m0 s T A E s' off v' ok (Some c) T"
    using False run spec fits_spec[OF sim] sim
    by (auto simp: put_post_def spec_put_def spec_reserve_def str_ref_def str_val_def)
  then show ?thesis by blast
qed

lemma put_none_sim:
  assumes "span_sim m0 s T A E v" and "(s', off) = (s, OTEL_NIL)" and "spec_put v None = (v', ok)"
  shows "\<exists>T'. put_post m0 s T A E s' off v' ok None T'"
  using assms by (intro exI[of _ T]) (auto simp: put_post_def spec_put_def str_ref_def str_val_def)

lemma put_sim:
  assumes sim: "span_sim m0 s T A E v" and ok: "str_arg_ok str"
    and run: "otel_arena_put s str = (s', off)" and spec: "spec_put v (map_option c_str str) = (v', b)"
  obtains T' where "put_post m0 s T A E s' off v' b (map_option c_str str) T'"
proof (cases str)
  case None
  then show ?thesis
    using put_none_sim[OF sim, of s' off v' b] run spec that by auto
next
  case (Some bs)
  then have "(s', off) = (if fits s (Suc (length (c_str bs))) then (put_at s (c_str bs), sp_arena_used s)
      else (s, OTEL_NIL))"
    using put_eq[OF span_simD(1)[OF sim], of bs] ok run by (simp add: str_arg_ok_def)
  from put_content_sim[OF sim this] show ?thesis
    using spec that Some by auto
qed

lemma putn_sim:
  assumes sim: "span_sim m0 s T A E v" and ok: "arg_ok (ArgStrn str len)"
    and run: "otel_arena_putn s str len = (s', off)"
    and spec: "spec_put v (map_option (take (unat len)) str) = (v', b)"
  obtains T' where "put_post m0 s T A E s' off v' b (map_option (take (unat len)) str) T'"
proof (cases str)
  case None
  then show ?thesis
    using put_none_sim[OF sim, of s' off v' b] run spec that by auto
next
  case (Some bs)
  then have "length (take (unat len) bs) = unat len"
    using ok by simp
  then have "(s', off) = (if fits s (Suc (length (take (unat len) bs)))
      then (put_at s (take (unat len) bs), sp_arena_used s) else (s, OTEL_NIL))"
    using putn_eq[OF span_simD(1)[OF sim], of len bs] ok run Some by (simp add: str_arg_ok_def)
  from put_content_sim[OF sim this] show ?thesis
    using spec that Some by auto
qed

subsection \<open>Linking a record into a list\<close>

definition fresh_attr :: "u16 \<Rightarrow> byte list \<Rightarrow> otel_attr" where
  "fresh_attr koff raw = \<lparr>at_next = OTEL_NIL, at_key = koff, at_val = OTEL_NIL, at_type = OTEL_ATTR_STR,
     at_v = raw\<rparr>"

definition fresh_event :: "u16 \<Rightarrow> u64 \<Rightarrow> otel_event" where
  "fresh_event noff now = \<lparr>ev_next = OTEL_NIL, ev_name = noff, ev_attr_head = OTEL_NIL,
     ev_attr_tail = OTEL_NIL, ev_num_attrs = 0, ev_dropped_attrs = 0, ev_time_unix_ns = now\<rparr>"

lemma attr_init_heap:
  assumes "span_heap m0 s T" and "T a = Some (BAttr r)"
  shows "span_heap m0 (s\<lparr>sp_arena := attr_init (sp_arena s) a koff\<rparr>)
    (T(a \<mapsto> BAttr (fresh_attr koff (at_v r))))"
proof -
  note 1 = heap_attr_stores(1)[OF assms, where v = OTEL_NIL]
  note 2 = heap_attr_stores(2)[OF 1 fun_upd_same, where v = koff]
  note 3 = heap_attr_stores(3)[OF 2 fun_upd_same, where v = OTEL_NIL]
  note 4 = heap_attr_stores(4)[OF 3 fun_upd_same, where b = OTEL_ATTR_STR]
  show ?thesis
    using 4 by (cases r) (simp add: attr_init_def fresh_attr_def Let_def fun_upd_def cong: if_cong)
qed

lemma event_init_heap:
  assumes "span_heap m0 s T" and "T e = Some (BEvent r)"
  shows "span_heap m0 (s\<lparr>sp_arena := event_init (sp_arena s) e noff now\<rparr>)
    (T(e \<mapsto> BEvent (fresh_event noff now)))"
proof -
  note 1 = heap_event_stores(1)[OF assms, where v = OTEL_NIL]
  note 2 = heap_event_stores(2)[OF 1 fun_upd_same, where v = noff]
  note 3 = heap_event_stores(3)[OF 2 fun_upd_same, where v = OTEL_NIL]
  note 4 = heap_event_stores(4)[OF 3 fun_upd_same, where v = OTEL_NIL]
  note 5 = heap_event_stores(5)[OF 4 fun_upd_same, where b = 0]
  note 6 = heap_event_stores(6)[OF 5 fun_upd_same, where b = 0]
  note 7 = heap_event_stores(7)[OF 6 fun_upd_same, where w = now]
  show ?thesis
    using 7 by (cases r) (simp add: event_init_def fresh_event_def Let_def fun_upd_def cong: if_cong)
qed

definition set_next :: "blk \<Rightarrow> u16 \<Rightarrow> blk" where
  "set_next b off = (case b of BStr c \<Rightarrow> BStr c | BAttr r \<Rightarrow> BAttr (r\<lparr>at_next := off\<rparr>)
     | BEvent r \<Rightarrow> BEvent (r\<lparr>ev_next := off\<rparr>))"

definition link_next :: "(nat \<Rightarrow> blk option) \<Rightarrow> nat list \<Rightarrow> u16 \<Rightarrow> (nat \<Rightarrow> blk option)" where
  "link_next T as off = (if as = [] then T
     else T(last as := map_option (\<lambda>b. set_next b off) (T (last as))))"

lemma link_next_heap:
  assumes "span_heap m0 s T" and "as \<noteq> []" and "T (last as) = Some b" and "\<And>c. b \<noteq> BStr c"
  shows "span_heap m0 (s\<lparr>sp_arena := store16 (sp_arena s) (last as) off\<rparr>) (link_next T as off)"
  using assms heap_attr_stores(1)[OF assms(1), of "last as"] heap_event_stores(1)[OF assms(1), of "last as"]
  by (cases b) (auto simp: link_next_def set_next_def)

definition tail_set :: "nat list \<Rightarrow> nat set" where
  "tail_set as = (if as = [] then {} else {last as})"

lemma tail_set_sub: "tail_set as \<subseteq> set as"
  by (simp add: tail_set_def)

lemma link_keeps:
  assumes "T n = None" and "T2 = T(n \<mapsto> b)" and "\<And>a c. a \<in> set as \<Longrightarrow> T a \<noteq> Some (BStr c)"
  shows "keeps T (link_next T2 as off) (tail_set as)"
  using assms by (auto simp: keeps_def link_next_def tail_set_def)

text \<open>Appending a fresh attribute record to a list of attributes.\<close>

lemma append_attr:
  fixes raw :: "byte list"
  assumes ch: "chain (attr_nx T) h as" and ok: "\<forall>x\<in>set as. attr_ok T x" and dist: "distinct as"
    and new: "T (unat off) = None" and off: "off \<noteq> OTEL_NIL" and key: "str_ref T koff"
  defines "T3 \<equiv> link_next (T(unat off \<mapsto> BAttr (fresh_attr koff raw))) as off"
  shows "chain (attr_nx T3) (if as = [] then off else h) (as @ [unat off])"
    and "\<forall>x\<in>set (as @ [unat off]). attr_ok T3 x"
    and "map (attr_of T3) (as @ [unat off]) = map (attr_of T) as @ [(str_val T koff, VStr [])]"
    and "keeps T T3 (tail_set as)" and "T3 (unat off) = Some (BAttr (fresh_attr koff raw))"
proof -
  have no_str: "T a \<noteq> Some (BStr c)" if "a \<in> set as" for a c
    using ok that by (auto simp: attr_ok_def)
  show k: "keeps T T3 (tail_set as)"
    unfolding T3_def by (rule link_keeps[where n = "unat off"]) (use new no_str in simp_all)
  have fresh: "unat off \<notin> set as"
    using ok new by (auto simp: attr_ok_def)
  have T3n: "T3 (unat off) = Some (BAttr (fresh_attr koff raw))"
    using fresh last_in_set[of as] by (auto simp: T3_def link_next_def)
  then show "T3 (unat off) = Some (BAttr (fresh_attr koff raw))" .
  have nilref: "str_ref T3 OTEL_NIL"
    by (simp add: str_ref_def)
  have newok: "attr_ok T3 (unat off)" "attr_of T3 (unat off) = (str_val T koff, VStr [])"
    using T3n keeps_str[OF k key] nilref
    by (auto simp: attr_ok_def attr_of_def fresh_attr_def rec_value_def str_val_def)
  have old: "attr_ok T3 a \<and> attr_of T3 a = attr_of T a" if a: "a \<in> set as" for a
  proof (cases "a \<in> tail_set as")
    case False
    then show ?thesis using keeps_attr[OF k] ok a by blast
  next
    case True
    then have la: "a = last as" "as \<noteq> []"
      by (auto simp: tail_set_def split: if_splits)
    from ok a obtain r where r: "T a = Some (BAttr r)" "str_ref T (at_key r)" "str_ref T (at_val r)"
      by (auto simp: attr_ok_def)
    have "unat off \<noteq> last as"
      using fresh a la by auto
    then have "T3 a = Some (BAttr (r\<lparr>at_next := off\<rparr>))"
      using r(1) la by (auto simp: T3_def link_next_def set_next_def)
    then show ?thesis
      using r keeps_str[OF k r(2)] keeps_str[OF k r(3)]
      by (auto simp: attr_ok_def attr_of_def rec_value_def)
  qed
  then show "\<forall>x\<in>set (as @ [unat off]). attr_ok T3 x"
    "map (attr_of T3) (as @ [unat off]) = map (attr_of T) as @ [(str_val T koff, VStr [])]"
    using newok by auto
  show "chain (attr_nx T3) (if as = [] then off else h) (as @ [unat off])"
  proof (cases "as = []")
    case True
    then show ?thesis using off T3n by (simp add: attr_nx_def fresh_attr_def)
  next
    case False
    obtain r where r: "T (last as) = Some (BAttr r)"
      using ok last_in_set[OF False] by (auto simp: attr_ok_def)
    have "chain (attr_nx T3) h (as @ [unat off])"
    proof (rule chain_snoc[OF ch False dist _ off])
      have "unat off \<noteq> last as"
        using fresh last_in_set[OF False] by auto
      then show "attr_nx T3 (last as) = Some off"
        using r False by (auto simp: attr_nx_def T3_def link_next_def set_next_def)
      show "attr_nx T3 (unat off) = Some OTEL_NIL"
        using T3n by (simp add: attr_nx_def fresh_attr_def)
      fix a assume "a \<in> set as" "a \<noteq> last as"
      then show "attr_nx T3 a = attr_nx T a"
        using keeps_attr(3)[OF k] ok by (auto simp: tail_set_def split: if_splits)
    qed
    then show ?thesis using False by simp
  qed
qed

lemma tail_off_ptr:
  assumes "span_heap m0 s T" and "\<And>a. a \<in> set as \<Longrightarrow> T a \<noteq> None"
  shows "tail_off as = OTEL_NIL \<longleftrightarrow> as = []" and "as \<noteq> [] \<Longrightarrow> unat (tail_off as) = last as"
proof -
  have small: "last as < 4024" if ne: "as \<noteq> []"
  proof -
    obtain b where "T (last as) = Some b"
      using assms(2)[OF last_in_set[OF ne]] by blast
    then show ?thesis
      using heap_okD(5)[OF assms(1)[unfolded span_heap_def]] by blast
  qed
  then show u: "unat (tail_off as) = last as" if "as \<noteq> []"
    using that by (simp add: tail_off_def unat_of_nat_small)
  show "tail_off as = OTEL_NIL \<longleftrightarrow> as = []"
  proof (cases "as = []")
    case False
    then have "unat (tail_off as) < 4024"
      using u small by simp
    then show ?thesis using False by auto
  qed (simp add: tail_off_def)
qed

subsection \<open>How many records a span can hold\<close>

lemma attrs_bound:
  assumes heap: "span_heap m0 s T" and rep: "span_rep s T A E"
  shows "16 * length (all_attrs A E) \<le> 4024"
proof -
  have "\<exists>b. T p = Some b \<and> 16 \<le> blk_size b" if "p \<in> set (all_attrs A E)" for p
    using rep that by (fastforce simp: span_rep_def all_attrs_def attr_ok_def event_ok_def)
  moreover have "card (set (all_attrs A E)) = length (all_attrs A E)"
    using rep by (simp add: span_rep_def distinct_card)
  ultimately show ?thesis
    using heap_capacity[OF heap[unfolded span_heap_def], of "set (all_attrs A E)" 16] by simp
qed

lemma events_bound:
  assumes heap: "span_heap m0 s T" and rep: "span_rep s T A E"
  shows "24 * length E \<le> 4024"
proof -
  have "\<exists>b. T p = Some b \<and> 24 \<le> blk_size b" if "p \<in> set (map fst E)" for p
    using rep that by (fastforce simp: span_rep_def event_ok_def)
  moreover have "card (set (map fst E)) = length E"
    using rep distinct_card[of "map fst E"] by (simp add: span_rep_def)
  ultimately show ?thesis
    using heap_capacity[OF heap[unfolded span_heap_def], of "set (map fst E)" 24] by simp
qed

lemma unat_inc8: "unat (x :: byte) < 255 \<Longrightarrow> unat (x + 1) = unat x + 1"
  by (simp add: unat_word_ariths)

lemma unat_inc16: "unat (x :: u16) < 65535 \<Longrightarrow> unat (x + 1) = unat x + 1"
  by (simp add: unat_word_ariths)

subsection \<open>A new span attribute\<close>

lemma fresh_attr_heap:
  assumes "span_heap m0 s T" and "fits s 16"
  obtains raw where "span_heap m0 ((bump s 16)\<lparr>sp_arena := attr_init (sp_arena s) (unat (sp_arena_used s)) koff\<rparr>)
    (T(unat (sp_arena_used s) \<mapsto> BAttr (fresh_attr koff raw)))"
proof -
  let ?a = "unat (sp_arena_used s)"
  have eq: "sp_arena (bump s 16) = sp_arena s"
    by (simp add: bump_def)
  show ?thesis
    using attr_init_heap[OF bump_heap_attr[OF assms] fun_upd_same, of koff]
    unfolding fun_upd_upd eq by (rule that)
qed

lemma fresh_event_heap:
  assumes "span_heap m0 s T" and "fits s 24"
  shows "span_heap m0 ((bump s 24)\<lparr>sp_arena := event_init (sp_arena s) (unat (sp_arena_used s)) noff now\<rparr>)
    (T(unat (sp_arena_used s) \<mapsto> BEvent (fresh_event noff now)))"
proof -
  have eq: "sp_arena (bump s 24) = sp_arena s"
    by (simp add: bump_def)
  show ?thesis
    using event_init_heap[OF bump_heap_event[OF assms] fun_upd_same, of noff now]
    unfolding fun_upd_upd eq .
qed

lemma attr_tail_ptr:
  assumes "span_heap m0 s T" and "\<forall>a\<in>set as. attr_ok T a"
  shows "tail_off as = OTEL_NIL \<longleftrightarrow> as = []" and "as \<noteq> [] \<Longrightarrow> unat (tail_off as) = last as"
  using tail_off_ptr[OF assms(1), of as] assms(2) by (fastforce simp: attr_ok_def)+

text \<open>The store through the tail pointer: nothing for an empty list.\<close>

definition store_next :: "otel_span \<Rightarrow> nat list \<Rightarrow> u16 \<Rightarrow> otel_span" where
  "store_next s as off = (if as = [] then s else s\<lparr>sp_arena := store16 (sp_arena s) (last as) off\<rparr>)"

lemma store_next_attr_heap:
  assumes "span_heap m0 s (T(n \<mapsto> b))" and "\<forall>a\<in>set as. attr_ok T a" and "T n = None"
  shows "span_heap m0 (store_next s as off) (link_next (T(n \<mapsto> b)) as off)"
proof (cases "as = []")
  case True
  then show ?thesis using assms(1) by (simp add: store_next_def link_next_def)
next
  case False
  obtain r where "T (last as) = Some (BAttr r)"
    using assms(2) last_in_set[OF False] by (auto simp: attr_ok_def)
  then have "(T(n \<mapsto> b)) (last as) = Some (BAttr r)"
    using assms(3) by auto
  then show ?thesis
    using link_next_heap[OF assms(1) False] False by (simp add: store_next_def)
qed

lemma used_ptr:
  assumes "span_heap m0 s T"
  shows "sp_arena_used s \<noteq> OTEL_NIL" "T (unat (sp_arena_used s)) = None"
  using assms span_heap_used(3) heap_fresh by (auto simp: span_heap_def)

lemma span_attr_link_sim:
  assumes sim: "span_sim m0 s T A E v" and fit: "fits s 16" and key: "str_ref T koff"
  defines "a \<equiv> unat (sp_arena_used s)"
  obtains T' raw where
    "span_sim m0 (span_attr_link (bump s 16) koff (sp_arena_used s)) T' (A @ [a]) E
       (place_upd OfSpan (\<lambda>xs. xs @ [(str_val T koff, VStr [])]) (v\<lparr>vw_used := vw_used v + round8 16\<rparr>))"
    and "T' a = Some (BAttr (fresh_attr koff raw))"
    and "str_ref T' koff" "str_val T' koff = str_val T koff"
proof -
  note heap = span_simD(1)[OF sim] and rep = span_simD(2)[OF sim]
  let ?off = "sp_arena_used s"
  note new = used_ptr[OF heap]
  have A: "chain (attr_nx T) (sp_attr_head s) A" "\<forall>x\<in>set A. attr_ok T x" "distinct A"
      "sp_attr_tail s = tail_off A" "unat (sp_num_attrs s) = length A"
    and E: "chain (event_nx T) (sp_event_head s) (map fst E)" "\<forall>x\<in>set E. event_ok T x"
    and names: "str_ref T (sp_name s)" "str_ref T (sp_status_message s)"
    using rep by (auto simp: span_rep_def all_attrs_def)
  obtain raw where h2: "span_heap m0 ((bump s 16)\<lparr>sp_arena := attr_init (sp_arena s) a koff\<rparr>)
      (T(a \<mapsto> BAttr (fresh_attr koff raw)))"
    using fresh_attr_heap[OF heap fit] unfolding a_def by blast
  define T' where "T' = link_next (T(unat ?off \<mapsto> BAttr (fresh_attr koff raw))) A ?off"
  note ap = append_attr[OF A(1,2,3) new(2) new(1) key, of raw, folded T'_def]
  define s' where "s' = span_attr_link (bump s 16) koff ?off"
  have s': "s' = (store_next ((bump s 16)\<lparr>sp_arena := attr_init (sp_arena s) a koff\<rparr>) A ?off)
      \<lparr>sp_attr_head := (if A = [] then ?off else sp_attr_head s), sp_attr_tail := ?off,
       sp_num_attrs := sp_num_attrs s + 1\<rparr>"
    using attr_tail_ptr[OF heap A(2)] A(4)
    by (simp add: s'_def span_attr_link_def Let_def store_next_def bump_def a_def)
  have "span_heap m0 (store_next ((bump s 16)\<lparr>sp_arena := attr_init (sp_arena s) a koff\<rparr>) A ?off) T'"
    using store_next_attr_heap[OF h2 A(2)] new(2) by (simp add: T'_def a_def)
  then have heap': "span_heap m0 s' T'"
    by (simp add: s' span_heap_def)
  have n: "unat (sp_num_attrs s + 1) = Suc (length A)"
    using attrs_bound[OF heap rep] A(5) by (subst unat_inc16) (simp_all add: all_attrs_def)
  have ah: "a \<notin> set (all_attrs A E)" "a \<notin> fst ` set E"
    using new(2) A(2) E(2) by (fastforce simp: all_attrs_def a_def attr_ok_def event_ok_def)+
  have dj: "fst ` set E \<inter> tail_set A = {}" "set (concat (map snd E)) \<inter> tail_set A = {}"
    using A(2) E(2) rep tail_set_sub[of A]
    by (fastforce simp: span_rep_def all_attrs_def attr_ok_def event_ok_def)+
  note Ek = events_keep[OF ap(4) E dj]
  have "sp_arena_used s' = sp_arena_used (bump s 16)"
    by (simp add: s' store_next_def)
  then have used: "unat (sp_arena_used s') = vw_used v + round8 16"
    using unat_bump_used[OF fit] span_simD(4)[OF sim] by simp
  note nm = keeps_str[OF ap(4) names(1)] keeps_str[OF ap(4) names(2)]
  have fields: "sp_name s' = sp_name s" "sp_status_message s' = sp_status_message s"
    "sp_status s' = sp_status s" "sp_dropped_attrs s' = sp_dropped_attrs s"
    "sp_dropped_events s' = sp_dropped_events s" "sp_event_head s' = sp_event_head s"
    "sp_event_tail s' = sp_event_tail s" "sp_num_events s' = sp_num_events s"
    by (simp_all add: s' store_next_def bump_def)
  have "tail_off (A @ [a]) = ?off"
    by (simp add: tail_off_def a_def)
  then have "span_rep s' T' (A @ [a]) E"
    using rep ap(1,2) Ek(1,2) nm fields n ah
    by (simp add: span_rep_def s' all_attrs_def a_def)
  moreover have "view_of s' T' (A @ [a]) E =
      place_upd OfSpan (\<lambda>xs. xs @ [(str_val T koff, VStr [])]) (v\<lparr>vw_used := vw_used v + round8 16\<rparr>)"
    using ap(3) Ek(3) nm fields used span_simD(3)[OF sim, symmetric]
    by (simp add: view_of_def a_def)
  ultimately show ?thesis
    using that[of T' raw] heap' ap(5) keeps_str[OF ap(4) key] by (simp add: span_sim_def s'_def a_def)
qed

end
