(* ===== verification/Otel_Event_Refine.thy ===== *)
theory Otel_Event_Refine
  imports Otel_Span_Refine
begin

text \<open>
  Linking a new attribute into an event of the span, and a new event into the span.  An
  event of the list is named by splitting the list of events around it.
\<close>

lemma events_keep_sub:
  assumes "keeps T T' X" and "\<forall>x\<in>set F. event_ok T x"
    and "fst ` set F \<inter> X = {}" and "set (concat (map snd F)) \<inter> X = {}"
  shows "\<forall>x\<in>set F. event_ok T' x" "map (event_of T') F = map (event_of T) F"
    "\<forall>p\<in>fst ` set F. event_nx T' p = event_nx T p"
proof -
  have e: "event_ok T' x" "event_of T' x = event_of T x" "event_nx T' (fst x) = event_nx T (fst x)"
    if "x \<in> set F" for x
  proof -
    have "fst x \<notin> X" "set (snd x) \<inter> X = {}"
      using that assms(3,4) by auto
    then show "event_ok T' x" "event_of T' x = event_of T x" "event_nx T' (fst x) = event_nx T (fst x)"
      using keeps_event[OF assms(1)] assms(2) that by blast+
  qed
  then show "\<forall>x\<in>set F. event_ok T' x" "map (event_of T') F = map (event_of T) F"
    "\<forall>p\<in>fst ` set F. event_nx T' p = event_nx T p"
    by auto
qed

text \<open>Rewriting an event record leaves strings and attributes alone.\<close>

lemma event_update_indep:
  assumes "T e = Some (BEvent r)"
  shows "str_ref (T(e \<mapsto> BEvent r')) = str_ref T" "str_val (T(e \<mapsto> BEvent r')) = str_val T"
    "attr_nx (T(e \<mapsto> BEvent r')) = attr_nx T" "attr_ok (T(e \<mapsto> BEvent r')) = attr_ok T"
    "attr_of (T(e \<mapsto> BEvent r')) = attr_of T"
    "ev_next r' = ev_next r \<Longrightarrow> event_nx (T(e \<mapsto> BEvent r')) = event_nx T"
proof -
  show r: "str_ref (T(e \<mapsto> BEvent r')) = str_ref T"
    using assms by (auto simp: str_ref_def fun_eq_iff)
  show v: "str_val (T(e \<mapsto> BEvent r')) = str_val T"
    using assms by (auto simp: str_val_def fun_eq_iff)
  then have "rec_value (T(e \<mapsto> BEvent r')) = rec_value T"
    by (simp add: rec_value_def fun_eq_iff)
  then show "attr_of (T(e \<mapsto> BEvent r')) = attr_of T"
    using assms v by (auto simp: attr_of_def fun_eq_iff split: option.splits blk.splits)
  show "attr_nx (T(e \<mapsto> BEvent r')) = attr_nx T"
    using assms by (auto simp: attr_nx_def fun_eq_iff)
  show "attr_ok (T(e \<mapsto> BEvent r')) = attr_ok T"
    using assms r by (auto simp: attr_ok_def fun_eq_iff)
  show "ev_next r' = ev_next r \<Longrightarrow> event_nx (T(e \<mapsto> BEvent r')) = event_nx T"
    using assms by (auto simp: event_nx_def fun_eq_iff)
qed

definition event_add_attr :: "otel_event \<Rightarrow> bool \<Rightarrow> u16 \<Rightarrow> otel_event" where
  "event_add_attr r first off = r\<lparr>ev_attr_head := (if first then off else ev_attr_head r),
     ev_attr_tail := off, ev_num_attrs := ev_num_attrs r + 1\<rparr>"

text \<open>What the stores of \<^verbatim>\<open>otel_event_attr_\<close> do to the typed view.\<close>

lemma event_attr_link_heap:
  assumes h2: "span_heap m0 ((bump s 16)\<lparr>sp_arena := attr_init (sp_arena s) (unat off) koff\<rparr>) T2"
    and T2: "T2 = T(unat off \<mapsto> BAttr (fresh_attr koff raw))" and new: "T (unat off) = None"
    and e: "T e = Some (BEvent r)" and ok: "\<forall>a\<in>set as. attr_ok T a"
    and tl: "ev_attr_tail r = tail_off as" and heap: "span_heap m0 s T"
  shows "span_heap m0 (event_attr_link (bump s 16) e koff off)
    ((link_next T2 as off)(e \<mapsto> BEvent (event_add_attr r (as = []) off)))"
    and "same_core (bump s 16) (event_attr_link (bump s 16) e koff off)"
    and "sp_arena_used (event_attr_link (bump s 16) e koff off) = sp_arena_used (bump s 16)"
proof -
  let ?s2 = "(bump s 16)\<lparr>sp_arena := attr_init (sp_arena s) (unat off) koff\<rparr>"
  have T2e: "T2 e = Some (BEvent r)"
    using e new by (auto simp: T2)
  note tail = attr_tail_ptr[OF heap ok]
  have tle: "ev_attr_tail (event_at (sp_arena ?s2) e) = tail_off as"
    using span_heap_at(2)[OF h2 T2e] tl by simp
  define s3 where "s3 = (if as = [] then ?s2\<lparr>sp_arena := store16 (sp_arena ?s2) (e + 4) off\<rparr>
    else ?s2\<lparr>sp_arena := store16 (sp_arena ?s2) (last as) off\<rparr>)"
  define r3 where "r3 = (if as = [] then r\<lparr>ev_attr_head := off\<rparr> else r)"
  have eq: "event_attr_link (bump s 16) e koff off =
      (let s4 = s3\<lparr>sp_arena := store16 (sp_arena s3) (e + 6) off\<rparr>
       in s4\<lparr>sp_arena := store8 (sp_arena s4) (e + 8) (ev_num_attrs (event_at (sp_arena s4) e) + 1)\<rparr>)"
    using tle tail unfolding event_attr_link_def Let_def s3_def
    by (auto simp: bump_def)
  show "same_core (bump s 16) (event_attr_link (bump s 16) e koff off)"
    "sp_arena_used (event_attr_link (bump s 16) e koff off) = sp_arena_used (bump s 16)"
  proof -
    have "s3 = (bump s 16)\<lparr>sp_arena := sp_arena s3\<rparr>"
      by (cases "as = []") (simp_all add: s3_def)
    then obtain m where "s3 = (bump s 16)\<lparr>sp_arena := m\<rparr>" ..
    then show "same_core (bump s 16) (event_attr_link (bump s 16) e koff off)"
      "sp_arena_used (event_attr_link (bump s 16) e koff off) = sp_arena_used (bump s 16)"
      unfolding eq Let_def by simp_all
  qed
  have "last as \<noteq> e" if "as \<noteq> []"
    using ok last_in_set[OF that] e by (auto simp: attr_ok_def)
  then have T3e: "(link_next T2 as off) e = Some (BEvent r)"
    using T2e by (auto simp: link_next_def)
  have h3: "span_heap m0 s3 ((link_next T2 as off)(e \<mapsto> BEvent r3))"
  proof (cases "as = []")
    case True
    then show ?thesis
      using heap_event_stores(3)[OF h2 T2e, of off] by (simp add: s3_def r3_def link_next_def)
  next
    case False
    have "span_heap m0 (store_next ?s2 as off) (link_next T2 as off)"
      using store_next_attr_heap[OF h2[unfolded T2] ok new] by (simp add: T2)
    moreover have "(link_next T2 as off)(e \<mapsto> BEvent r) = link_next T2 as off"
      using T3e by auto
    ultimately show ?thesis
      using False by (simp add: s3_def r3_def store_next_def)
  qed
  note h4 = heap_event_stores(4)[OF h3 fun_upd_same, where v = off, unfolded fun_upd_upd]
  have num: "ev_num_attrs (event_at (sp_arena (s3\<lparr>sp_arena := store16 (sp_arena s3) (e + 6) off\<rparr>)) e) = ev_num_attrs r"
    using span_heap_at(2)[OF h4 fun_upd_same] by (simp add: r3_def)
  note h5 = heap_event_stores(5)[OF h4 fun_upd_same, where b = "ev_num_attrs r + 1", unfolded fun_upd_upd]
  have "r3\<lparr>ev_attr_tail := off, ev_num_attrs := ev_num_attrs r + 1\<rparr> = event_add_attr r (as = []) off"
    by (cases r) (simp add: r3_def event_add_attr_def)
  then show "span_heap m0 (event_attr_link (bump s 16) e koff off)
    ((link_next T2 as off)(e \<mapsto> BEvent (event_add_attr r (as = []) off)))"
    using h5 unfolding eq Let_def num by simp
qed

lemma event_attr_link_sim:
  assumes sim: "span_sim m0 s T A (E1 @ (e, as) # E2) v" and fit: "fits s 16" and key: "str_ref T koff"
  defines "a \<equiv> unat (sp_arena_used s)"
  obtains T' raw where
    "span_sim m0 (event_attr_link (bump s 16) e koff (sp_arena_used s)) T' A (E1 @ (e, as @ [a]) # E2)
       (place_upd (OfEvent (length E1)) (\<lambda>xs. xs @ [(str_val T koff, VStr [])])
         (v\<lparr>vw_used := vw_used v + round8 16\<rparr>))"
    and "T' a = Some (BAttr (fresh_attr koff raw))"
    and "str_ref T' koff" "str_val T' koff = str_val T koff"
proof -
  note heap = span_simD(1)[OF sim] and rep = span_simD(2)[OF sim]
  let ?off = "sp_arena_used s" and ?E = "E1 @ (e, as) # E2" and ?X = "tail_set as \<union> {e}"
  note new = used_ptr[OF heap]
  have A: "chain (attr_nx T) (sp_attr_head s) A" "\<forall>x\<in>set A. attr_ok T x"
    and E: "chain (event_nx T) (sp_event_head s) (map fst ?E)" "\<forall>x\<in>set ?E. event_ok T x"
    and names: "str_ref T (sp_name s)" "str_ref T (sp_status_message s)"
    and dist: "distinct (all_attrs A ?E)" "distinct (map fst ?E)"
    using rep by (auto simp: span_rep_def)
  from E(2) obtain r where r: "T e = Some (BEvent r)" "str_ref T (ev_name r)"
      "chain (attr_nx T) (ev_attr_head r) as" "ev_attr_tail r = tail_off as"
      "unat (ev_num_attrs r) = length as" "\<forall>x\<in>set as. attr_ok T x"
    by (auto simp: event_ok_def)
  have das: "distinct as" and disj: "set A \<inter> set as = {}"
    "set (concat (map snd (E1 @ E2))) \<inter> set as = {}" "e \<notin> fst ` set (E1 @ E2)"
    using dist by (auto simp: all_attrs_def)
  obtain raw where h2: "span_heap m0 ((bump s 16)\<lparr>sp_arena := attr_init (sp_arena s) (unat ?off) koff\<rparr>)
      (T(unat ?off \<mapsto> BAttr (fresh_attr koff raw)))"
    using fresh_attr_heap[OF heap fit] by blast
  define T3 where "T3 = link_next (T(unat ?off \<mapsto> BAttr (fresh_attr koff raw))) as ?off"
  note ap = append_attr[OF r(3,6) das new(2) new(1) key, of raw, folded T3_def]
  define r' where "r' = event_add_attr r (as = []) ?off"
  define T' where "T' = T3(e \<mapsto> BEvent r')"
  define s' where "s' = event_attr_link (bump s 16) e koff ?off"
  note lh = event_attr_link_heap[OF h2 refl new(2) r(1,6,4) heap, folded T3_def r'_def s'_def, folded T'_def]
  have T3e: "T3 e = Some (BEvent r)"
    using ap(4) r(1,6) tail_set_sub[of as] by (fastforce simp: keeps_def attr_ok_def)
  note ind = event_update_indep[where T = T3 and e = e and r = r and r' = r', OF T3e, folded T'_def]
  have nx: "event_nx T' = event_nx T3"
    by (rule ind(6)) (simp add: r'_def event_add_attr_def)
  have k: "keeps T T' ?X"
    using ap(4) r(1) by (auto simp: keeps_def T'_def)
  have AX: "set A \<inter> ?X = {}"
    using disj(1) tail_set_sub[of as] A(2) r(1) by (fastforce simp: attr_ok_def)
  note Ak = attrs_keep[OF k A AX]
  have ne: "e \<noteq> p" if "attr_ok T p" for p
    using that r(1) by (auto simp: attr_ok_def)
  have ev_na: "p \<notin> set as" if "p \<in> fst ` set (E1 @ E2)" for p
  proof -
    from that obtain x where x: "x \<in> set (E1 @ E2)" "p = fst x"
      by blast
    then have "event_ok T x"
      using E(2) by simp
    then obtain q where "T p = Some (BEvent q)"
      using x(2) by (auto simp: event_ok_def)
    then show ?thesis
      using r(6) by (auto simp: attr_ok_def)
  qed
  have sub_ok: "attr_ok T p" if "p \<in> set (concat (map snd (E1 @ E2)))" for p
    using that E(2) unfolding event_ok_def by fastforce
  have F: "fst ` set (E1 @ E2) \<inter> ?X = {}" "set (concat (map snd (E1 @ E2))) \<inter> ?X = {}"
    using disj(3) ev_na tail_set_sub[of as] apply blast
    using disj(2) ne sub_ok tail_set_sub[of as] by blast
  have E12: "\<forall>x\<in>set (E1 @ E2). event_ok T x"
    using E(2) by auto
  note Ek = events_keep_sub[OF k E12 F]
  have "event_nx T' e = event_nx T e"
    using nx T3e r(1) by (simp add: event_nx_def)
  then have chE: "chain (event_nx T') (sp_event_head s) (map fst ?E)"
    using E(1) Ek(3) chain_cong[of "map fst ?E" "event_nx T'" "event_nx T"] by auto
  have n: "unat (ev_num_attrs r + 1) = Suc (length as)"
    using attrs_bound[OF heap rep] r(5) by (subst unat_inc8) (simp_all add: all_attrs_def)
  have ah: "a \<notin> set (all_attrs A ?E)"
    using new(2) A(2) E(2) by (fastforce simp: all_attrs_def a_def attr_ok_def event_ok_def)
  note nk = keeps_str[OF ap(4) r(2)]
  have ev_ok: "event_ok T' (e, as @ [a])"
    using ap(1,2) nk n by (auto simp: event_ok_def T'_def[symmetric] ind a_def)
      (auto simp: T'_def r'_def event_add_attr_def tail_off_def)
  have ev_of: "event_of T' (e, as @ [a]) = (event_of T (e, as))
      \<lparr>evw_attrs := evw_attrs (event_of T (e, as)) @ [(str_val T koff, VStr [])]\<rparr>"
    using ap(3) nk r(1) ind(2,5) by (simp add: event_of_def a_def) (simp add: T'_def r'_def event_add_attr_def)
  note f = same_core_fields[OF same_core_trans[OF same_core_bump lh(2)]]
  have used: "unat (sp_arena_used s') = vw_used v + round8 16"
    using lh(3) unat_bump_used[OF fit] span_simD(4)[OF sim] by simp
  note nm = keeps_str[OF k names(1)] keeps_str[OF k names(2)]
  have "span_rep s' T' A (E1 @ (e, as @ [a]) # E2)"
    using rep Ak(1,2) Ek(1) ev_ok chE nm f(1,2,7) ah
    by (auto simp: span_rep_def same_lists_def all_attrs_def)
  moreover have "view_of s' T' A (E1 @ (e, as @ [a]) # E2) =
      place_upd (OfEvent (length E1)) (\<lambda>xs. xs @ [(str_val T koff, VStr [])])
         (v\<lparr>vw_used := vw_used v + round8 16\<rparr>)"
  proof -
    have "map (event_of T') E1 = map (event_of T) E1" "map (event_of T') E2 = map (event_of T) E2"
      using Ek(2) by auto
    moreover have "map (event_of T) E1 @ x # y = (map (event_of T) E1 @ z # y)[length E1 := x]" for x y z
      by (simp add: list_update_append)
    moreover have "(map (event_of T) E1 @ x # y) ! length E1 = x" for x y
      by (simp add: nth_append)
    ultimately show ?thesis
      using Ak(3) nm f used ev_of span_simD(3)[OF sim, symmetric]
      by (simp add: view_of_def list_update_append nth_append)
  qed
  ultimately have "span_sim m0 s' T' A (E1 @ (e, as @ [a]) # E2)
      (place_upd (OfEvent (length E1)) (\<lambda>xs. xs @ [(str_val T koff, VStr [])])
         (v\<lparr>vw_used := vw_used v + round8 16\<rparr>))"
    using lh(1) by (simp add: span_sim_def)
  moreover have "T' a = Some (BAttr (fresh_attr koff raw))"
    using ap(5) T3e by (auto simp: T'_def a_def)
  moreover have "str_ref T' koff" "str_val T' koff = str_val T koff"
    using keeps_str[OF k key] by auto
  ultimately show ?thesis
    using that unfolding s'_def by blast
qed

subsection \<open>A new event\<close>

lemma span_event_link_sim:
  assumes sim: "span_sim m0 s T A E v" and fit: "fits s 24" and nm: "str_ref T noff"
  defines "e \<equiv> unat (sp_arena_used s)"
  obtains T' where
    "span_sim m0 (span_event_link (bump s 24) noff (sp_arena_used s) now) T' A (E @ [(e, [])])
       (v\<lparr>vw_used := vw_used v + round8 24, vw_events := vw_events v @
          [\<lparr>evw_name = str_val T noff, evw_time = now, evw_attrs = [], evw_dropped = 0\<rparr>]\<rparr>)"
proof -
  note heap = span_simD(1)[OF sim] and rep = span_simD(2)[OF sim]
  let ?off = "sp_arena_used s" and ?es = "map fst E"
  note new = used_ptr[OF heap]
  have A: "chain (attr_nx T) (sp_attr_head s) A" "\<forall>x\<in>set A. attr_ok T x"
    and E: "chain (event_nx T) (sp_event_head s) ?es" "\<forall>x\<in>set E. event_ok T x"
      "sp_event_tail s = tail_off ?es" "unat (sp_num_events s) = length E" "distinct ?es"
    and names: "str_ref T (sp_name s)" "str_ref T (sp_status_message s)"
    using rep by (auto simp: span_rep_def)
  have evb: "\<exists>r. T p = Some (BEvent r)" if "p \<in> set ?es" for p
    using E(2) that by (auto simp: event_ok_def)
  define T2 where "T2 = T(e \<mapsto> BEvent (fresh_event noff now))"
  have h2: "span_heap m0 ((bump s 24)\<lparr>sp_arena := event_init (sp_arena s) e noff now\<rparr>) T2"
    using fresh_event_heap[OF heap fit] unfolding e_def T2_def .
  define T' where "T' = link_next T2 ?es ?off"
  define s' where "s' = span_event_link (bump s 24) noff ?off now"
  have tail: "tail_off ?es = OTEL_NIL \<longleftrightarrow> ?es = []" "?es \<noteq> [] \<Longrightarrow> unat (tail_off ?es) = last ?es"
    using tail_off_ptr[OF heap, of ?es] evb by fastforce+
  have s': "s' = (store_next ((bump s 24)\<lparr>sp_arena := event_init (sp_arena s) e noff now\<rparr>) ?es ?off)
      \<lparr>sp_event_head := (if ?es = [] then ?off else sp_event_head s), sp_event_tail := ?off,
       sp_num_events := sp_num_events s + 1\<rparr>"
    using tail E(3) by (simp add: s'_def span_event_link_def Let_def store_next_def bump_def e_def)
  have eh: "e \<notin> set ?es" "e \<notin> set (all_attrs A E)"
    using new(2) A(2) E(2) by (fastforce simp: e_def event_ok_def attr_ok_def all_attrs_def)+
  have lastb: "?es \<noteq> [] \<Longrightarrow> \<exists>r. T2 (last ?es) = Some (BEvent r)"
    using evb[OF last_in_set[of ?es]] eh(1) last_in_set[of ?es] by (auto simp: T2_def)
  have "span_heap m0 (store_next ((bump s 24)\<lparr>sp_arena := event_init (sp_arena s) e noff now\<rparr>) ?es ?off) T'"
  proof (cases "?es = []")
    case True
    then show ?thesis using h2 by (simp add: store_next_def T'_def link_next_def)
  next
    case False
    with lastb obtain r where "T2 (last ?es) = Some (BEvent r)" by blast
    then show ?thesis
      using link_next_heap[OF h2 False, of "BEvent r"] False by (simp add: store_next_def T'_def)
  qed
  then have heap': "span_heap m0 s' T'"
    by (simp add: s' span_heap_def)
  have k: "keeps T T' (tail_set ?es)"
    unfolding T'_def
  proof (rule link_keeps)
    show "T e = None" "T2 = T(e \<mapsto> BEvent (fresh_event noff now))"
      using new(2) by (simp_all add: e_def T2_def)
    show "T p \<noteq> Some (BStr c)" if "p \<in> set ?es" for p c
      using evb[OF that] by auto
  qed
  have AX: "set A \<inter> tail_set ?es = {}" "set (concat (map snd E)) \<inter> tail_set ?es = {}"
    using A(2) E(2) evb tail_set_sub[of ?es] by (fastforce simp: attr_ok_def event_ok_def)+
  note Ak = attrs_keep[OF k A AX(1)]
  have T'e: "T' e = Some (BEvent (fresh_event noff now))"
    using eh(1) last_in_set[of ?es] by (auto simp: T'_def link_next_def T2_def)
  have ev: "event_ok T' x \<and> event_of T' x = event_of T x" if x: "x \<in> set E" for x
  proof -
    obtain r where r: "T (fst x) = Some (BEvent r)" "str_ref T (ev_name r)"
        "chain (attr_nx T) (ev_attr_head r) (snd x)" "ev_attr_tail r = tail_off (snd x)"
        "unat (ev_num_attrs r) = length (snd x)" "\<forall>a\<in>set (snd x). attr_ok T a"
      using E(2) x by (auto simp: event_ok_def)
    have "set (snd x) \<inter> tail_set ?es = {}"
      using AX(2) x by auto
    note ak = attrs_keep[OF k r(3,6) this]
    have "fst x \<noteq> e"
      using eh(1) x by auto
    then have "\<exists>n. T' (fst x) = Some (BEvent (r\<lparr>ev_next := n\<rparr>))"
      using r(1) by (auto simp: T'_def link_next_def T2_def set_next_def intro: exI[of _ "ev_next r"])
    then show ?thesis
      using r ak keeps_str[OF k r(2)] by (auto simp: event_ok_def event_of_def)
  qed
  have newev: "event_ok T' (e, [])" "event_of T' (e, []) =
      \<lparr>evw_name = str_val T noff, evw_time = now, evw_attrs = [], evw_dropped = 0\<rparr>"
    using T'e keeps_str[OF k nm] by (auto simp: event_ok_def event_of_def fresh_event_def tail_off_def)
  have nxe: "event_nx T' e = Some OTEL_NIL"
    using T'e by (simp add: event_nx_def fresh_event_def)
  have ch: "chain (event_nx T') (if ?es = [] then ?off else sp_event_head s) (?es @ [unat ?off])"
  proof (cases "?es = []")
    case True
    then show ?thesis using new(1) nxe by (simp add: e_def)
  next
    case False
    have "chain (event_nx T') (sp_event_head s) (?es @ [unat ?off])"
    proof (rule chain_snoc[where f = "event_nx T", OF E(1) False E(5) _ new(1)])
      show "event_nx T' (unat ?off) = Some OTEL_NIL"
        using nxe by (simp add: e_def)
      show "event_nx T' (last ?es) = Some ?off"
        using lastb[OF False] False by (auto simp: event_nx_def T'_def link_next_def set_next_def)
      fix p assume "p \<in> set ?es" "p \<noteq> last ?es"
      then have "T' p = T p"
        using eh(1) by (auto simp: T'_def link_next_def T2_def)
      then show "event_nx T' p = event_nx T p"
        by (simp add: event_nx_def)
    qed
    then show ?thesis using False by simp
  qed
  have n: "unat (sp_num_events s + 1) = Suc (length E)"
    using events_bound[OF heap rep] E(4) by (subst unat_inc16) simp_all
  have "sp_arena_used s' = sp_arena_used (bump s 24)"
    by (simp add: s' store_next_def)
  then have used: "unat (sp_arena_used s') = vw_used v + round8 24"
    using unat_bump_used[OF fit] span_simD(4)[OF sim] by simp
  have fields: "sp_name s' = sp_name s" "sp_status_message s' = sp_status_message s"
    "sp_status s' = sp_status s" "sp_dropped_attrs s' = sp_dropped_attrs s"
    "sp_dropped_events s' = sp_dropped_events s" "sp_attr_head s' = sp_attr_head s"
    "sp_attr_tail s' = sp_attr_tail s" "sp_num_attrs s' = sp_num_attrs s"
    by (simp_all add: s' store_next_def bump_def)
  note nms = keeps_str[OF k names(1)] keeps_str[OF k names(2)]
  have "span_rep s' T' A (E @ [(e, [])])"
    using rep Ak(1,2) ev newev(1) ch n eh nms fields
    by (auto simp: span_rep_def all_attrs_def s' tail_off_def e_def)
  moreover have "view_of s' T' A (E @ [(e, [])]) =
      v\<lparr>vw_used := vw_used v + round8 24, vw_events := vw_events v @
          [\<lparr>evw_name = str_val T noff, evw_time = now, evw_attrs = [], evw_dropped = 0\<rparr>]\<rparr>"
    using Ak(3) ev newev(2) nms fields used span_simD(3)[OF sim, symmetric]
    by (simp add: view_of_def)
  ultimately show ?thesis
    using that[of T'] heap' by (simp add: span_sim_def s'_def)
qed

end
