(* ===== verification/Otel_Span_Calls.thy ===== *)
theory Otel_Span_Calls
  imports Otel_Event_Refine
begin

text \<open>
  Whole calls.  Filling in the value of a new attribute, counting a dropped one, starting a
  span, and then the simulation: every call a client makes on a recording span does to what a
  consumer reads exactly what \<open>spec_call\<close> says.
\<close>

subsection \<open>Rewriting the value of an attribute\<close>

lemma attr_update_indep:
  assumes "T a = Some (BAttr r)" and "at_next r' = at_next r" and "at_key r' = at_key r"
    and "str_ref T (at_val r)" and "str_ref T (at_val r')"
  shows "str_ref (T(a \<mapsto> BAttr r')) = str_ref T" "str_val (T(a \<mapsto> BAttr r')) = str_val T"
    "attr_nx (T(a \<mapsto> BAttr r')) = attr_nx T" "event_nx (T(a \<mapsto> BAttr r')) = event_nx T"
    "attr_ok (T(a \<mapsto> BAttr r')) = attr_ok T" "event_ok (T(a \<mapsto> BAttr r')) = event_ok T"
    "p \<noteq> a \<Longrightarrow> attr_of (T(a \<mapsto> BAttr r')) p = attr_of T p"
    "attr_of (T(a \<mapsto> BAttr r')) a = (fst (attr_of T a), rec_value T r')"
proof -
  show r: "str_ref (T(a \<mapsto> BAttr r')) = str_ref T"
    using assms(1) by (auto simp: str_ref_def fun_eq_iff)
  show v: "str_val (T(a \<mapsto> BAttr r')) = str_val T"
    using assms(1) by (auto simp: str_val_def fun_eq_iff)
  then have rv: "rec_value (T(a \<mapsto> BAttr r')) = rec_value T"
    by (simp add: rec_value_def fun_eq_iff)
  show nx: "attr_nx (T(a \<mapsto> BAttr r')) = attr_nx T"
    using assms(1,2) by (auto simp: attr_nx_def fun_eq_iff)
  show "event_nx (T(a \<mapsto> BAttr r')) = event_nx T"
    using assms(1) by (auto simp: event_nx_def fun_eq_iff)
  show ok: "attr_ok (T(a \<mapsto> BAttr r')) = attr_ok T"
    using assms r by (auto simp: attr_ok_def fun_eq_iff)
  show "event_ok (T(a \<mapsto> BAttr r')) = event_ok T"
    unfolding fun_eq_iff event_ok_def r nx ok using assms(1) by auto
  show "p \<noteq> a \<Longrightarrow> attr_of (T(a \<mapsto> BAttr r')) p = attr_of T p"
    unfolding attr_of_def v rv by simp
  show "attr_of (T(a \<mapsto> BAttr r')) a = (fst (attr_of T a), rec_value T r')"
    using assms(1,3) by (simp add: attr_of_def v rv)
qed

fun ends :: "attr_place \<Rightarrow> nat list \<Rightarrow> (nat \<times> nat list) list \<Rightarrow> nat \<Rightarrow> bool" where
  "ends OfSpan A E a \<longleftrightarrow> A \<noteq> [] \<and> last A = a"
| "ends (OfEvent i) A E a \<longleftrightarrow> i < length E \<and> snd (E ! i) \<noteq> [] \<and> last (snd (E ! i)) = a"

definition set_last :: "'v \<Rightarrow> ('k \<times> 'v) list \<Rightarrow> ('k \<times> 'v) list" where
  "set_last x xs = butlast xs @ [(fst (last xs), x)]"

lemma distinct_concat_nth:
  "distinct (concat xss) \<Longrightarrow> i < length xss \<Longrightarrow> j < length xss \<Longrightarrow> i \<noteq> j \<Longrightarrow> set (xss ! i) \<inter> set (xss ! j) = {}"
proof (induction xss arbitrary: i j)
  case (Cons xs xss)
  then show ?case
    by (cases i; cases j) (auto simp: in_set_conv_nth[of _ xss], (metis disjoint_iff nth_mem UN_I)+)
qed simp

lemma map_set_last:
  assumes "as \<noteq> []" and "distinct as" and "\<And>p. p \<noteq> last as \<Longrightarrow> f' p = f p"
    and "f' (last as) = (fst (f (last as)), x)"
  shows "map f' as = set_last x (map f as)"
proof -
  obtain bs b where as: "as = bs @ [b]"
    using assms(1) by (metis append_butlast_last_id)
  with assms(2) have "p \<noteq> b" if "p \<in> set bs" for p
    using that by auto
  then have "map f' bs = map f bs"
    using assms(3) as by auto
  then show ?thesis
    using assms(4) as by (simp add: set_last_def)
qed

lemma sim_rewrite_attr:
  assumes sim: "span_sim m0 s T A E v" and a: "T a = Some (BAttr r)"
    and heap: "span_heap m0 (s\<lparr>sp_arena := m\<rparr>) (T(a \<mapsto> BAttr r'))"
    and same: "at_next r' = at_next r" "at_key r' = at_key r" "str_ref T (at_val r)" "str_ref T (at_val r')"
    and pl: "ends pl A E a"
  shows "span_sim m0 (s\<lparr>sp_arena := m\<rparr>) (T(a \<mapsto> BAttr r')) A E (place_upd pl (set_last (rec_value T r')) v)"
proof -
  let ?T = "T(a \<mapsto> BAttr r')"
  note rep = span_simD(2)[OF sim] and ind = attr_update_indep[OF a same]
  have rep': "span_rep (s\<lparr>sp_arena := m\<rparr>) ?T A E"
    using rep unfolding span_rep_def ind by simp
  have dA: "distinct A" and dE: "distinct (concat (map snd E))"
    and dAE: "set A \<inter> set (concat (map snd E)) = {}"
    using rep by (auto simp: span_rep_def all_attrs_def)
  have ev: "event_of ?T x = event_of T x" if "a \<notin> set (snd x)" for x
  proof -
    have "map (attr_of ?T) (snd x) = map (attr_of T) (snd x)"
      using that by (intro map_cong refl ind(7)) auto
    then show ?thesis
      using a by (auto simp: event_of_def ind(2) split: option.splits blk.splits)
  qed
  note v = span_simD(3)[OF sim, symmetric]
  have "view_of (s\<lparr>sp_arena := m\<rparr>) ?T A E = place_upd pl (set_last (rec_value T r')) v"
  proof (cases pl)
    case OfSpan
    then have A: "A \<noteq> []" "last A = a"
      using pl by auto
    have "map (attr_of ?T) A = set_last (rec_value T r') (map (attr_of T) A)"
      using A ind(7,8) by (intro map_set_last dA) auto
    moreover have "map (event_of ?T) E = map (event_of T) E"
      using dAE A last_in_set[of A] by (intro map_cong refl ev) auto
    ultimately show ?thesis
      using OfSpan by (simp add: view_of_def v ind(2))
  next
    case (OfEvent i)
    then have i: "i < length E" "snd (E ! i) \<noteq> []" "last (snd (E ! i)) = a"
      using pl by auto
    then have ai: "a \<in> set (snd (E ! i))"
      using last_in_set by metis
    have "a \<notin> set A"
      using dAE ai nth_mem[OF i(1)] by fastforce
    then have "map (attr_of ?T) A = map (attr_of T) A"
      by (intro map_cong refl ind(7)) auto
    moreover have "map (event_of ?T) E = (map (event_of T) E)[i := (event_of T (E ! i))
        \<lparr>evw_attrs := set_last (rec_value T r') (evw_attrs (event_of T (E ! i)))\<rparr>]"
    proof (rule nth_equalityI)
      fix j assume "j < length (map (event_of ?T) E)"
      then have j: "j < length E" by simp
      show "map (event_of ?T) E ! j = (map (event_of T) E)[i := (event_of T (E ! i))
        \<lparr>evw_attrs := set_last (rec_value T r') (evw_attrs (event_of T (E ! i)))\<rparr>] ! j"
      proof (cases "j = i")
        case False
        then have "a \<notin> set (snd (E ! j))"
          using distinct_concat_nth[OF dE, of i j] i(1) j ai by auto
        then show ?thesis using False j i(1) ev by simp
      next
        case True
        have "event_ok T (E ! i)"
          using rep i(1) by (simp add: span_rep_def)
        then obtain q where q: "T (fst (E ! i)) = Some (BEvent q)"
          by (auto simp: event_ok_def)
        have "distinct (snd (E ! i))"
          using dE i(1) by (simp add: distinct_concat_iff)
        then have "map (attr_of ?T) (snd (E ! i)) = set_last (rec_value T r') (map (attr_of T) (snd (E ! i)))"
          using i ind(7,8) by (intro map_set_last) auto
        then show ?thesis
          using True i(1) q a by (auto simp: event_of_def ind(2))
      qed
    qed simp
    ultimately show ?thesis
      using OfEvent i(1) by (simp add: view_of_def v ind(2))
  qed
  then show ?thesis
    using heap rep' by (simp add: span_sim_def)
qed

subsection \<open>Filling in a new attribute\<close>

fun attr_fill :: "otel_span \<Rightarrow> nat \<Rightarrow> attr_arg \<Rightarrow> otel_span" where
  "attr_fill s a (ArgStr v) = attr_fill_str s a v"
| "attr_fill s a (ArgStrn v n) = attr_fill_strn s a v n"
| "attr_fill s a (ArgI64 v) = attr_fill_i64 s a v"
| "attr_fill s a (ArgU64 v) = attr_fill_u64 s a v"
| "attr_fill s a (ArgBool v) = attr_fill_bool s a v"

definition fill_handle :: "otel_span \<times> nat option \<Rightarrow> attr_arg \<Rightarrow> otel_span" where
  "fill_handle sh arg = (case sh of (s, None) \<Rightarrow> s | (s, Some a) \<Rightarrow> attr_fill s a arg)"

lemma span_attr_call_fill: "span_attr_call s key arg = fill_handle (otel_span_attr_internal s key) arg"
  by (cases arg) (simp_all add: fill_handle_def otel_span_attr_str_def otel_span_attr_strn_def
      otel_span_attr_i64_def otel_span_attr_u64_def otel_span_attr_bool_def split: prod.splits option.splits)

lemma event_attr_call_fill: "event_attr_call s e key arg = fill_handle (otel_event_attr_internal s e key) arg"
  by (cases arg) (simp_all add: fill_handle_def otel_event_attr_str_def otel_event_attr_strn_def
      otel_event_attr_i64_def otel_event_attr_u64_def otel_event_attr_bool_def split: prod.splits option.splits)

lemma sim_same_bytes:
  assumes sim: "span_sim m0 s T A E v" and heap: "span_heap m0 (s\<lparr>sp_arena := m\<rparr>) T"
  shows "span_sim m0 (s\<lparr>sp_arena := m\<rparr>) T A E v"
  using sim_core[OF sim heap keeps_refl same_core_arena] span_simD(4)[OF sim] by (cases v) simp

lemma set_fresh_type: "T a = Some (BAttr (fresh_attr koff raw)) \<Longrightarrow>
  T(a \<mapsto> BAttr ((fresh_attr koff raw)\<lparr>at_type := OTEL_ATTR_STR\<rparr>)) = T"
  by (auto simp: fresh_attr_def fun_eq_iff)

lemma str_ref_fresh [simp]: "str_ref T (at_val (fresh_attr koff raw))"
  by (simp add: fresh_attr_def str_ref_def)

lemma fill_string_sim:
  assumes sim: "span_sim m0 s T A E v" and a: "T a = Some (BAttr (fresh_attr koff raw))"
    and pl: "ends pl A E a"
    and put: "\<And>s1 s' off. span_sim m0 s1 T A E v \<Longrightarrow> put s1 = (s', off) \<Longrightarrow>
      \<exists>T'. put_post m0 s1 T A E s' off v' b c T'"
  shows "\<exists>T'. span_sim m0 (let s = s\<lparr>sp_arena := store8 (sp_arena s) (a + 6) OTEL_ATTR_STR\<rparr>; (s, off) = put s
      in s\<lparr>sp_arena := store16 (sp_arena s) (a + 4) off\<rparr>) T' A E
    (place_upd pl (set_last (VStr (if b then c_str (the c) else []))) v')"
proof -
  let ?r = "fresh_attr koff raw"
  define s1 where "s1 = s\<lparr>sp_arena := store8 (sp_arena s) (a + 6) OTEL_ATTR_STR\<rparr>"
  have "span_heap m0 s1 T"
    using heap_attr_stores(4)[OF span_simD(1)[OF sim] a, of OTEL_ATTR_STR] set_fresh_type[where T = T, OF a]
    by (simp add: s1_def)
  then have sim1: "span_sim m0 s1 T A E v"
    using sim_same_bytes[OF sim] unfolding s1_def by blast
  obtain s2 off where run: "put s1 = (s2, off)" by fastforce
  from put[OF sim1 run] obtain T2 where post: "put_post m0 s1 T A E s2 off v' b c T2" by blast
  then have sim2: "span_sim m0 s2 T2 A E v'" and k: "keeps T T2 {}" and off: "str_ref T2 off"
    "str_val T2 off = (if b then c_str (the c) else [])"
    by (auto simp: put_post_def)
  have a2: "T2 a = Some (BAttr ?r)"
    using k a by (auto simp: keeps_def)
  have "span_sim m0 (s2\<lparr>sp_arena := store16 (sp_arena s2) (a + 4) off\<rparr>) (T2(a \<mapsto> BAttr (?r\<lparr>at_val := off\<rparr>))) A E
     (place_upd pl (set_last (rec_value T2 (?r\<lparr>at_val := off\<rparr>))) v')"
    using off(1) by (intro sim_rewrite_attr[OF sim2 a2 heap_attr_stores(3)[OF span_simD(1)[OF sim2] a2]] pl)
      simp_all
  moreover have "rec_value T2 (?r\<lparr>at_val := off\<rparr>) = VStr (if b then c_str (the c) else [])"
    using off(2) by (simp add: rec_value_def fresh_attr_def)
  ultimately show ?thesis
    unfolding s1_def[symmetric] Let_def run by auto
qed

lemma fill_two_stores:
  assumes sim: "span_sim m0 s T A E v" and a: "T a = Some (BAttr (fresh_attr koff raw))"
    and pl: "ends pl A E a"
    and st: "span_heap m0 (s\<lparr>sp_arena := m\<rparr>) (T(a \<mapsto> BAttr r'))"
    and r': "at_next r' = OTEL_NIL" "at_key r' = koff" "at_val r' = OTEL_NIL" "rec_value T r' = x"
  shows "\<exists>T'. span_sim m0 (s\<lparr>sp_arena := m\<rparr>) T' A E (place_upd pl (set_last x) v)"
proof -
  have "span_sim m0 (s\<lparr>sp_arena := m\<rparr>) (T(a \<mapsto> BAttr r')) A E (place_upd pl (set_last (rec_value T r')) v)"
    using r' by (intro sim_rewrite_attr[OF sim a st _ _ _ _ pl]) (simp_all add: fresh_attr_def str_ref_def)
  then show ?thesis using r'(4) by auto
qed

lemma fill_sim:
  assumes sim: "span_sim m0 s T A E v" and a: "T a = Some (BAttr (fresh_attr koff raw))"
    and pl: "ends pl A E a" and ok: "arg_ok arg" and spec: "spec_value v arg = (v', x)"
  shows "\<exists>T'. span_sim m0 (attr_fill s a arg) T' A E (place_upd pl (set_last x) v')"
proof (cases arg)
  case (ArgStr str)
  obtain v1 b where p: "spec_put v (map_option c_str str) = (v1, b)" by fastforce
  have "\<exists>T'. put_post m0 s1 T A E s' off v1 b (map_option c_str str) T'"
    if "span_sim m0 s1 T A E v" "otel_arena_put s1 str = (s', off)" for s1 s' off
    using put_sim[OF that(1) _ that(2) p] ok ArgStr by auto
  note sm = fill_string_sim[where put = "\<lambda>s. otel_arena_put s str", OF sim a pl this]
  have "v' = v1" "x = VStr (if b then c_str (the (map_option c_str str)) else [])"
    using spec p ArgStr by (cases str; auto simp: spec_put_def)+
  with sm show ?thesis
    by (simp add: ArgStr attr_fill_str_def)
next
  case (ArgStrn str len)
  obtain v1 b where p: "spec_put v (map_option (take (unat len)) str) = (v1, b)" by fastforce
  have "\<exists>T'. put_post m0 s1 T A E s' off v1 b (map_option (take (unat len)) str) T'"
    if "span_sim m0 s1 T A E v" "otel_arena_putn s1 str len = (s', off)" for s1 s' off
    using putn_sim[OF that(1) _ that(2) p] ok ArgStrn by auto
  note sm = fill_string_sim[where put = "\<lambda>s. otel_arena_putn s str len", OF sim a pl this]
  have "v' = v1" "x = VStr (if b then c_str (the (map_option (take (unat len)) str)) else [])"
    using spec p ArgStrn by auto
  with sm show ?thesis
    by (simp add: ArgStrn attr_fill_strn_def)
next
  case (ArgI64 n)
  note 1 = heap_attr_stores(4)[OF span_simD(1)[OF sim] a, of OTEL_ATTR_I64]
  have 2: "span_heap m0 (s\<lparr>sp_arena := store64 (store8 (sp_arena s) (a + 6) OTEL_ATTR_I64) (a + 8) n\<rparr>)
      (T(a \<mapsto> BAttr ((fresh_attr koff raw)\<lparr>at_type := OTEL_ATTR_I64, at_v := le_bytes 8 n\<rparr>)))"
    using heap_attr_stores(5)[OF 1 fun_upd_same, of n]
    by (simp add: fun_upd_def cong: if_cong)
  show ?thesis
    using fill_two_stores[OF sim a pl 2] spec ArgI64
    by (auto simp: attr_fill_i64_def Let_def fresh_attr_def rec_value_def of_le_le_bytes)
next
  case (ArgU64 n)
  note 1 = heap_attr_stores(4)[OF span_simD(1)[OF sim] a, of OTEL_ATTR_U64]
  have 2: "span_heap m0 (s\<lparr>sp_arena := store64 (store8 (sp_arena s) (a + 6) OTEL_ATTR_U64) (a + 8) n\<rparr>)
      (T(a \<mapsto> BAttr ((fresh_attr koff raw)\<lparr>at_type := OTEL_ATTR_U64, at_v := le_bytes 8 n\<rparr>)))"
    using heap_attr_stores(5)[OF 1 fun_upd_same, of n]
    by (simp add: fun_upd_def cong: if_cong)
  show ?thesis
    using fill_two_stores[OF sim a pl 2] spec ArgU64
    by (auto simp: attr_fill_u64_def Let_def fresh_attr_def rec_value_def of_le_le_bytes)
next
  case (ArgBool n)
  note 1 = heap_attr_stores(4)[OF span_simD(1)[OF sim] a, of OTEL_ATTR_BOOL]
  have 2: "span_heap m0 (s\<lparr>sp_arena := store32 (store8 (sp_arena s) (a + 6) OTEL_ATTR_BOOL) (a + 8) (if n \<noteq> 0 then 1 else 0)\<rparr>)
      (T(a \<mapsto> BAttr ((fresh_attr koff raw)\<lparr>at_type := OTEL_ATTR_BOOL, at_v := le_bytes 4 (if n \<noteq> 0 then 1 else 0 :: u32) @ drop 4 raw\<rparr>)))"
    using heap_attr_stores(6)[OF 1 fun_upd_same, where x = "if n \<noteq> 0 then 1 else 0"]
    by (simp add: fresh_attr_def fun_upd_def cong: if_cong)
  show ?thesis
    using fill_two_stores[OF sim a pl 2] spec ArgBool
    by (auto simp: attr_fill_bool_def Let_def fresh_attr_def rec_value_def of_le_le_bytes)
qed

subsection \<open>A whole attribute\<close>

lemma spec_value_place:
  "spec_value (place_upd pl f v) arg = (place_upd pl f (fst (spec_value v arg)), snd (spec_value v arg))"
  by (cases pl; cases arg) (auto simp: spec_put_def spec_reserve_def Let_def split: option.splits prod.splits)

lemma spec_value_events [simp]: "vw_events (fst (spec_value v arg)) = vw_events v"
  by (cases arg) (auto simp: spec_put_def spec_reserve_def Let_def split: option.splits prod.splits)

lemma place_set_last:
  assumes "\<And>i. pl = OfEvent i \<Longrightarrow> i < length (vw_events v)"
  shows "place_upd pl (set_last x) (place_upd pl (\<lambda>xs. xs @ [(k, y)]) v) = place_upd pl (\<lambda>xs. xs @ [(k, x)]) v"
  using assms by (cases pl) (auto simp: set_last_def)

text \<open>What the allocating part of an attribute call leaves behind; \<open>ok\<close> when the key and
  the record fitted.\<close>

definition attr_post :: "mem \<Rightarrow> nat list \<Rightarrow> attr_place \<Rightarrow> span_view \<Rightarrow> bool \<Rightarrow> byte list \<Rightarrow>
    otel_span \<times> nat option \<Rightarrow> bool" where
  "attr_post m0 es pl v ok key sh \<longleftrightarrow>
     (if ok then \<exists>a T A E koff raw. snd sh = Some a \<and>
             span_sim m0 (fst sh) T A E (place_upd pl (\<lambda>xs. xs @ [(key, VStr [])]) v) \<and>
             ends pl A E a \<and> T a = Some (BAttr (fresh_attr koff raw)) \<and> map fst E = es
      else snd sh = None \<and> (\<exists>T A E. span_sim m0 (fst sh) T A E (place_drop pl v) \<and> map fst E = es))"

lemma attr_post_drop:
  "span_sim m0 s T A E (place_drop pl v) \<Longrightarrow> map fst E = es \<Longrightarrow> attr_post m0 es pl v False key (s, None)"
  unfolding attr_post_def by auto

lemma attr_post_new:
  "span_sim m0 s T A E (place_upd pl (\<lambda>xs. xs @ [(key, VStr [])]) v) \<Longrightarrow> ends pl A E a \<Longrightarrow>
   T a = Some (BAttr (fresh_attr koff raw)) \<Longrightarrow> map fst E = es \<Longrightarrow> attr_post m0 es pl v True key (s, Some a)"
  by (simp only: attr_post_def if_True fst_conv snd_conv) blast

lemma fill_handle_sim:
  assumes post: "attr_post m0 es pl v ok (c_str k) sh" and arg: "arg_ok arg"
  shows "\<exists>T A E. span_sim m0 (fill_handle sh arg) T A E
     (if ok then let (v, x) = spec_value v arg in place_upd pl (\<lambda>xs. xs @ [(c_str k, x)]) v
      else place_drop pl v) \<and> map fst E = es"
proof (cases ok)
  case True
  then obtain a T A E koff raw where h: "snd sh = Some a"
    and sim: "span_sim m0 (fst sh) T A E (place_upd pl (\<lambda>xs. xs @ [(c_str k, VStr [])]) v)"
    and pl: "ends pl A E a" and a: "T a = Some (BAttr (fresh_attr koff raw))" and es: "map fst E = es"
    using post by (auto simp: attr_post_def)
  obtain v' x where sp: "spec_value v arg = (v', x)" by fastforce
  then have ev: "vw_events v' = vw_events v"
    by (metis fst_conv spec_value_events)
  obtain T' where "span_sim m0 (attr_fill (fst sh) a arg) T' A E
      (place_upd pl (set_last x) (place_upd pl (\<lambda>xs. xs @ [(c_str k, VStr [])]) v'))"
    using fill_sim[OF sim a pl arg] sp by (fastforce simp: spec_value_place)
  moreover have "length (vw_events v) = length E"
    using span_simD(3)[OF sim] by (cases pl) (auto simp: view_of_def dest: arg_cong[where f = "\<lambda>v. length (vw_events v)"])
  then have "pl = OfEvent i \<Longrightarrow> i < length (vw_events v')" for i
    using pl ev by auto
  ultimately show ?thesis
    using True h sp es by (cases sh) (auto simp: fill_handle_def place_set_last)
next
  case False
  then show ?thesis
    using post by (cases sh) (auto simp: attr_post_def fill_handle_def)
qed

lemma put_then_alloc:
  assumes sim: "span_sim m0 s T A E v" and key: "str_arg_ok str" and n: "n < 2 ^ 63"
    and put: "otel_arena_put s str = (s1, koff)" and al: "otel_arena_alloc s1 (of_nat n) = (s2, roff)"
    and sp: "spec_put v (map_option c_str str) = (v1, k)" "spec_reserve v1 n = (v2, r)"
  obtains T1 where "span_sim m0 s1 T1 A E v1" "span_sim m0 s2 T1 A E v2" "str_ref T1 koff"
    "str_val T1 koff = (if k then c_str (the str) else [])" "koff \<noteq> OTEL_NIL \<longleftrightarrow> k" "roff \<noteq> OTEL_NIL \<longleftrightarrow> r"
    "r \<Longrightarrow> fits s1 n \<and> s2 = bump s1 n \<and> roff = sp_arena_used s1 \<and> v2 = v1\<lparr>vw_used := vw_used v1 + round8 n\<rparr>"
proof -
  from put_sim[OF sim key put sp(1)] obtain T1 where
    "put_post m0 s T A E s1 koff v1 k (map_option c_str str) T1" .
  then have p: "span_sim m0 s1 T1 A E v1" "koff \<noteq> OTEL_NIL \<longleftrightarrow> k" "str_ref T1 koff"
    "str_val T1 koff = (if k then c_str (the (map_option c_str str)) else [])"
    by (auto simp: put_post_def)
  have "k \<Longrightarrow> str \<noteq> None"
    using sp(1) by (cases str) (auto simp: spec_put_def)
  then have "str_val T1 koff = (if k then c_str (the str) else [])"
    using p(4) by auto
  with p alloc_sim[OF p(1) n al sp(2)] sp(2) show ?thesis
    by (intro that[of T1]) (auto simp: spec_reserve_def split: if_splits)
qed

lemma sim_span_drop:
  assumes sim: "span_sim m0 s T A E v"
  shows "span_sim m0 (if sp_dropped_attrs s < 255 then s\<lparr>sp_dropped_attrs := sp_dropped_attrs s + 1\<rparr> else s)
      T A E (place_drop OfSpan v)"
    and "span_sim m0 (if sp_dropped_events s < 255 then s\<lparr>sp_dropped_events := sp_dropped_events s + 1\<rparr> else s)
      T A E (v\<lparr>vw_dropped_events := count_drop (vw_dropped_events v)\<rparr>)"
  using sim by (auto simp: span_sim_def span_heap_def span_rep_def view_of_def count_drop_def word_less_nat_alt unat_inc8)

lemma span_attr_internal_sim:
  assumes sim: "span_sim m0 s T A E v" and rec: "otel_span_recording s" and key: "str_arg_ok key"
    and sp: "spec_put v (map_option c_str key) = (v1, k)" "spec_reserve v1 16 = (v2, r)"
  shows "attr_post m0 (map fst E) OfSpan v2 (k \<and> r) (c_str (the key)) (otel_span_attr_internal s key)"
proof -
  obtain s1 koff where put: "otel_arena_put s key = (s1, koff)" by fastforce
  obtain s2 roff where al: "otel_arena_alloc s1 (of_nat 16) = (s2, roff)" by fastforce
  obtain T1 where 1: "span_sim m0 s1 T1 A E v1" "span_sim m0 s2 T1 A E v2" "str_ref T1 koff"
    "str_val T1 koff = (if k then c_str (the key) else [])" "koff \<noteq> OTEL_NIL \<longleftrightarrow> k" "roff \<noteq> OTEL_NIL \<longleftrightarrow> r"
    "r \<Longrightarrow> fits s1 16 \<and> s2 = bump s1 16 \<and> roff = sp_arena_used s1 \<and> v2 = v1\<lparr>vw_used := vw_used v1 + round8 16\<rparr>"
    by (rule put_then_alloc[OF sim key _ put al sp]) auto
  show ?thesis
  proof (cases "k \<and> r")
    case True
    then have fit: "fits s1 16" and eqs: "s2 = bump s1 16" "roff = sp_arena_used s1"
      "v2 = v1\<lparr>vw_used := vw_used v1 + round8 16\<rparr>"
      using 1(7) by auto
    from span_attr_link_sim[OF 1(1) fit 1(3)] obtain T' raw where
      "span_sim m0 (span_attr_link (bump s1 16) koff (sp_arena_used s1)) T' (A @ [unat (sp_arena_used s1)]) E
        (place_upd OfSpan (\<lambda>xs. xs @ [(str_val T1 koff, VStr [])]) (v1\<lparr>vw_used := vw_used v1 + round8 16\<rparr>))"
      "T' (unat (sp_arena_used s1)) = Some (BAttr (fresh_attr koff raw))" by blast
    then have "attr_post m0 (map fst E) OfSpan v2 True (c_str (the key))
        (span_attr_link s2 koff roff, Some (unat roff))"
      using 1(4) True eqs by (auto intro: attr_post_new)
    then show ?thesis
      using True 1(5,6) rec put al by (simp add: otel_span_attr_internal_def)
  next
    case False
    then have "attr_post m0 (map fst E) OfSpan v2 False (c_str (the key))
       (if sp_dropped_attrs s2 < 255 then s2\<lparr>sp_dropped_attrs := sp_dropped_attrs s2 + 1\<rparr> else s2, None)"
      by (intro attr_post_drop[OF sim_span_drop(1)[OF 1(2)]] refl)
    then show ?thesis
      using False 1(5,6) rec put al by (auto simp: otel_span_attr_internal_def)
  qed
qed

subsection \<open>Attributes of an event\<close>

lemma sim_event_drop:
  assumes sim: "span_sim m0 s T A E v" and i: "i < length E" "fst (E ! i) = e"
  defines "r \<equiv> event_at (sp_arena s) e"
  shows "\<exists>T'. span_sim m0 (if ev_dropped_attrs r < 255
      then s\<lparr>sp_arena := store8 (sp_arena s) (e + 9) (ev_dropped_attrs r + 1)\<rparr> else s)
    T' A E (place_drop (OfEvent i) v)"
proof -
  note heap = span_simD(1)[OF sim] and rep = span_simD(2)[OF sim]
  have "event_ok T (E ! i)"
    using rep i(1) by (simp add: span_rep_def)
  then obtain q where q: "T e = Some (BEvent q)"
    using i(2) by (auto simp: event_ok_def)
  have r: "r = q"
    using span_heap_at(2)[OF heap q] by (simp add: r_def)
  have vi: "evw_dropped (vw_events v ! i) = unat (ev_dropped_attrs r)"
    using span_simD(3)[OF sim] i q r by (auto simp: view_of_def event_of_def)
  have len: "length (vw_events v) = length E"
    using span_simD(3)[OF sim] by (auto simp: view_of_def)
  show ?thesis
  proof (cases "ev_dropped_attrs r < 255")
    case False
    then have "count_drop (unat (ev_dropped_attrs r)) = unat (ev_dropped_attrs r)"
      by (simp add: count_drop_def word_less_nat_alt)
    then have "place_drop (OfEvent i) v = v"
      using vi by (cases v) (simp add: list_update_same_conv flip: vi)
    then show ?thesis
      using False sim by auto
  next
    case True
    define q' where "q' = q\<lparr>ev_dropped_attrs := ev_dropped_attrs q + 1\<rparr>"
    define T' where "T' = T(e \<mapsto> BEvent q')"
    define s' where "s' = s\<lparr>sp_arena := store8 (sp_arena s) (e + 9) (ev_dropped_attrs r + 1)\<rparr>"
    have heap': "span_heap m0 s' T'"
      using heap_event_stores(6)[OF heap q] by (simp add: s'_def T'_def q'_def r)
    note ind = event_update_indep[where T = T and r' = q', OF q, folded T'_def]
    have nx: "event_nx T' = event_nx T"
      by (rule ind(6)) (simp add: q'_def)
    have ok: "event_ok T' = event_ok T"
      unfolding fun_eq_iff event_ok_def ind using q by (auto simp: T'_def q'_def)
    have rep': "span_rep s' T' A E"
      using rep unfolding span_rep_def ind nx ok s'_def by simp
    have evs: "map (event_of T') E = (map (event_of T) E)[i := (event_of T (E ! i))
        \<lparr>evw_dropped := count_drop (evw_dropped (event_of T (E ! i)))\<rparr>]"
    proof (rule nth_equalityI)
      fix j assume "j < length (map (event_of T') E)"
      then have j: "j < length E" by simp
      show "map (event_of T') E ! j = (map (event_of T) E)[i := (event_of T (E ! i))
        \<lparr>evw_dropped := count_drop (evw_dropped (event_of T (E ! i)))\<rparr>] ! j"
      proof (cases "j = i")
        case jt: True
        then show ?thesis
          using i q True r unfolding event_of_def ind
          by (simp add: T'_def q'_def count_drop_def word_less_nat_alt unat_inc8)
      next
        case False
        have "distinct (map fst E)"
          using rep by (simp add: span_rep_def)
        then have "fst (E ! j) \<noteq> e"
          using False i j by (auto simp: distinct_conv_nth)
        then have "event_of T' (E ! j) = event_of T (E ! j)"
          unfolding event_of_def ind by (simp add: T'_def)
        then show ?thesis using False j by simp
      qed
    qed simp
    have "view_of s' T' A E = place_drop (OfEvent i) v"
      using i(1) by (simp add: view_of_def ind evs s'_def flip: span_simD(3)[OF sim])
    then have "span_sim m0 s' T' A E (place_drop (OfEvent i) v)"
      using heap' rep' by (simp add: span_sim_def)
    then show ?thesis
      using True unfolding s'_def by auto
  qed
qed

lemma event_attr_internal_sim:
  assumes sim: "span_sim m0 s T A E v" and i: "i < length E" "fst (E ! i) = e" and key: "str_arg_ok key"
    and sp: "spec_put v (map_option c_str key) = (v1, k)" "spec_reserve v1 16 = (v2, r)"
  shows "attr_post m0 (map fst E) (OfEvent i) v2 (k \<and> r) (c_str (the key))
    (otel_event_attr_internal s (Some e) key)"
proof -
  obtain s1 koff where put: "otel_arena_put s key = (s1, koff)" by fastforce
  obtain s2 roff where al: "otel_arena_alloc s1 (of_nat 16) = (s2, roff)" by fastforce
  obtain T1 where 1: "span_sim m0 s1 T1 A E v1" "span_sim m0 s2 T1 A E v2" "str_ref T1 koff"
    "str_val T1 koff = (if k then c_str (the key) else [])" "koff \<noteq> OTEL_NIL \<longleftrightarrow> k" "roff \<noteq> OTEL_NIL \<longleftrightarrow> r"
    "r \<Longrightarrow> fits s1 16 \<and> s2 = bump s1 16 \<and> roff = sp_arena_used s1 \<and> v2 = v1\<lparr>vw_used := vw_used v1 + round8 16\<rparr>"
    by (rule put_then_alloc[OF sim key _ put al sp]) auto
  show ?thesis
  proof (cases "k \<and> r")
    case True
    then have fit: "fits s1 16" and eqs: "s2 = bump s1 16" "roff = sp_arena_used s1"
      "v2 = v1\<lparr>vw_used := vw_used v1 + round8 16\<rparr>"
      using 1(7) by auto
    define E1 E2 as where "E1 = take i E" and "E2 = drop (Suc i) E" and "as = snd (E ! i)"
    have E: "E = E1 @ (e, as) # E2" "length E1 = i"
      using id_take_nth_drop[OF i(1)] i by (auto simp: E1_def E2_def as_def)
    let ?a = "unat (sp_arena_used s1)"
    from event_attr_link_sim[OF 1(1)[unfolded E(1)] fit 1(3)] obtain T' raw where
      "span_sim m0 (event_attr_link (bump s1 16) e koff (sp_arena_used s1)) T' A (E1 @ (e, as @ [?a]) # E2)
        (place_upd (OfEvent (length E1)) (\<lambda>xs. xs @ [(str_val T1 koff, VStr [])]) (v1\<lparr>vw_used := vw_used v1 + round8 16\<rparr>))"
      "T' ?a = Some (BAttr (fresh_attr koff raw))" by blast
    then have "attr_post m0 (map fst E) (OfEvent i) v2 True (c_str (the key))
        (event_attr_link s2 e koff roff, Some (unat roff))"
      using 1(4) True eqs E by (intro attr_post_new[where T = T' and A = A and E = "E1 @ (e, as @ [?a]) # E2"]) auto
    then show ?thesis
      using True 1(5,6) put al by (simp add: otel_event_attr_internal_def)
  next
    case False
    from sim_event_drop[OF 1(2) i] obtain T' where
      "span_sim m0 (if ev_dropped_attrs (event_at (sp_arena s2) e) < 255
        then s2\<lparr>sp_arena := store8 (sp_arena s2) (e + 9) (ev_dropped_attrs (event_at (sp_arena s2) e) + 1)\<rparr> else s2)
       T' A E (place_drop (OfEvent i) v2)" ..
    from attr_post_drop[OF this refl] show ?thesis
      using False 1(5,6) put al by (auto simp: otel_event_attr_internal_def Let_def)
  qed
qed

subsection \<open>Names, status and events\<close>

lemma sim_set_strings:
  assumes sim: "span_sim m0 s T A E v" and off: "str_ref T off"
  shows "span_sim m0 (s\<lparr>sp_name := off\<rparr>) T A E (v\<lparr>vw_name := str_val T off\<rparr>)"
    and "span_sim m0 (s\<lparr>sp_status_message := off\<rparr>) T A E (v\<lparr>vw_message := str_val T off\<rparr>)"
    and "span_sim m0 (s\<lparr>sp_status := b\<rparr>) T A E (v\<lparr>vw_status := b\<rparr>)"
  using sim off by (auto simp: span_sim_def span_heap_def span_rep_def view_of_def)

lemma put_sim_value:
  assumes sim: "span_sim m0 s T A E v" and ok: "str_arg_ok str"
    and run: "otel_arena_put s str = (s', off)" and spec: "spec_put v (map_option c_str str) = (v', b)"
  obtains T' where "span_sim m0 s' T' A E v'" "off \<noteq> OTEL_NIL \<longleftrightarrow> b" "str_ref T' off"
    "str_val T' off = (if b then c_str (the str) else [])"
proof -
  from put_sim[OF sim ok run spec] obtain T' where
    "put_post m0 s T A E s' off v' b (map_option c_str str) T'" .
  then show ?thesis
    using that[of T'] spec by (cases str) (auto simp: put_post_def spec_put_def)
qed

lemma set_name_sim:
  assumes sim: "span_sim m0 s T A E v" and rec: "otel_span_recording s" and ok: "str_arg_ok name"
  shows "\<exists>T'. span_sim m0 (otel_span_set_name s name) T' A E (fst (spec_call (v, ks) (CSetName name)))"
proof -
  obtain s' off where run: "otel_arena_put s name = (s', off)" by fastforce
  obtain v' b where sp: "spec_put v (map_option c_str name) = (v', b)" by fastforce
  from put_sim_value[OF sim ok run sp] obtain T' where 1: "span_sim m0 s' T' A E v'"
    "off \<noteq> OTEL_NIL \<longleftrightarrow> b" "str_ref T' off" "str_val T' off = (if b then c_str (the name) else [])" .
  then show ?thesis
    using sim_set_strings(1)[OF 1(1,3)] rec run sp by (auto simp: otel_span_set_name_def)
qed

lemma set_status_sim:
  assumes sim: "span_sim m0 s T A E v" and rec: "otel_span_recording s" and ok: "str_arg_ok msg"
  shows "\<exists>T'. span_sim m0 (otel_span_set_status s st msg) T' A E (fst (spec_call (v, ks) (CSetStatus st msg)))"
proof -
  obtain s' off where run: "otel_arena_put (s\<lparr>sp_status := st\<rparr>) msg = (s', off)" by fastforce
  obtain v' b where sp: "spec_put v (map_option c_str msg) = (v', b)" by fastforce
  have sp': "spec_put (v\<lparr>vw_status := st\<rparr>) (map_option c_str msg) = (v'\<lparr>vw_status := st\<rparr>, b)"
    using sp by (auto simp: spec_put_def spec_reserve_def split: option.splits if_splits)
  have sim': "span_sim m0 (s\<lparr>sp_status := st\<rparr>) T A E (v\<lparr>vw_status := st\<rparr>)"
    using sim by (auto simp: span_sim_def span_heap_def span_rep_def view_of_def)
  from put_sim_value[OF sim' ok run sp'] obtain T' where 1: "span_sim m0 s' T' A E (v'\<lparr>vw_status := st\<rparr>)"
    "off \<noteq> OTEL_NIL \<longleftrightarrow> b" "str_ref T' off" "str_val T' off = (if b then c_str (the msg) else [])" .
  show ?thesis
    using sim_set_strings(2)[OF 1(1,3)] 1(4) rec run sp by (auto simp: otel_span_set_status_def)
qed

lemma event_sim:
  assumes sim: "span_sim m0 s T A E v" and rec: "otel_span_recording s" and ok: "str_arg_ok name"
    and run: "otel_span_event s name now = (s', h)" and spec: "spec_event v name now = (v', k)"
  shows "(\<exists>T' e. span_sim m0 s' T' A (E @ [(e, [])]) v' \<and> h = Some e \<and> k = Some (length E)) \<or>
     (\<exists>T'. span_sim m0 s' T' A E v' \<and> h = None \<and> k = None)"
proof -
  obtain s1 noff where put: "otel_arena_put s name = (s1, noff)" by fastforce
  obtain s2 roff where al: "otel_arena_alloc s1 (of_nat 24) = (s2, roff)" by fastforce
  obtain v1 b where sp1: "spec_put v (map_option c_str name) = (v1, b)" by fastforce
  obtain v2 r where sp2: "spec_reserve v1 24 = (v2, r)" by fastforce
  obtain T1 where 1: "span_sim m0 s1 T1 A E v1" "span_sim m0 s2 T1 A E v2" "str_ref T1 noff"
    "str_val T1 noff = (if b then c_str (the name) else [])" "noff \<noteq> OTEL_NIL \<longleftrightarrow> b" "roff \<noteq> OTEL_NIL \<longleftrightarrow> r"
    "r \<Longrightarrow> fits s1 24 \<and> s2 = bump s1 24 \<and> roff = sp_arena_used s1 \<and> v2 = v1\<lparr>vw_used := vw_used v1 + round8 24\<rparr>"
    by (rule put_then_alloc[OF sim ok _ put al sp1 sp2]) auto
  show ?thesis
  proof (cases r)
    case True
    then have fit: "fits s1 24" and eqs: "s2 = bump s1 24" "roff = sp_arena_used s1"
      "v2 = v1\<lparr>vw_used := vw_used v1 + round8 24\<rparr>"
      using 1(7) by auto
    have len: "length (vw_events v1) = length E"
      using span_simD(3)[OF 1(1)] by (auto simp: view_of_def)
    have "s' = span_event_link s2 noff roff now" "h = Some (unat roff)"
      using True run rec put al 1(6) by (simp_all add: otel_span_event_def otel_span_event_slow_def)
    with span_event_link_sim[OF 1(1) fit 1(3), of now] show ?thesis
      using spec True sp1 sp2 1(4) eqs len by (fastforce simp: spec_event_def)
  next
    case False
    then show ?thesis
      using sim_span_drop(2)[OF 1(2)] run rec put al 1(6) spec sp1 sp2
      by (auto simp: otel_span_event_def otel_span_event_slow_def spec_event_def)
  qed
qed

end
