(* ===== verification/Otel_Span_Props.thy ===== *)
theory Otel_Span_Props
  imports Otel_Span_Calls "HOL-Library.Sublist"
begin

text \<open>
  What the span operations promise, for every sequence of calls: the refinement of the
  specification, memory safety of the arena, how many records a span holds, that the
  counters never wrap, that identity and times are left alone, and that an unsampled span
  is inert.
\<close>

subsection \<open>Identity and times\<close>

text \<open>The fields that a client reads to propagate or export the span's identity.\<close>

definition span_meta :: "otel_span \<Rightarrow> byte list \<times> u64 \<times> u64 \<times> u64 \<times> u64 \<times> byte \<times> byte" where
  "span_meta s = (sp_trace_id s, sp_span_id s, sp_parent_id s, sp_start_unix_ns s, sp_end_unix_ns s,
     sp_kind s, sp_flags s)"

named_theorems meta_simps \<open>operations that keep the identity of a span\<close>

lemma meta_fields [meta_simps]:
  "span_meta (s\<lparr>sp_arena := m\<rparr>) = span_meta s" "span_meta (s\<lparr>sp_arena_used := u\<rparr>) = span_meta s"
  "span_meta (s\<lparr>sp_name := o1\<rparr>) = span_meta s" "span_meta (s\<lparr>sp_status := b\<rparr>) = span_meta s"
  "span_meta (s\<lparr>sp_status_message := o1\<rparr>) = span_meta s" "span_meta (s\<lparr>sp_attr_head := o1\<rparr>) = span_meta s"
  "span_meta (s\<lparr>sp_attr_tail := o1\<rparr>) = span_meta s" "span_meta (s\<lparr>sp_num_attrs := o1\<rparr>) = span_meta s"
  "span_meta (s\<lparr>sp_event_head := o1\<rparr>) = span_meta s" "span_meta (s\<lparr>sp_event_tail := o1\<rparr>) = span_meta s"
  "span_meta (s\<lparr>sp_num_events := o1\<rparr>) = span_meta s" "span_meta (s\<lparr>sp_dropped_attrs := b\<rparr>) = span_meta s"
  "span_meta (s\<lparr>sp_dropped_events := b\<rparr>) = span_meta s"
  by (simp_all add: span_meta_def)

lemma meta_arena [meta_simps]:
  "span_meta (fst (otel_arena_alloc s n)) = span_meta s"
  "span_meta (fst (otel_arena_putn s str len)) = span_meta s"
  "span_meta (fst (otel_arena_put s str)) = span_meta s"
proof -
  show a: "span_meta (fst (otel_arena_alloc s n)) = span_meta s" for s n
    by (simp add: otel_arena_alloc_def Let_def meta_simps)
  show pn: "span_meta (fst (otel_arena_putn s str len)) = span_meta s" for s str len
    using a[of s "len + 1"] by (auto simp: otel_arena_putn_def Let_def meta_simps split: option.splits prod.splits)
  show "span_meta (fst (otel_arena_put s str)) = span_meta s"
    by (simp add: otel_arena_put_def pn split: option.splits)
qed

lemma meta_arena_eq:
  "otel_arena_alloc s n = (s', off) \<Longrightarrow> span_meta s' = span_meta s"
  "otel_arena_putn s str len = (s', off) \<Longrightarrow> span_meta s' = span_meta s"
  "otel_arena_put s str = (s', off) \<Longrightarrow> span_meta s' = span_meta s"
  using meta_arena by (metis fst_conv)+

lemma meta_links [meta_simps]:
  "span_meta (span_attr_link s o1 o2) = span_meta s" "span_meta (span_event_link s o1 o2 now) = span_meta s"
  "span_meta (event_attr_link s e o1 o2) = span_meta s"
  by (simp_all add: span_attr_link_def span_event_link_def event_attr_link_def Let_def meta_simps)

lemma meta_fill [meta_simps]: "span_meta (attr_fill s a arg) = span_meta s"
  by (cases arg) (auto simp: attr_fill_str_def attr_fill_strn_def attr_fill_i64_def attr_fill_u64_def
      attr_fill_bool_def Let_def meta_simps split: prod.splits dest!: meta_arena_eq)

lemma meta_attr [meta_simps]: "span_meta (fst (otel_span_attr_internal s key)) = span_meta s"
  by (auto simp: otel_span_attr_internal_def Let_def meta_simps split: prod.splits dest!: meta_arena_eq)

lemma meta_event_attr [meta_simps]: "span_meta (fst (otel_event_attr_internal s e key)) = span_meta s"
  by (auto simp: otel_event_attr_internal_def Let_def meta_simps split: prod.splits option.splits
      dest!: meta_arena_eq)

lemma meta_event [meta_simps]: "span_meta (fst (otel_span_event s name now)) = span_meta s"
  by (auto simp: otel_span_event_def otel_span_event_slow_def Let_def meta_simps split: prod.splits
      dest!: meta_arena_eq)

lemma meta_fill_handle [meta_simps]: "span_meta (fill_handle sh arg) = span_meta (fst sh)"
  by (cases sh) (simp add: fill_handle_def meta_simps split: option.splits)

lemma meta_ops_eq:
  "otel_span_event s name now = (s', h) \<Longrightarrow> span_meta s' = span_meta s"
  "otel_span_attr_internal s key = (s', h) \<Longrightarrow> span_meta s' = span_meta s"
  "otel_event_attr_internal s e key = (s', h) \<Longrightarrow> span_meta s' = span_meta s"
  using meta_event meta_attr meta_event_attr by (metis fst_conv)+

lemma meta_exec: "span_meta (fst (exec_call (s, hs) c)) = span_meta s"
  by (cases c) (auto simp: span_attr_call_fill event_attr_call_fill otel_span_set_name_def
      otel_span_set_status_def Let_def meta_simps split: prod.splits dest!: meta_arena_eq meta_ops_eq)

subsection \<open>The simulation\<close>

definition span_run :: "otel_span \<Rightarrow> span_call list \<Rightarrow> otel_span \<times> nat option list" where
  "span_run s calls = foldl exec_call (s, []) calls"

definition spec_run :: "span_view \<Rightarrow> span_call list \<Rightarrow> span_view \<times> nat option list" where
  "spec_run v calls = foldl spec_call (v, []) calls"

definition handle_rel :: "nat list \<Rightarrow> nat option \<Rightarrow> nat option \<Rightarrow> bool" where
  "handle_rel es h k \<longleftrightarrow> (case (h, k) of (None, None) \<Rightarrow> True
     | (Some e, Some i) \<Rightarrow> i < length es \<and> es ! i = e | _ \<Rightarrow> False)"

definition run_sim :: "mem \<Rightarrow> otel_span \<times> nat option list \<Rightarrow> span_view \<times> nat option list \<Rightarrow> bool" where
  "run_sim m0 sh vk \<longleftrightarrow> otel_span_recording (fst sh) \<and>
     (\<exists>T A E. span_sim m0 (fst sh) T A E (fst vk) \<and> list_all2 (handle_rel (map fst E)) (snd sh) (snd vk))"

lemma run_simI:
  "otel_span_recording s \<Longrightarrow> span_sim m0 s T A E v \<Longrightarrow> list_all2 (handle_rel (map fst E)) hs ks \<Longrightarrow>
   run_sim m0 (s, hs) (v, ks)"
  by (auto simp: run_sim_def)

lemma handle_rel_append: "handle_rel es h k \<Longrightarrow> handle_rel (es @ es') h k"
  by (auto simp: handle_rel_def nth_append split: option.splits)

lemma nth_handle_rel:
  assumes "list_all2 (handle_rel es) hs ks"
  shows "handle_rel es (nth_handle hs j) (nth_handle ks j)"
  using assms by (auto simp: nth_handle_def list_all2_conv_all_nth handle_rel_def)

lemma recording_meta: "span_meta s' = span_meta s \<Longrightarrow> otel_span_recording s' = otel_span_recording s"
  by (simp add: span_meta_def otel_span_recording_def)

lemma attr_call_sim:
  assumes sim: "span_sim m0 s T A E v" and rec: "otel_span_recording s"
    and key: "str_arg_ok key" and arg: "arg_ok arg"
  shows "\<exists>T A E'. span_sim m0 (span_attr_call s key arg) T A E' (spec_attr OfSpan v key arg) \<and> map fst E' = map fst E"
    and "i < length E \<Longrightarrow> \<exists>T A E'. span_sim m0 (event_attr_call s (Some (fst (E ! i))) key arg) T A E'
      (spec_attr (OfEvent i) v key arg) \<and> map fst E' = map fst E"
proof -
  obtain v1 k where sp1: "spec_put v (map_option c_str key) = (v1, k)" by fastforce
  obtain v2 r where sp2: "spec_reserve v1 16 = (v2, r)" by fastforce
  have spec: "spec_attr pl v key arg =
     (if k \<and> r then let (v, x) = spec_value v2 arg in place_upd pl (\<lambda>xs. xs @ [(c_str (the key), x)]) v
      else place_drop pl v2)" for pl
    by (simp add: spec_attr_def sp1 sp2)
  show "\<exists>T A E'. span_sim m0 (span_attr_call s key arg) T A E' (spec_attr OfSpan v key arg) \<and> map fst E' = map fst E"
    unfolding spec span_attr_call_fill
    by (rule fill_handle_sim[OF span_attr_internal_sim[OF sim rec key sp1 sp2] arg])
  show "\<exists>T A E'. span_sim m0 (event_attr_call s (Some (fst (E ! i))) key arg) T A E'
      (spec_attr (OfEvent i) v key arg) \<and> map fst E' = map fst E" if "i < length E"
    unfolding spec event_attr_call_fill
    by (rule fill_handle_sim[OF event_attr_internal_sim[OF sim that refl key sp1 sp2] arg])
qed

lemma exec_call_sim:
  assumes "run_sim m0 (s, hs) (v, ks)" and ok: "call_ok c"
  shows "run_sim m0 (exec_call (s, hs) c) (spec_call (v, ks) c)"
proof -
  from assms(1) obtain T A E where rec: "otel_span_recording s" and sim: "span_sim m0 s T A E v"
    and hk: "list_all2 (handle_rel (map fst E)) hs ks"
    by (auto simp: run_sim_def)
  have rec': "otel_span_recording (fst (exec_call (s, hs) c))"
    using rec recording_meta[OF meta_exec] by blast
  show ?thesis
  proof (cases c)
    case (CSetName name)
    obtain T' where "span_sim m0 (otel_span_set_name s name) T' A E (fst (spec_call (v, ks) c))"
      using set_name_sim[OF sim rec, of name ks] ok CSetName by auto
    then show ?thesis
      using CSetName rec' hk by (auto intro!: run_simI split: prod.splits)
  next
    case (CSetStatus st msg)
    obtain T' where "span_sim m0 (otel_span_set_status s st msg) T' A E (fst (spec_call (v, ks) c))"
      using set_status_sim[OF sim rec, of msg st ks] ok CSetStatus by auto
    then show ?thesis
      using CSetStatus rec' hk by (auto intro!: run_simI split: prod.splits)
  next
    case (CAttr key arg)
    then obtain T A E' where "span_sim m0 (span_attr_call s key arg) T A E' (spec_attr OfSpan v key arg)"
      "map fst E' = map fst E"
      using attr_call_sim(1)[OF sim rec, of key arg] ok by auto
    then show ?thesis
      using CAttr rec' hk by (auto intro!: run_simI)
  next
    case (CEvent name now)
    obtain s' h where run: "otel_span_event s name now = (s', h)" by fastforce
    obtain v' k where sp: "spec_event v name now = (v', k)" by fastforce
    have mono: "list_all2 (handle_rel (map fst E @ es)) hs ks" for es
      using hk handle_rel_append by (rule list_all2_mono)
    have "str_arg_ok name"
      using ok CEvent by simp
    from event_sim[OF sim rec this run sp] show ?thesis
    proof (elim disjE exE conjE)
      fix T' e assume "span_sim m0 s' T' A (E @ [(e, [])]) v'" "h = Some e" "k = Some (length E)"
      moreover have "list_all2 (handle_rel (map fst (E @ [(e, [])]))) (hs @ [Some e]) (ks @ [Some (length E)])"
        using mono[of "[e]"] by (auto intro!: list_all2_appendI simp: handle_rel_def nth_append)
      ultimately show ?thesis
        using CEvent run sp rec' by (auto intro!: run_simI)
    next
      fix T' assume "span_sim m0 s' T' A E v'" "h = None" "k = None"
      moreover have "list_all2 (handle_rel (map fst E)) (hs @ [None]) (ks @ [None])"
        using hk by (auto intro!: list_all2_appendI simp: handle_rel_def)
      ultimately show ?thesis
        using CEvent run sp rec' by (auto intro!: run_simI)
    qed
  next
    case (CEventAttr j key arg)
    note hr = nth_handle_rel[OF hk, of j]
    show ?thesis
    proof (cases "nth_handle ks j")
      case None
      then have "nth_handle hs j = None"
        using hr by (auto simp: handle_rel_def split: option.splits)
      then show ?thesis
        using None CEventAttr sim hk rec
        by (auto intro!: run_simI simp: event_attr_call_fill fill_handle_def otel_event_attr_internal_def)
    next
      case (Some i)
      then have i: "i < length E" "nth_handle hs j = Some (fst (E ! i))"
        using hr by (auto simp: handle_rel_def split: option.splits)
      obtain T A E' where "span_sim m0 (event_attr_call s (Some (fst (E ! i))) key arg) T A E'
          (spec_attr (OfEvent i) v key arg)" "map fst E' = map fst E"
        using attr_call_sim(2)[OF sim rec _ _ i(1), of key arg] ok CEventAttr by auto
      then show ?thesis
        using Some CEventAttr rec' hk i by (auto intro!: run_simI)
    qed
  qed
qed

lemma init_sim:
  assumes "str_arg_ok name"
  shows "run_sim (sp_arena s) (otel_span_init s name kind now, []) (spec_init name, [])"
proof -
  define s0 where "s0 = s\<lparr>sp_kind := kind, sp_status := OTEL_STATUS_UNSET, sp_status_message := OTEL_NIL,
     sp_num_attrs := 0, sp_num_events := 0, sp_dropped_attrs := 0, sp_dropped_events := 0, sp_end_unix_ns := 0,
     sp_start_unix_ns := now, sp_flags := OTEL_FLAG_RECORDING, sp_arena_used := 0, sp_attr_head := OTEL_NIL,
     sp_attr_tail := OTEL_NIL, sp_event_head := OTEL_NIL, sp_event_tail := OTEL_NIL, sp_name := OTEL_NIL\<rparr>"
  let ?v = "\<lparr>vw_name = [], vw_status = OTEL_STATUS_UNSET, vw_message = [], vw_attrs = [],
     vw_events = [], vw_dropped_attrs = 0, vw_dropped_events = 0, vw_used = 0\<rparr>"
  have sim0: "span_sim (sp_arena s) s0 Map.empty [] [] ?v"
    by (simp add: span_sim_def span_heap_def heap_ok_def span_rep_def view_of_def s0_def str_ref_def
        str_val_def tail_off_def all_attrs_def)
  obtain s' off where run: "otel_arena_put s0 name = (s', off)" by fastforce
  obtain v' b where sp: "spec_put ?v (map_option c_str name) = (v', b)" by fastforce
  from put_sim_value[OF sim0 assms run sp] obtain T' where 1: "span_sim (sp_arena s) s' T' [] [] v'"
    "str_ref T' off" "str_val T' off = (if b then c_str (the name) else [])" .
  have indep: "otel_arena_put (s\<lparr>sp_name := o1\<rparr>) name =
     (let (s', off) = otel_arena_put s name in (s'\<lparr>sp_name := o1\<rparr>, off))" for s o1
    by (auto simp: otel_arena_put_def otel_arena_putn_def otel_arena_alloc_def Let_def split: option.splits)
  have "otel_span_init s name kind now = s'\<lparr>sp_name := off\<rparr>"
    using run unfolding s0_def indep by (auto simp: otel_span_init_def Let_def split: prod.splits)
  moreover have "sp_flags s' = OTEL_FLAG_RECORDING"
    using meta_arena_eq(3)[OF run] by (simp add: span_meta_def s0_def)
  ultimately show ?thesis
    using sim_set_strings(1)[OF 1(1,2)] 1(3) sp
    by (auto intro!: run_simI[where E = "[]"] simp: otel_span_recording_def spec_init_def)
qed

lemma foldl_sim:
  "run_sim m0 sh vk \<Longrightarrow> (\<And>c. c \<in> set calls \<Longrightarrow> call_ok c) \<Longrightarrow>
   run_sim m0 (foldl exec_call sh calls) (foldl spec_call vk calls)"
proof (induction calls arbitrary: sh vk)
  case (Cons c calls)
  then have "run_sim m0 (exec_call sh c) (spec_call vk c)"
    using exec_call_sim[of m0 "fst sh" "snd sh" "fst vk" "snd vk" c] by simp
  then show ?case
    using Cons.IH Cons.prems(2) by simp
qed simp

lemma run_refines:
  assumes "str_arg_ok name" and "\<And>c. c \<in> set calls \<Longrightarrow> call_ok c"
  shows "run_sim (sp_arena s) (span_run (otel_span_init s name kind now) calls) (spec_run (spec_init name) calls)"
  unfolding span_run_def spec_run_def using foldl_sim[OF init_sim[OF assms(1)] assms(2)] by blast

subsection \<open>Facts about the specification\<close>

lemma only_used:
  "spec_put v c = (v', k) \<Longrightarrow> \<exists>u. v' = v\<lparr>vw_used := u\<rparr>"
  "spec_reserve v n = (v', k) \<Longrightarrow> \<exists>u. v' = v\<lparr>vw_used := u\<rparr>"
  "spec_value v arg = (v', x) \<Longrightarrow> \<exists>u. v' = v\<lparr>vw_used := u\<rparr>"
proof -
  have same: "\<exists>u. v = v\<lparr>vw_used := u\<rparr>" for v :: span_view
    by (rule exI[of _ "vw_used v"]) simp
  show r: "spec_reserve v n = (v', k) \<Longrightarrow> \<exists>u. v' = v\<lparr>vw_used := u\<rparr>" for v n v' k
    using same by (auto simp: spec_reserve_def split: if_splits)
  show p: "spec_put v c = (v', k) \<Longrightarrow> \<exists>u. v' = v\<lparr>vw_used := u\<rparr>" for v c v' k
    using same r by (auto simp: spec_put_def split: option.splits)
  show "spec_value v arg = (v', x) \<Longrightarrow> \<exists>u. v' = v\<lparr>vw_used := u\<rparr>"
    using same p by (cases arg) (auto simp: Let_def split: prod.splits)
qed

lemma spec_attr_effect:
  "(\<exists>u k x. spec_attr pl v key arg = place_upd pl (\<lambda>xs. xs @ [(k, x)]) (v\<lparr>vw_used := u\<rparr>)) \<or>
   (\<exists>u. spec_attr pl v key arg = place_drop pl (v\<lparr>vw_used := u\<rparr>))"
proof -
  obtain v1 k where 1: "spec_put v (map_option c_str key) = (v1, k)" by fastforce
  obtain v2 r where 2: "spec_reserve v1 16 = (v2, r)" by fastforce
  obtain v3 x where 3: "spec_value v2 arg = (v3, x)" by fastforce
  from only_used(1)[OF 1] only_used(2)[OF 2] only_used(3)[OF 3]
  obtain u2 u3 where v2: "v2 = v\<lparr>vw_used := u2\<rparr>" and v3: "v3 = v\<lparr>vw_used := u3\<rparr>" by force
  have eq: "spec_attr pl v key arg = (if k \<and> r then place_upd pl (\<lambda>xs. xs @ [(c_str (the key), x)]) v3
      else place_drop pl v2)"
    by (simp add: spec_attr_def 1 2 3)
  show ?thesis
    unfolding eq v2 v3 by auto
qed

lemma spec_event_effect:
  "(\<exists>u w. spec_event v name now = (v\<lparr>vw_used := u, vw_events := vw_events v @ [w]\<rparr>, Some (length (vw_events v)))) \<or>
   (\<exists>u. spec_event v name now = (v\<lparr>vw_used := u, vw_dropped_events := count_drop (vw_dropped_events v)\<rparr>, None))"
proof -
  obtain v1 k where 1: "spec_put v (map_option c_str name) = (v1, k)" by fastforce
  obtain v2 r where 2: "spec_reserve v1 24 = (v2, r)" by fastforce
  from only_used(1)[OF 1] only_used(2)[OF 2] obtain u where "v2 = v\<lparr>vw_used := u\<rparr>" by force
  then show ?thesis
    by (auto simp: spec_event_def 1 2)
qed

text \<open>\<open>extends v v'\<close>: everything recorded in \<open>v\<close> is still there in \<open>v'\<close>, in place and
  unchanged.\<close>

definition extends :: "span_view \<Rightarrow> span_view \<Rightarrow> bool" where
  "extends v v' \<longleftrightarrow> prefix (vw_attrs v) (vw_attrs v') \<and> length (vw_events v) \<le> length (vw_events v') \<and>
     (\<forall>i < length (vw_events v). evw_name (vw_events v' ! i) = evw_name (vw_events v ! i) \<and>
        evw_time (vw_events v' ! i) = evw_time (vw_events v ! i) \<and>
        prefix (evw_attrs (vw_events v ! i)) (evw_attrs (vw_events v' ! i)))"

lemma extends_refl [simp]: "extends v v"
  by (simp add: extends_def)

lemma extends_trans: "extends a b \<Longrightarrow> extends b c \<Longrightarrow> extends a c"
  unfolding extends_def by (auto intro: prefix_order.trans dest: less_le_trans)

lemma extends_same: "vw_attrs v' = vw_attrs v \<Longrightarrow> vw_events v' = vw_events v \<Longrightarrow> extends v v'"
  by (simp add: extends_def)

lemma extends_event_upd:
  assumes "vw_attrs v' = vw_attrs v" and "vw_events v' = (vw_events v)[i := w]"
    and "evw_name w = evw_name (vw_events v ! i)" "evw_time w = evw_time (vw_events v ! i)"
    and "prefix (evw_attrs (vw_events v ! i)) (evw_attrs w)"
  shows "extends v v'"
proof -
  have "evw_name (vw_events v' ! j) = evw_name (vw_events v ! j) \<and>
        evw_time (vw_events v' ! j) = evw_time (vw_events v ! j) \<and>
        prefix (evw_attrs (vw_events v ! j)) (evw_attrs (vw_events v' ! j))" if "j < length (vw_events v)" for j
    using assms(2-5) that by (cases "j = i") auto
  then show ?thesis
    using assms(1,2) by (simp add: extends_def)
qed

lemma spec_attr_extends: "extends v (spec_attr pl v key arg)"
proof (cases pl)
  case OfSpan
  then show ?thesis
    using spec_attr_effect[of pl v key arg] by (auto simp: extends_def)
next
  case (OfEvent i)
  then show ?thesis
    using spec_attr_effect[of pl v key arg] by (auto intro!: extends_event_upd[where i = i])
qed

lemma spec_call_extends: "extends v (fst (spec_call (v, ks) c))"
proof (cases c)
  case (CEvent name now)
  then show ?thesis
    using spec_event_effect[of v name now] by (auto simp: extends_def nth_append)
next
  case (CEventAttr j key arg)
  then show ?thesis
    using spec_attr_extends by (simp split: option.splits)
qed (auto simp: spec_attr_extends split: prod.splits dest!: only_used(1) intro: extends_same)

lemma foldl_extends: "extends (fst vk) (fst (foldl spec_call vk calls))"
proof (induction calls arbitrary: vk)
  case (Cons c calls)
  then show ?case
    using extends_trans[OF spec_call_extends[of "fst vk" "snd vk" c]] by simp
qed simp

text \<open>\<open>tally\<close>: of \<open>n\<close> requests \<open>k\<close> were recorded and \<open>d\<close> counted as dropped; the count
  stops at 255.\<close>

definition tally :: "nat \<Rightarrow> nat \<Rightarrow> nat \<Rightarrow> bool" where
  "tally n k d \<longleftrightarrow> d \<le> 255 \<and> k + d \<le> n \<and> (k + d = n \<or> d = 255)"

lemma tally_steps:
  "tally n k d \<Longrightarrow> tally (Suc n) (Suc k) d" "tally n k d \<Longrightarrow> tally (Suc n) k (count_drop d)" "tally 0 0 0"
  by (auto simp: tally_def count_drop_def)

fun is_attr_call :: "span_call \<Rightarrow> bool" where
  "is_attr_call (CAttr key arg) = True" | "is_attr_call _ = False"

fun is_event_call :: "span_call \<Rightarrow> bool" where
  "is_event_call (CEvent name now) = True" | "is_event_call _ = False"

definition calls_tally :: "span_call list \<Rightarrow> span_view \<Rightarrow> bool" where
  "calls_tally calls v \<longleftrightarrow>
     tally (length (filter is_attr_call calls)) (length (vw_attrs v)) (vw_dropped_attrs v) \<and>
     tally (length (filter is_event_call calls)) (length (vw_events v)) (vw_dropped_events v)"

lemma spec_call_tally: "calls_tally calls v \<Longrightarrow> calls_tally (calls @ [c]) (fst (spec_call (v, ks) c))"
proof (cases c)
  case (CAttr key arg)
  moreover assume "calls_tally calls v"
  ultimately show ?thesis
    using spec_attr_effect[of OfSpan v key arg] by (auto simp: calls_tally_def tally_steps)
next
  case (CEvent name now)
  moreover assume "calls_tally calls v"
  ultimately show ?thesis
    using spec_event_effect[of v name now] by (auto simp: calls_tally_def tally_steps)
next
  case (CEventAttr j key arg)
  moreover have "calls_tally calls v \<Longrightarrow> calls_tally (calls @ [c]) (spec_attr (OfEvent i) v key arg)" for i
    using spec_attr_effect[of "OfEvent i" v key arg] CEventAttr by (auto simp: calls_tally_def)
  moreover assume "calls_tally calls v"
  ultimately show ?thesis
    by (auto simp: calls_tally_def split: option.splits)
qed (auto simp: calls_tally_def split: prod.splits dest!: only_used(1))

lemma spec_run_tally: "calls_tally calls (fst (spec_run (spec_init name) calls))"
proof (induction calls rule: rev_induct)
  case Nil
  show ?case
    by (auto simp: spec_run_def spec_init_def calls_tally_def tally_steps split: prod.splits dest!: only_used(1))
next
  case (snoc c calls)
  then show ?case
    using spec_call_tally[of calls "fst (spec_run (spec_init name) calls)" c "snd (spec_run (spec_init name) calls)"]
    by (simp add: spec_run_def)
qed

subsection \<open>Properties\<close>

lemma run_sim_final:
  assumes "str_arg_ok name" and "list_all call_ok calls"
  obtains T A E where "span_sim (sp_arena s) (fst (span_run (otel_span_init s name kind now) calls)) T A E
    (fst (spec_run (spec_init name) calls))"
  using run_refines[OF assms(1), of calls s kind now] assms(2) unfolding run_sim_def list_all_iff by auto

lemma run_view:
  assumes "str_arg_ok name" and "list_all call_ok calls"
  shows "span_view_of (fst (span_run (otel_span_init s name kind now) calls)) =
    Some (fst (spec_run (spec_init name) calls))"
  by (rule run_sim_final[OF assms]) (rule span_sim_view)

text \<open>What the exporter relies on: the walks of the span end in the view \<open>v\<close>, the counters are
  the lengths of the lists, and the record counts are bounded by the arena.\<close>

definition exportable :: "otel_span \<Rightarrow> span_view \<Rightarrow> bool" where
  "exportable s v \<longleftrightarrow> span_view_of s = Some v \<and> (\<exists>es. walk_events s (otel_event_first s) = Some es \<and>
      unat (sp_num_attrs s) = length (vw_attrs v) \<and> unat (sp_num_events s) = length (vw_events v) \<and>
      map (\<lambda>e. unat (ev_num_attrs (event_at (sp_arena s) e))) es = map (\<lambda>w. length (evw_attrs w)) (vw_events v) \<and>
      length (vw_attrs v) + sum_list (map (\<lambda>w. length (evw_attrs w)) (vw_events v)) \<le> 251 \<and>
      length (vw_events v) \<le> 167)"

lemma sim_exportable:
  assumes sim: "span_sim m0 s T A E v"
  shows "exportable s v"
proof -
  note heap = span_simD(1)[OF sim] and rep = span_simD(2)[OF sim] and v = span_simD(3)[OF sim, symmetric]
  have ev: "unat (ev_num_attrs (event_at (sp_arena s) (fst x))) = length (snd x)"
    "length (evw_attrs (event_of T x)) = length (snd x)" if "x \<in> set E" for x
  proof -
    have "event_ok T x"
      using rep that by (simp add: span_rep_def)
    then obtain r where "T (fst x) = Some (BEvent r)" "unat (ev_num_attrs r) = length (snd x)"
      by (auto simp: event_ok_def)
    then show "unat (ev_num_attrs (event_at (sp_arena s) (fst x))) = length (snd x)"
      "length (evw_attrs (event_of T x)) = length (snd x)"
      using span_heap_at(2)[OF heap] by (auto simp: event_of_def)
  qed
  have "sum_list (map (\<lambda>w. length (evw_attrs w)) (vw_events v)) = length (concat (map snd E))"
    using ev(2) by (auto simp: v view_of_def length_concat comp_def intro!: arg_cong[where f = sum_list])
  then have "length (vw_attrs v) + sum_list (map (\<lambda>w. length (evw_attrs w)) (vw_events v)) \<le> 251"
    using attrs_bound[OF heap rep] by (simp add: v view_of_def all_attrs_def)
  moreover have "length (vw_events v) \<le> 167"
    using events_bound[OF heap rep] by (simp add: v view_of_def)
  moreover have "unat (sp_num_attrs s) = length (vw_attrs v)" "unat (sp_num_events s) = length (vw_events v)"
    using rep by (auto simp: span_rep_def v view_of_def)
  moreover have "map (\<lambda>e. unat (ev_num_attrs (event_at (sp_arena s) e))) (map fst E) =
      map (\<lambda>w. length (evw_attrs w)) (vw_events v)"
    using ev by (simp add: v view_of_def)
  ultimately show ?thesis
    unfolding exportable_def using span_sim_view[OF sim] span_rep_walks(2)[OF heap rep] by blast
qed

definition zero_span :: otel_span where
  "zero_span = \<lparr>sp_trace_id = replicate 16 0, sp_span_id = 0, sp_parent_id = 0, sp_start_unix_ns = 0,
     sp_end_unix_ns = 0, sp_name = 0, sp_status_message = 0, sp_attr_head = 0, sp_attr_tail = 0,
     sp_event_head = 0, sp_event_tail = 0, sp_arena_used = 0, sp_num_attrs = 0, sp_num_events = 0,
     sp_kind = 0, sp_flags = 0, sp_status = 0, sp_dropped_attrs = 0, sp_dropped_events = 0,
     sp_arena = (\<lambda>_. 0)\<rparr>"

text \<open>A request for \<open>GET\<close> with an attribute and an event that carries one.\<close>

definition sample_calls :: "span_call list" where
  "sample_calls = [CAttr (Some [107]) (ArgI64 7), CEvent (Some [101]) 5,
     CEventAttr 0 (Some [120]) (ArgStr (Some [121, 0, 122]))]"

definition sample_name :: c_string where
  "sample_name = Some [71, 69, 84]"

lemma sample_ok [simp]: "str_arg_ok sample_name" "list_all call_ok sample_calls"
  by (simp_all add: sample_name_def sample_calls_def str_arg_ok_def)

lemmas sample_eval = sample_name_def sample_calls_def spec_run_def spec_init_def spec_put_def
  spec_reserve_def spec_attr_def spec_event_def nth_handle_def c_str_def round8_def Let_def

text \<open>C3: whatever a client records on a sampled span, a consumer that walks the finished
  span reads exactly what the specification says: the attributes in order with their keys
  and values, the events in order with their times and attributes, the name and status,
  and the numbers of dropped records.  The walks end.\<close>

theorem span_calls_refine_spec:
  assumes "str_arg_ok name" and "list_all call_ok calls"
  shows "span_view_of (fst (span_run (otel_span_init s name kind now) calls)) =
    Some (fst (spec_run (spec_init name) calls))"
  using assms by (rule run_view)

lemma span_calls_refine_spec_witness:
  "span_view_of (fst (span_run (otel_span_init zero_span sample_name 2 99) sample_calls)) =
     Some \<lparr>vw_name = [71, 69, 84], vw_status = 0, vw_message = [], vw_attrs = [([107], VI64 7)],
       vw_events = [\<lparr>evw_name = [101], evw_time = 5, evw_attrs = [([120], VStr [121])], evw_dropped = 0\<rparr>],
       vw_dropped_attrs = 0, vw_dropped_events = 0, vw_used = 96\<rparr>"
  unfolding span_calls_refine_spec[OF sample_ok, of zero_span 2 99] by (simp add: sample_eval)

text \<open>C16: no call writes outside the 4024 bytes of the arena, whatever the lengths of the
  strings; the fill level stays a multiple of eight within the arena.\<close>

theorem span_arena_memory_safe:
  assumes "str_arg_ok name" and "list_all call_ok calls" and "4024 \<le> i"
  shows "sp_arena (fst (span_run (otel_span_init s name kind now) calls)) i = sp_arena s i \<and>
    unat (sp_arena_used (fst (span_run (otel_span_init s name kind now) calls))) \<le> 4024 \<and>
    8 dvd unat (sp_arena_used (fst (span_run (otel_span_init s name kind now) calls)))"
proof -
  obtain T A E where "span_sim (sp_arena s) (fst (span_run (otel_span_init s name kind now) calls)) T A E
      (fst (spec_run (spec_init name) calls))"
    by (rule run_sim_final[OF assms(1,2)])
  from span_simD(1)[OF this] show ?thesis
    using assms(3) heap_okD(1,2,3) unfolding span_heap_def by blast
qed

lemma span_arena_memory_safe_witness:
  "sp_arena (fst (span_run (otel_span_init zero_span sample_name 2 99) sample_calls)) 4024 = 0"
  using span_arena_memory_safe[OF sample_ok order.refl, of zero_span 2 99] by (simp add: zero_span_def)

text \<open>C23: the 16-bit counters of the span and the 8-bit counters of its events are the lengths
  of the lists they count, so they never wrap; a span holds at most 251 attributes (those of
  its events included) and 167 events.\<close>

theorem span_counters_exact:
  assumes "str_arg_ok name" and "list_all call_ok calls"
  shows "let s' = fst (span_run (otel_span_init s name kind now) calls) in
    \<exists>v es. span_view_of s' = Some v \<and> walk_events s' (otel_event_first s') = Some es \<and>
      unat (sp_num_attrs s') = length (vw_attrs v) \<and> unat (sp_num_events s') = length (vw_events v) \<and>
      map (\<lambda>e. unat (ev_num_attrs (event_at (sp_arena s') e))) es = map (\<lambda>w. length (evw_attrs w)) (vw_events v) \<and>
      length (vw_attrs v) + sum_list (map (\<lambda>w. length (evw_attrs w)) (vw_events v)) \<le> 251 \<and>
      length (vw_events v) \<le> 167"
proof -
  obtain T A E where sim: "span_sim (sp_arena s) (fst (span_run (otel_span_init s name kind now) calls)) T A E
      (fst (spec_run (spec_init name) calls))"
    by (rule run_sim_final[OF assms])
  show ?thesis
    using sim_exportable[OF sim] unfolding exportable_def Let_def by blast
qed

lemma span_counters_exact_witness:
  "\<exists>v. span_view_of (fst (span_run (otel_span_init zero_span sample_name 2 99) sample_calls)) = Some v \<and>
     unat (sp_num_attrs (fst (span_run (otel_span_init zero_span sample_name 2 99) sample_calls))) = length (vw_attrs v)"
  using span_counters_exact[OF sample_ok, of zero_span 2 99] unfolding Let_def by blast

text \<open>C24: what has been recorded stays: further calls append, and never change or remove an
  attribute, an event, or an attribute of an event (an event handle stays valid).\<close>

theorem span_records_are_permanent:
  assumes "str_arg_ok name" and "list_all call_ok (calls @ later)"
  shows "\<exists>v v'. span_view_of (fst (span_run (otel_span_init s name kind now) calls)) = Some v \<and>
    span_view_of (fst (span_run (otel_span_init s name kind now) (calls @ later))) = Some v' \<and> extends v v'"
proof -
  have "list_all call_ok calls"
    using assms(2) by simp
  moreover have "extends (fst (spec_run (spec_init name) calls)) (fst (spec_run (spec_init name) (calls @ later)))"
    using foldl_extends[of "spec_run (spec_init name) calls" later] by (simp add: spec_run_def)
  ultimately show ?thesis
    using run_view[OF assms(1)] assms(2) by blast
qed

lemma span_records_are_permanent_witness:
  "\<exists>v v'. span_view_of (fst (span_run (otel_span_init zero_span sample_name 2 99) [])) = Some v \<and>
    span_view_of (fst (span_run (otel_span_init zero_span sample_name 2 99) ([] @ sample_calls))) = Some v' \<and> extends v v'"
  by (rule span_records_are_permanent) simp_all

text \<open>nothing is lost silently: every attribute and every event a client asked for is either
  in the finished span or in its dropped count, which saturates at 255.\<close>

theorem span_loss_is_counted:
  assumes "str_arg_ok name" and "list_all call_ok calls"
  shows "\<exists>v. span_view_of (fst (span_run (otel_span_init s name kind now) calls)) = Some v \<and>
    tally (length (filter is_attr_call calls)) (length (vw_attrs v)) (vw_dropped_attrs v) \<and>
    tally (length (filter is_event_call calls)) (length (vw_events v)) (vw_dropped_events v)"
  using run_view[OF assms] spec_run_tally[of calls name] unfolding calls_tally_def by blast

lemma span_loss_is_counted_witness:
  "\<exists>v. span_view_of (fst (span_run (otel_span_init zero_span sample_name 2 99) sample_calls)) = Some v \<and>
    tally 1 (length (vw_attrs v)) (vw_dropped_attrs v)"
  using span_loss_is_counted[OF sample_ok, of zero_span 2 99] by (auto simp: sample_calls_def)

lemma span_run_meta: "span_meta (fst (span_run s calls)) = span_meta s"
proof -
  have "span_meta (fst (foldl exec_call sh calls)) = span_meta (fst sh)" for sh
  proof (induction calls arbitrary: sh)
    case (Cons c calls)
    then show ?case
      using meta_exec[of "fst sh" "snd sh" c] by simp
  qed simp
  then show ?thesis
    by (simp add: span_run_def)
qed

text \<open>no call on a started span touches its identity: trace id, span id, parent id, kind,
  flags, start and end time are those it was started with.\<close>

theorem span_identity_untouched: "span_meta (fst (span_run s calls)) = span_meta s"
  by (rule span_run_meta)

lemma inert_calls:
  "\<not> otel_span_recording s \<Longrightarrow> set hs \<subseteq> {None} \<Longrightarrow>
   fst (exec_call (s, hs) c) = s \<and> set (snd (exec_call (s, hs) c)) \<subseteq> {None}"
proof (cases c)
  case (CEventAttr j key arg)
  moreover assume "set hs \<subseteq> {None}"
  then have "nth_handle hs j = None"
    using nth_mem[of j hs] unfolding nth_handle_def by fastforce
  ultimately show "\<not> otel_span_recording s \<Longrightarrow> set hs \<subseteq> {None} \<Longrightarrow>
    fst (exec_call (s, hs) c) = s \<and> set (snd (exec_call (s, hs) c)) \<subseteq> {None}"
    by (simp add: event_attr_call_fill fill_handle_def otel_event_attr_internal_def)
qed (auto simp: span_attr_call_fill fill_handle_def otel_span_attr_internal_def otel_span_event_def
    otel_span_set_name_def otel_span_set_status_def)

text \<open>on a span that is not recording every call is a no-op: the span and its memory are
  untouched, and every event handle is null.\<close>

theorem unsampled_span_is_inert:
  assumes "\<not> otel_span_recording s"
  shows "fst (span_run s calls) = s \<and> set (snd (span_run s calls)) \<subseteq> {None}"
proof -
  have "fst sh = s \<Longrightarrow> set (snd sh) \<subseteq> {None} \<Longrightarrow>
    fst (foldl exec_call sh calls) = s \<and> set (snd (foldl exec_call sh calls)) \<subseteq> {None}" for sh
  proof (induction calls arbitrary: sh)
    case (Cons c calls)
    then show ?case
      using inert_calls[OF assms, of "snd sh" c] Cons.IH[of "exec_call sh c"] by (cases sh) simp
  qed simp
  then show ?thesis
    by (simp add: span_run_def)
qed

lemma unsampled_span_is_inert_witness: "fst (span_run zero_span sample_calls) = zero_span"
  using unsampled_span_is_inert[of zero_span sample_calls]
  by (simp add: otel_span_recording_def zero_span_def)

end
