(* ===== verification/Otel_Ring.thy ===== *)
theory Otel_Ring
  imports Otel_Random Otel_Span_Props "HOL-Library.While_Combinator"
begin

text \<open>
  The per-thread ring of finished spans (\<^verbatim>\<open>struct otel_thread_ctx\<close> in \<^verbatim>\<open>oteltracing.c\<close>):
  its capacity (\<^verbatim>\<open>otel_set_ring_capacity\<close>), the enqueue of \<^verbatim>\<open>otel_span_end_\<close> and the dequeue
  loop of \<^verbatim>\<open>otel_drain_ctx\<close>, each run to completion; \<open>Otel_Ring_Concurrent\<close> has their
  interleavings.  The locale \<open>bounded_queue\<close> is the contract: a FIFO queue that refuses when
  full.  The ring implements it with 64-bit cursors that are never reduced modulo the
  capacity and may wrap.
\<close>

subsection \<open>The capacity\<close>

text \<open>The loop \<^verbatim>\<open>while (cap < spans) cap <<= 1;\<close> on a 32-bit unsigned int: \<open>None\<close> when it
  does not end.\<close>

definition otel_set_ring_capacity :: "u32 \<Rightarrow> u32 option" where
  "otel_set_ring_capacity spans =
     (let spans = (if spans < 2 then 2 else spans)
      in while_option (\<lambda>cap. cap < spans) (\<lambda>cap. push_bit 1 cap) 1)"

lemma unat_pow2: "j < 32 \<Longrightarrow> unat (2 ^ j :: u32) = 2 ^ j"
proof -
  assume "j < 32"
  then have "(2 :: nat) ^ j < 2 ^ LENGTH(32)"
    by (intro power_strict_increasing) simp_all
  then have "unat (of_nat (2 ^ j) :: u32) = 2 ^ j"
    by (rule unat_of_nat_small)
  then show ?thesis by simp
qed

lemma pow2_32 [simp]: "(2 :: u32) ^ 32 = 0"
  by (simp only: exp_eq_zero_iff) simp

lemma capacity_loop:
  fixes spans :: u32
  assumes "k < 32" and "unat spans \<le> 2 ^ k" and "\<And>j. j < k \<Longrightarrow> 2 ^ j < unat spans" and "j \<le> k"
  shows "while_option (\<lambda>cap. cap < spans) (\<lambda>cap. push_bit 1 cap) (2 ^ j) = Some (2 ^ k)"
  using assms(4)
proof (induction "k - j" arbitrary: j)
  case 0
  then have "j = k" by simp
  then show ?case
    using assms(1,2) unat_pow2[of k] by (subst while_option_unfold) (simp add: word_less_nat_alt)
next
  case (Suc d)
  then have "j < k" by simp
  then have "(2 ^ j :: u32) < spans"
    using assms(1,3) unat_pow2[of j] by (simp add: word_less_nat_alt)
  moreover have "while_option (\<lambda>cap. cap < spans) (\<lambda>cap. push_bit 1 cap) (2 ^ Suc j) = Some (2 ^ k)"
    using Suc \<open>j < k\<close> by (intro Suc(1)) auto
  moreover have "push_bit 1 (2 ^ j :: u32) = 2 ^ Suc j"
    by (simp add: push_bit_eq_mult)
  ultimately show ?case
    by (subst while_option_unfold) (simp only: if_True)
qed

lemma capacity_loop_diverges:
  fixes spans :: u32
  assumes "2 ^ 31 < unat spans"
  shows "while_option (\<lambda>cap. cap < spans) (\<lambda>cap. push_bit 1 cap) 1 = None"
proof (cases "while_option (\<lambda>cap. cap < spans) (\<lambda>cap. push_bit 1 cap) (1 :: u32)")
  case (Some t)
  define inv where "inv = (\<lambda>c :: u32. \<exists>j \<le> 32. c = 2 ^ j)"
  have "inv t"
  proof (rule while_option_rule[OF _ Some])
    fix c :: u32 assume "inv c" "c < spans"
    then obtain j where j: "j \<le> 32" "c = 2 ^ j" by (auto simp: inv_def)
    have s: "push_bit 1 c = 2 ^ Suc j"
      using j(2) by (simp add: push_bit_eq_mult)
    show "inv (push_bit 1 c)"
    proof (cases "j = 32")
      case True
      then have "push_bit 1 c = 2 ^ 32"
        using s by simp
      then show ?thesis unfolding inv_def by blast
    next
      case False
      then show ?thesis
        using j(1) s unfolding inv_def by (intro exI[of _ "Suc j"]) simp
    qed
  next
    show "inv 1"
      unfolding inv_def by (intro exI[of _ 0]) simp
  qed
  then obtain j where j: "j \<le> 32" "t = 2 ^ j" by (auto simp: inv_def)
  have "unat t \<le> 2 ^ 31"
  proof (cases "j = 32")
    case False
    then have "j \<le> 31" using j(1) by simp
    then have "unat t = 2 ^ j" "(2 :: nat) ^ j \<le> 2 ^ 31"
      using unat_pow2[of j] j(2) by (simp_all add: power_increasing del: power_numeral)
    then show ?thesis by simp
  qed (use j in simp)
  then have "t < spans"
    using assms by (simp add: word_less_nat_alt)
  then show ?thesis
    using while_option_stop[OF Some] by simp
qed

definition pow2_exp :: "nat \<Rightarrow> nat" where
  "pow2_exp n = (LEAST k. n \<le> 2 ^ k)"

lemma pow2_exp:
  shows "n \<le> 2 ^ pow2_exp n" and "j < pow2_exp n \<Longrightarrow> 2 ^ j < n"
proof -
  have "n \<le> 2 ^ n"
    by (simp add: less_imp_le)
  then show "n \<le> 2 ^ pow2_exp n"
    unfolding pow2_exp_def by (rule LeastI)
  show "j < pow2_exp n \<Longrightarrow> 2 ^ j < n"
    unfolding pow2_exp_def using not_less_Least by force
qed

lemma ring_capacity_value:
  assumes "unat spans \<le> 2 ^ 31"
  shows "\<exists>k. 1 \<le> k \<and> k \<le> 31 \<and> otel_set_ring_capacity spans = Some (2 ^ k) \<and>
    unat spans \<le> 2 ^ k \<and> (\<forall>j. unat spans \<le> 2 ^ j \<and> 1 \<le> j \<longrightarrow> k \<le> j)"
proof -
  define n where "n = (if spans < 2 then 2 else spans)"
  have n: "2 \<le> unat n" "unat n \<le> 2 ^ 31" "unat spans \<le> unat n"
    using assms by (auto simp: n_def word_less_nat_alt)
  define k where "k = pow2_exp (unat n)"
  have "k \<le> 31"
    using pow2_exp(2)[where n = "unat n" and j = 31] n(2) unfolding k_def by force
  moreover have "1 \<le> k"
    using pow2_exp(1)[of "unat n"] n(1) unfolding k_def by (cases "pow2_exp (unat n)") auto
  moreover have "otel_set_ring_capacity spans = Some (2 ^ k)"
    using capacity_loop[of k n 0] pow2_exp[where n = "unat n"] \<open>k \<le> 31\<close>
    by (simp add: otel_set_ring_capacity_def k_def flip: n_def)
  moreover have "k \<le> j" if "unat spans \<le> 2 ^ j" "1 \<le> j" for j
  proof (rule ccontr)
    assume "\<not> k \<le> j"
    then have "2 ^ j < unat n"
      using pow2_exp(2) unfolding k_def by simp
    moreover have "(2 :: nat) \<le> 2 ^ j"
      using that(2) self_le_power[of "2 :: nat" j] by simp
    ultimately show False
      using that(1) by (auto simp: n_def split: if_splits)
  qed
  moreover have "unat spans \<le> 2 ^ k"
    using pow2_exp(1)[of "unat n"] n(3) unfolding k_def by simp
  ultimately show ?thesis by blast
qed

lemma ring_capacity_hangs:
  assumes "2 ^ 31 < unat spans"
  shows "otel_set_ring_capacity spans = None"
proof -
  have "\<not> spans < 2"
    using assms by (simp add: word_less_nat_alt)
  then show ?thesis
    using capacity_loop_diverges[OF assms] by (simp add: otel_set_ring_capacity_def)
qed

text \<open>C30: ring capacity: for a request of at most \<open>2 ^ 31\<close> spans the rounding loop ends with the least
  power of two that is not below the request (and not below two); for more it never ends: the
  candidate is shifted out to zero and stays below the request.\<close>

theorem ring_capacity_outcome:
  "(unat spans \<le> 2 ^ 31 \<longrightarrow> (\<exists>k. 1 \<le> k \<and> k \<le> 31 \<and> otel_set_ring_capacity spans = Some (2 ^ k) \<and>
      unat spans \<le> 2 ^ k \<and> (\<forall>j. unat spans \<le> 2 ^ j \<and> 1 \<le> j \<longrightarrow> k \<le> j))) \<and>
   (2 ^ 31 < unat spans \<longrightarrow> otel_set_ring_capacity spans = None)"
  using ring_capacity_value ring_capacity_hangs by blast

lemma ring_capacity_outcome_witness:
  "(\<exists>k. k \<le> 31 \<and> otel_set_ring_capacity 1000 = Some (2 ^ k) \<and> 1000 \<le> (2 ^ k :: nat)) \<and> otel_set_ring_capacity 0x80000001 = None"
  using ring_capacity_outcome[of 1000] ring_capacity_outcome[of "0x80000001"] by auto

subsection \<open>The ring\<close>

record otel_thread_ctx =
  cx_ring :: "otel_span list"
  cx_capacity :: u32
  cx_mask :: u32
  cx_head :: u64
  cx_tail :: u64
  cx_dropped :: u64
  cx_randstate :: otel_random_state

text \<open>The context \<^verbatim>\<open>otel_thread_register\<close> allocates (zeroed slots, both cursors zero) for a
  capacity and a seeded generator.\<close>

definition ctx_new :: "u32 \<Rightarrow> otel_random_state \<Rightarrow> otel_thread_ctx" where
  "ctx_new cap rs = \<lparr>cx_ring = replicate (unat cap) zero_span, cx_capacity = cap, cx_mask = cap - 1,
     cx_head = 0, cx_tail = 0, cx_dropped = 0, cx_randstate = rs\<rparr>"

definition slot_index :: "otel_thread_ctx \<Rightarrow> u64 \<Rightarrow> nat" where
  "slot_index ctx cursor = unat (cursor AND ucast (cx_mask ctx))"

definition ring_enqueue :: "otel_thread_ctx \<Rightarrow> otel_span \<Rightarrow> otel_thread_ctx \<times> bool" where
  "ring_enqueue ctx s =
     (let head = cx_head ctx; tail = cx_tail ctx
      in if head - tail \<ge> ucast (cx_capacity ctx)
         then (ctx\<lparr>cx_dropped := cx_dropped ctx + 1\<rparr>, False)
         else (ctx\<lparr>cx_ring := (cx_ring ctx)[slot_index ctx head := s], cx_head := head + 1\<rparr>, True))"

text \<open>The dequeue loop hands each span to \<open>emit\<close>; \<open>e\<close> is the state emission works on.\<close>

function drain_loop :: "(otel_span \<Rightarrow> 'e \<Rightarrow> 'e) \<Rightarrow> otel_thread_ctx \<Rightarrow> u64 \<Rightarrow> u64 \<Rightarrow> int \<Rightarrow> 'e \<Rightarrow> 'e \<times> u64 \<times> int" where
  "drain_loop emit ctx tail head n e =
     (if tail = head then (e, tail, n)
      else drain_loop emit ctx (tail + 1) head (n + 1) (emit (cx_ring ctx ! slot_index ctx tail) e))"
  by pat_completeness auto

lemma unat_diff_step:
  fixes head tail :: u64
  assumes "tail \<noteq> head"
  shows "unat (head - tail) = Suc (unat (head - (tail + 1)))"
proof -
  have eq: "head - (tail + 1) = (head - tail) - 1" and nz: "head - tail \<noteq> 0"
    using assms by (simp_all add: algebra_simps)
  show ?thesis
    unfolding eq using unat_minus_one[OF nz] unat_gt_0[of "head - tail"] nz by simp
qed

termination drain_loop
  by (relation "measure (\<lambda>(emit, ctx, tail, head, n, e). unat (head - tail))") (auto simp: unat_diff_step)

declare drain_loop.simps [simp del]

definition otel_drain_ctx :: "(otel_span \<Rightarrow> 'e \<Rightarrow> 'e) \<Rightarrow> otel_thread_ctx \<Rightarrow> 'e \<Rightarrow> otel_thread_ctx \<times> int \<times> 'e" where
  "otel_drain_ctx emit ctx e =
     (let (e, tail, n) = drain_loop emit ctx (cx_tail ctx) (cx_head ctx) 0 e
      in (ctx\<lparr>cx_tail := tail\<rparr>, n, e))"

subsection \<open>The contract of the ring\<close>

datatype 'a queue_op = Put 'a | TakeAll

text \<open>A run keeps what was accepted and what was handed out.\<close>

fun queue_step :: "('q \<Rightarrow> 'a \<Rightarrow> 'q \<times> bool) \<Rightarrow> ('q \<Rightarrow> 'a list \<times> 'q) \<Rightarrow> 'q \<times> 'a list \<times> 'a list \<Rightarrow> 'a queue_op \<Rightarrow>
    'q \<times> 'a list \<times> 'a list" where
  "queue_step put take_all (q, acc, out) (Put x) =
     (let (q, ok) = put q x in (q, if ok then acc @ [x] else acc, out))"
| "queue_step put take_all (q, acc, out) TakeAll = (let (xs, q) = take_all q in (q, acc, out @ xs))"

definition queue_run :: "('q \<Rightarrow> 'a \<Rightarrow> 'q \<times> bool) \<Rightarrow> ('q \<Rightarrow> 'a list \<times> 'q) \<Rightarrow> 'q \<Rightarrow> 'a queue_op list \<Rightarrow>
    'q \<times> 'a list \<times> 'a list" where
  "queue_run put take_all q ops = foldl (queue_step put take_all) (q, [], []) ops"

locale bounded_queue =
  fixes ok :: "'q \<Rightarrow> bool"
    and room :: "'q \<Rightarrow> nat"
    and put :: "'q \<Rightarrow> 'a \<Rightarrow> 'q \<times> bool"
    and take_all :: "'q \<Rightarrow> 'a list \<times> 'q"
    and contents :: "'q \<Rightarrow> 'a list"
  assumes put_ok: "ok q \<Longrightarrow> ok (fst (put q x))"
    and put_room: "ok q \<Longrightarrow> room (fst (put q x)) = room q"
    and put_accepts: "ok q \<Longrightarrow> snd (put q x) \<longleftrightarrow> length (contents q) < room q"
    and put_contents: "ok q \<Longrightarrow> contents (fst (put q x)) = (if snd (put q x) then contents q @ [x] else contents q)"
    and take_ok: "ok q \<Longrightarrow> ok (snd (take_all q))"
    and take_room: "ok q \<Longrightarrow> room (snd (take_all q)) = room q"
    and take_result: "ok q \<Longrightarrow> fst (take_all q) = contents q"
    and take_contents: "ok q \<Longrightarrow> contents (snd (take_all q)) = []"
begin

definition tracked :: "nat \<Rightarrow> 'q \<times> 'a list \<times> 'a list \<Rightarrow> bool" where
  "tracked c st \<longleftrightarrow> (case st of (q, acc, out) \<Rightarrow>
     ok q \<and> room q = c \<and> length (contents q) \<le> c \<and> acc = out @ contents q)"

lemma step_tracked:
  assumes "tracked c st"
  shows "tracked c (queue_step put take_all st op)"
proof (cases st)
  case (fields q acc out)
  then have q: "ok q" "room q = c" "length (contents q) \<le> c" "acc = out @ contents q"
    using assms by (auto simp: tracked_def)
  show ?thesis
  proof (cases op)
    case (Put x)
    obtain q' b where "put q x = (q', b)" by fastforce
    then show ?thesis
      using q put_ok[of q x] put_room[of q x] put_accepts[of q x] put_contents[of q x] Put fields
      by (auto simp: tracked_def)
  next
    case TakeAll
    obtain xs q' where "take_all q = (xs, q')" by fastforce
    then show ?thesis
      using q take_ok[of q] take_room[of q] take_result[of q] take_contents[of q] TakeAll fields
      by (auto simp: tracked_def)
  qed
qed

lemma run_tracked:
  assumes "ok q" and "contents q = []"
  shows "tracked (room q) (queue_run put take_all q ops)"
proof -
  have "tracked c st \<Longrightarrow> tracked c (foldl (queue_step put take_all) st ops)" for c st
    by (induction ops arbitrary: st) (simp_all add: step_tracked)
  moreover have "tracked (room q) (q, [], [])"
    using assms by (simp add: tracked_def)
  ultimately show ?thesis
    by (simp add: queue_run_def)
qed

lemma fifo:
  assumes "ok q" and "contents q = []" and "queue_run put take_all q ops = (q', acc, out)"
  shows "acc = out @ contents q' \<and> length (contents q') \<le> room q"
  using run_tracked[OF assms(1,2), of ops] assms(3) by (simp add: tracked_def)

end

subsection \<open>The ring implements the contract\<close>

text \<open>The spans between two cursors, oldest first.\<close>

definition ring_window :: "otel_thread_ctx \<Rightarrow> u64 \<Rightarrow> u64 \<Rightarrow> otel_span list" where
  "ring_window ctx tail head = map (\<lambda>i. cx_ring ctx ! slot_index ctx (tail + of_nat i)) [0..<unat (head - tail)]"

definition ring_contents :: "otel_thread_ctx \<Rightarrow> otel_span list" where
  "ring_contents ctx = ring_window ctx (cx_tail ctx) (cx_head ctx)"

definition ring_ok :: "otel_thread_ctx \<Rightarrow> bool" where
  "ring_ok ctx \<longleftrightarrow> (\<exists>k \<le> 31. unat (cx_capacity ctx) = 2 ^ k) \<and> cx_mask ctx = cx_capacity ctx - 1 \<and>
     length (cx_ring ctx) = unat (cx_capacity ctx) \<and>
     unat (cx_head ctx - cx_tail ctx) \<le> unat (cx_capacity ctx)"

definition ring_take :: "otel_thread_ctx \<Rightarrow> otel_span list \<times> otel_thread_ctx" where
  "ring_take ctx = (let (ctx, n, out) = otel_drain_ctx (\<lambda>s out. out @ [s]) ctx [] in (out, ctx))"

lemma ring_window_Cons:
  assumes "tail \<noteq> head"
  shows "ring_window ctx tail head = (cx_ring ctx ! slot_index ctx tail) # ring_window ctx (tail + 1) head"
  using assms unfolding ring_window_def
  by (simp add: unat_diff_step map_upt_Suc add.assoc del: upt_Suc)

lemma ring_window_empty [simp]: "ring_window ctx t t = []"
  by (simp add: ring_window_def)

lemma drain_loop_window:
  "drain_loop emit ctx tail head n e =
     (fold emit (ring_window ctx tail head) e, head, n + int (length (ring_window ctx tail head)))"
proof (induction emit ctx tail head n e rule: drain_loop.induct)
  case (1 emit ctx tail head n e)
  show ?case
  proof (cases "tail = head")
    case False
    then show ?thesis
      unfolding ring_window_Cons[OF False] using 1[OF False]
      by (subst drain_loop.simps) simp
  qed (subst drain_loop.simps, simp)
qed

lemma otel_drain_ctx_eq:
  "otel_drain_ctx emit ctx e =
     (ctx\<lparr>cx_tail := cx_head ctx\<rparr>, int (length (ring_contents ctx)), fold emit (ring_contents ctx) e)"
  by (simp add: otel_drain_ctx_def drain_loop_window ring_contents_def)

lemma slot_index_mod:
  assumes "ring_ok ctx"
  shows "slot_index ctx c = unat c mod unat (cx_capacity ctx)"
proof -
  obtain k where k: "k \<le> 31" "unat (cx_capacity ctx) = 2 ^ k" "cx_mask ctx = cx_capacity ctx - 1"
    using assms by (auto simp: ring_ok_def)
  have "cx_capacity ctx = 2 ^ k"
    using k(1,2) unat_pow2[of k] by (simp add: unsigned_word_eqI[where ?'a = nat])
  then have "cx_mask ctx = mask k"
    using k(3) by (simp add: mask_eq_exp_minus_1)
  moreover have "(ucast (mask k :: u32) :: u64) = mask k"
    by (rule bit_word_eqI) (use k(1) in \<open>auto simp: bit_simps\<close>)
  ultimately have "(ucast (cx_mask ctx) :: u64) = mask k"
    by simp
  then show ?thesis
    using unat_and_mask_pow2[of k c] k(1,2) by (simp add: slot_index_def)
qed

lemma unat_add_nat:
  fixes t :: u64
  assumes "k \<le> 64"
  shows "unat (t + of_nat i) mod 2 ^ k = (unat t + i) mod 2 ^ k"
proof -
  have "unat (t + of_nat i) = (unat t + i) mod 2 ^ 64"
    by (simp add: unat_word_ariths unat_of_nat mod_simps)
  moreover have "(2 :: nat) ^ k dvd 2 ^ 64"
    using assms by (rule le_imp_power_dvd)
  ultimately show ?thesis
    by (simp only: mod_mod_cancel)
qed

lemma mod_neq:
  fixes t :: nat
  assumes "i < j" and "j - i < m"
  shows "(t + i) mod m \<noteq> (t + j) mod m"
proof
  assume "(t + i) mod m = (t + j) mod m"
  then have "m dvd (t + j) - (t + i)"
    using assms by (metis mod_eq_dvd_iff_nat add_le_cancel_left less_imp_le)
  then show False
    using assms by (auto dest: dvd_imp_le)
qed

lemma slot_index_less: "ring_ok ctx \<Longrightarrow> slot_index ctx c < length (cx_ring ctx)"
  by (subst slot_index_mod) (auto simp: ring_ok_def)

lemma slot_index_neq:
  assumes "ring_ok ctx" and "i < j" and "j - i < unat (cx_capacity ctx)"
  shows "slot_index ctx (t + of_nat i) \<noteq> slot_index ctx (t + of_nat j)"
proof -
  obtain k where k: "k \<le> 31" "unat (cx_capacity ctx) = 2 ^ k"
    using assms(1) by (auto simp: ring_ok_def)
  then show ?thesis
    using slot_index_mod[OF assms(1)] unat_add_nat[of k t] mod_neq[OF assms(2), of "2 ^ k" "unat t"] assms(3)
    by simp
qed

lemma enqueue_room:
  assumes "ring_ok ctx"
  shows "ucast (cx_capacity ctx) \<le> cx_head ctx - cx_tail ctx \<longleftrightarrow> \<not> length (ring_contents ctx) < unat (cx_capacity ctx)"
proof -
  have "unat (ucast (cx_capacity ctx) :: u64) = unat (cx_capacity ctx)"
    using unsigned_less[of "cx_capacity ctx", where ?'a = nat]
    by (simp add: unsigned_ucast_eq take_bit_nat_eq_self)
  then show ?thesis
    by (simp add: word_le_nat_alt ring_contents_def ring_window_def not_less)
qed

lemma head_step:
  fixes head tail :: u64
  assumes "unat (head - tail) < 2 ^ 32"
  shows "unat (head + 1 - tail) = Suc (unat (head - tail))"
proof -
  have eq: "head + 1 - tail = (head - tail) + 1"
    by (simp add: algebra_simps)
  have "unat (head - tail) + 1 < 2 ^ LENGTH(64)"
    using assms by simp
  then show ?thesis
    unfolding eq unat_word_ariths by simp
qed

lemma enqueue_full:
  "ring_ok ctx \<Longrightarrow> \<not> length (ring_contents ctx) < unat (cx_capacity ctx) \<Longrightarrow>
   ring_enqueue ctx s = (ctx\<lparr>cx_dropped := cx_dropped ctx + 1\<rparr>, False)"
  by (simp add: ring_enqueue_def enqueue_room Let_def)

lemma enqueue_fits:
  fixes s :: otel_span
  assumes ok: "ring_ok ctx" and room: "length (ring_contents ctx) < unat (cx_capacity ctx)"
  defines "ctx' \<equiv> ctx\<lparr>cx_ring := (cx_ring ctx)[slot_index ctx (cx_head ctx) := s], cx_head := cx_head ctx + 1\<rparr>"
  shows "ring_enqueue ctx s = (ctx', True)" and "ring_ok ctx'" and "ring_contents ctx' = ring_contents ctx @ [s]"
proof -
  let ?n = "unat (cx_head ctx - cx_tail ctx)"
  have n: "?n < unat (cx_capacity ctx)"
    using room by (simp add: ring_contents_def ring_window_def)
  obtain k where k: "k \<le> 31" "unat (cx_capacity ctx) = 2 ^ k"
    using ok by (auto simp: ring_ok_def)
  have "unat (cx_capacity ctx) < 2 ^ 32"
    using unsigned_less[of "cx_capacity ctx", where ?'a = nat] by simp
  then have step: "unat (cx_head ctx + 1 - cx_tail ctx) = Suc ?n"
    using n by (intro head_step) simp
  show "ring_enqueue ctx s = (ctx', True)"
    using enqueue_room[OF ok] room by (simp add: ring_enqueue_def ctx'_def Let_def)
  show "ring_ok ctx'"
    using ok step n by (auto simp: ring_ok_def ctx'_def)
  have idx: "slot_index ctx' = slot_index ctx"
    by (simp add: slot_index_def ctx'_def fun_eq_iff)
  have head: "cx_head ctx = cx_tail ctx + of_nat ?n"
    by simp
  have "cx_ring ctx' ! slot_index ctx (cx_tail ctx + of_nat i) = cx_ring ctx ! slot_index ctx (cx_tail ctx + of_nat i)"
    if "i < ?n" for i
  proof -
    have "slot_index ctx (cx_tail ctx + of_nat i) \<noteq> slot_index ctx (cx_tail ctx + of_nat ?n)"
      using slot_index_neq[OF ok that, of "cx_tail ctx"] n that by linarith
    then show ?thesis
      unfolding head[symmetric] by (simp add: ctx'_def)
  qed
  moreover have "cx_ring ctx' ! slot_index ctx (cx_head ctx) = s"
    using slot_index_less[OF ok] by (simp add: ctx'_def)
  moreover have "ring_contents ctx' = map (\<lambda>i. cx_ring ctx' ! slot_index ctx (cx_tail ctx + of_nat i)) [0..<Suc ?n]"
    using step by (simp only: ring_contents_def ring_window_def idx) (simp add: ctx'_def del: upt_Suc)
  ultimately show "ring_contents ctx' = ring_contents ctx @ [s]"
    by (simp add: ring_contents_def ring_window_def)
qed

lemma ring_take_eq: "ring_take ctx = (ring_contents ctx, ctx\<lparr>cx_tail := cx_head ctx\<rparr>)"
proof -
  have "fold (\<lambda>s out. out @ [s]) xs ys = ys @ xs" for xs ys :: "otel_span list"
    by (induction xs arbitrary: ys) simp_all
  then show ?thesis
    by (simp add: ring_take_def otel_drain_ctx_eq)
qed

interpretation ring: bounded_queue ring_ok "\<lambda>ctx. unat (cx_capacity ctx)" ring_enqueue ring_take ring_contents
proof
  fix ctx s assume ok: "ring_ok ctx"
  note full = enqueue_full[OF ok] and fits = enqueue_fits[OF ok]
  show "ring_ok (fst (ring_enqueue ctx s))"
    "unat (cx_capacity (fst (ring_enqueue ctx s))) = unat (cx_capacity ctx)"
    "snd (ring_enqueue ctx s) = (length (ring_contents ctx) < unat (cx_capacity ctx))"
    "ring_contents (fst (ring_enqueue ctx s)) =
       (if snd (ring_enqueue ctx s) then ring_contents ctx @ [s] else ring_contents ctx)"
    using full[of s] fits[of s] ok
    by (cases "length (ring_contents ctx) < unat (cx_capacity ctx)";
        simp add: ring_ok_def ring_contents_def ring_window_def slot_index_def)+
  show "ring_ok (snd (ring_take ctx))"
    "unat (cx_capacity (snd (ring_take ctx))) = unat (cx_capacity ctx)"
    "fst (ring_take ctx) = ring_contents ctx" "ring_contents (snd (ring_take ctx)) = []"
    using ok by (auto simp: ring_take_eq ring_ok_def ring_contents_def)
qed

lemma ctx_new_ok:
  assumes "k \<le> 31"
  shows "ring_ok (ctx_new (2 ^ k) rs)" "ring_contents (ctx_new (2 ^ k) rs) = []"
  using assms unat_pow2[of k] by (auto simp: ring_ok_def ctx_new_def ring_contents_def)

subsection \<open>Properties\<close>

text \<open>C20: for any interleaving of finished spans and drains on a freshly registered thread, the
  drained spans followed by those still in the ring are exactly the accepted spans in the order
  they ended: nothing is lost, duplicated or reordered, also when the cursors wrap.\<close>

theorem ring_is_fifo:
  assumes "k \<le> 31" and "queue_run ring_enqueue ring_take (ctx_new (2 ^ k) rs) ops = (ctx, accepted, drained)"
  shows "accepted = drained @ ring_contents ctx \<and> length (ring_contents ctx) \<le> 2 ^ k"
  using ring.fifo[OF ctx_new_ok[OF assms(1)] assms(2)] assms(1) unat_pow2[of k] by (simp add: ctx_new_def)

lemma ring_is_fifo_witness:
  "\<exists>ctx acc out. queue_run ring_enqueue ring_take (ctx_new (2 ^ 1) \<lparr>rs_lo = 1, rs_hi = 0\<rparr>) [Put zero_span, TakeAll, Put zero_span] = (ctx, acc, out)
     \<and> acc = out @ ring_contents ctx"
proof -
  obtain ctx acc out where "queue_run ring_enqueue ring_take (ctx_new (2 ^ 1) \<lparr>rs_lo = 1, rs_hi = 0\<rparr>) [Put zero_span, TakeAll, Put zero_span]
      = (ctx, acc, out)" by (metis prod_cases3)
  moreover from ring_is_fifo[OF _ this] have "acc = out @ ring_contents ctx" by simp
  ultimately show ?thesis by blast
qed

text \<open>a finished span is refused exactly when the ring is full, and then the drop counter
  moves by one and nothing else changes; otherwise it is appended.\<close>

theorem ring_drops_only_when_full:
  assumes "ring_ok ctx"
  shows "ring_contents (fst (ring_enqueue ctx s)) = take (unat (cx_capacity ctx)) (ring_contents ctx @ [s]) \<and>
    (snd (ring_enqueue ctx s) \<longleftrightarrow> length (ring_contents ctx) < unat (cx_capacity ctx)) \<and>
    cx_dropped (fst (ring_enqueue ctx s)) = cx_dropped ctx + (if snd (ring_enqueue ctx s) then 0 else 1)"
proof (cases "length (ring_contents ctx) < unat (cx_capacity ctx)")
  case True
  then show ?thesis
    using enqueue_fits[OF assms True, of s] by simp
next
  case False
  moreover have "length (ring_contents ctx) \<le> unat (cx_capacity ctx)"
    using assms by (simp add: ring_ok_def ring_contents_def ring_window_def)
  ultimately show ?thesis
    using enqueue_full[OF assms False, of s] by (simp add: ring_contents_def ring_window_def slot_index_def)
qed

lemma ring_drops_only_when_full_witness: "snd (ring_enqueue (ctx_new (2 ^ 1) \<lparr>rs_lo = 1, rs_hi = 0\<rparr>) zero_span)"
  using ring_drops_only_when_full[OF ctx_new_ok(1)[of 1], of "\<lparr>rs_lo = 1, rs_hi = 0\<rparr>" zero_span] ctx_new_ok(2)[of 1 "\<lparr>rs_lo = 1, rs_hi = 0\<rparr>"]
  by (simp add: ctx_new_def)

end
