(* ===== verification/Otel_Start.thy ===== *)
theory Otel_Start
  imports Complex_Main Otel_Ring
begin

text \<open>
  Head sampling and the start of root, child and remote spans (the wrappers of
  \<^verbatim>\<open>oteltracing.h\<close> and the out-of-line parts in \<^verbatim>\<open>oteltracing.c\<close>).  The thread context
  \<^verbatim>\<open>otel_tls\<close> is threaded through as an optional record, \<open>None\<close> for a thread that is not
  registered; \<open>now\<close> is what the clock returns.  A C \<^verbatim>\<open>double\<close> is a finite rational, an
  infinity or a NaN; scaling by \<open>2 ^ 64\<close> is exact in binary floating point.
\<close>

subsection \<open>The sampler\<close>

datatype c_double = Fin rat | PInf | NInf | NaN

fun ge_one :: "c_double \<Rightarrow> bool" where
  "ge_one (Fin r) = (r \<ge> 1)" | "ge_one PInf = True" | "ge_one NInf = False" | "ge_one NaN = False"

fun le_zero :: "c_double \<Rightarrow> bool" where
  "le_zero (Fin r) = (r \<le> 0)" | "le_zero PInf = False" | "le_zero NInf = True" | "le_zero NaN = False"

record otel_sampler =
  sample_always :: bool
  sample_threshold :: u64

text \<open>\<open>None\<close>: the conversion of a NaN to \<^verbatim>\<open>uint64_t\<close> is undefined.\<close>

definition otel_set_sampler :: "c_double \<Rightarrow> otel_sampler option" where
  "otel_set_sampler ratio =
     (if ge_one ratio then Some \<lparr>sample_always = True, sample_threshold = NOT 0\<rparr>
      else if le_zero ratio then Some \<lparr>sample_always = False, sample_threshold = 0\<rparr>
      else case ratio of
             Fin r \<Rightarrow> Some \<lparr>sample_always = False, sample_threshold = of_int \<lfloor>r * 18446744073709551616\<rfloor>\<rparr>
           | _ \<Rightarrow> None)"

subsection \<open>Starting spans\<close>

definition otel_rand :: "otel_thread_ctx \<Rightarrow> otel_thread_ctx \<times> u64" where
  "otel_rand ctx = (let (st, v) = otel_random_next (cx_randstate ctx) in (ctx\<lparr>cx_randstate := st\<rparr>, v))"

definition otel_span_start_root_slow :: "otel_sampler \<Rightarrow> otel_thread_ctx option \<Rightarrow> otel_span \<Rightarrow> c_string \<Rightarrow>
    byte \<Rightarrow> u64 \<Rightarrow> otel_thread_ctx option \<times> otel_span" where
  "otel_span_start_root_slow sm tls s name kind now =
     (case tls of
        None \<Rightarrow> (None, s\<lparr>sp_flags := 0\<rparr>)
      | Some ctx \<Rightarrow>
          let (ctx, skip) = (if sample_always sm then (ctx, False)
                             else let (ctx, v) = otel_rand ctx in (ctx, v \<ge> sample_threshold sm))
          in if skip then (Some ctx, s\<lparr>sp_flags := 0\<rparr>)
             else let (ctx, t0) = otel_rand ctx;
                      (ctx, t1) = otel_rand ctx;
                      (ctx, sid) = otel_rand ctx;
                      s = s\<lparr>sp_trace_id := le_bytes 8 t0 @ le_bytes 8 t1, sp_span_id := sid, sp_parent_id := 0\<rparr>
                  in (Some ctx, otel_span_init s name kind now))"

definition otel_span_start_child_slow :: "otel_thread_ctx option \<Rightarrow> otel_span \<Rightarrow> c_string \<Rightarrow> byte \<Rightarrow>
    otel_span \<Rightarrow> u64 \<Rightarrow> otel_thread_ctx option \<times> otel_span" where
  "otel_span_start_child_slow tls s name kind parent now =
     (case tls of
        None \<Rightarrow> (None, s\<lparr>sp_flags := 0\<rparr>)
      | Some ctx \<Rightarrow>
          let (ctx, sid) = otel_rand ctx;
              s = s\<lparr>sp_trace_id := sp_trace_id parent, sp_span_id := sid, sp_parent_id := sp_span_id parent\<rparr>
          in (Some ctx, otel_span_init s name kind now))"

definition otel_span_start_remote_slow :: "otel_thread_ctx option \<Rightarrow> otel_span \<Rightarrow> c_string \<Rightarrow> byte \<Rightarrow>
    byte list \<Rightarrow> u64 \<Rightarrow> u64 \<Rightarrow> otel_thread_ctx option \<times> otel_span" where
  "otel_span_start_remote_slow tls s name kind trace_id parent_id now =
     (case tls of
        None \<Rightarrow> (None, s\<lparr>sp_flags := 0\<rparr>)
      | Some ctx \<Rightarrow>
          let (ctx, sid) = otel_rand ctx;
              s = s\<lparr>sp_trace_id := trace_id, sp_span_id := sid, sp_parent_id := parent_id\<rparr>
          in (Some ctx, otel_span_init s name kind now))"

definition otel_span_start :: "bool \<Rightarrow> otel_sampler \<Rightarrow> otel_thread_ctx option \<Rightarrow> otel_span \<Rightarrow> c_string \<Rightarrow>
    byte \<Rightarrow> u64 \<Rightarrow> otel_thread_ctx option \<times> otel_span" where
  "otel_span_start enabled sm tls s name kind now =
     (if \<not> enabled then (tls, s\<lparr>sp_flags := 0\<rparr>) else otel_span_start_root_slow sm tls s name kind now)"

definition otel_span_start_child :: "otel_thread_ctx option \<Rightarrow> otel_span \<Rightarrow> c_string \<Rightarrow> byte \<Rightarrow>
    otel_span option \<Rightarrow> u64 \<Rightarrow> otel_thread_ctx option \<times> otel_span" where
  "otel_span_start_child tls s name kind parent now =
     (case parent of
        None \<Rightarrow> (tls, s\<lparr>sp_flags := 0\<rparr>)
      | Some p \<Rightarrow> if \<not> otel_span_recording p then (tls, s\<lparr>sp_flags := 0\<rparr>)
                  else otel_span_start_child_slow tls s name kind p now)"

definition otel_span_start_remote :: "bool \<Rightarrow> otel_thread_ctx option \<Rightarrow> otel_span \<Rightarrow> c_string \<Rightarrow> byte \<Rightarrow>
    byte list \<Rightarrow> u64 \<Rightarrow> bool \<Rightarrow> u64 \<Rightarrow> otel_thread_ctx option \<times> otel_span" where
  "otel_span_start_remote enabled tls s name kind trace_id parent_id sampled now =
     (if \<not> enabled \<or> \<not> sampled then (tls, s\<lparr>sp_flags := 0\<rparr>)
      else otel_span_start_remote_slow tls s name kind trace_id parent_id now)"

subsection \<open>Lemmas\<close>

lemma init_meta: "span_meta (otel_span_init s name kind now) =
  (sp_trace_id s, sp_span_id s, sp_parent_id s, now, 0, kind, OTEL_FLAG_RECORDING)"
  by (auto simp: otel_span_init_def Let_def meta_simps split: prod.splits dest!: meta_arena_eq)
    (simp add: span_meta_def)

lemma init_fields [simp]:
  "sp_trace_id (otel_span_init s name kind now) = sp_trace_id s"
  "sp_span_id (otel_span_init s name kind now) = sp_span_id s"
  "sp_parent_id (otel_span_init s name kind now) = sp_parent_id s"
  "sp_start_unix_ns (otel_span_init s name kind now) = now"
  "sp_end_unix_ns (otel_span_init s name kind now) = 0"
  "sp_kind (otel_span_init s name kind now) = kind"
  "sp_flags (otel_span_init s name kind now) = 1"
  using init_meta[of s name kind now] by (simp_all add: span_meta_def)

lemma init_recording [simp]: "otel_span_recording (otel_span_init s name kind now)"
  by (simp add: otel_span_recording_def)

lemma cleared_not_recording [simp]: "\<not> otel_span_recording (s\<lparr>sp_flags := 0\<rparr>)"
  by (simp add: otel_span_recording_def)

lemma card_words_below: "card {w :: u64. w < t} = unat t"
proof -
  have "unat ` {w :: u64. w < t} = {..<unat t}"
  proof
    show "{..<unat t} \<subseteq> unat ` {w. w < t}"
    proof
      fix n assume n: "n \<in> {..<unat t}"
      then have "n < 2 ^ LENGTH(64)"
        using unsigned_less[of t, where ?'a = nat] by simp
      then have "unat (of_nat n :: u64) = n"
        by (rule unat_of_nat_small)
      then show "n \<in> unat ` {w. w < t}"
        using n by (intro image_eqI[of _ _ "of_nat n"]) (simp_all add: word_less_nat_alt)
    qed
  qed (auto simp: word_less_nat_alt)
  moreover have "inj_on unat {w :: u64. w < t}"
    by (auto simp: inj_on_def intro: unsigned_word_eqI[where ?'a = nat])
  ultimately show ?thesis
    by (metis card_image card_lessThan)
qed

lemma finite_words [simp]: "finite (S :: u64 set)"
  by (rule finite_subset[OF subset_UNIV]) simp

text \<open>Whether a draw makes the root span recorded.\<close>

definition draw_sampled :: "otel_sampler \<Rightarrow> u64 \<Rightarrow> bool" where
  "draw_sampled sm v \<longleftrightarrow> sample_always sm \<or> \<not> v \<ge> sample_threshold sm"

lemma card_sampled:
  "card {v. draw_sampled sm v} = (if sample_always sm then 2 ^ 64 else unat (sample_threshold sm))"
proof (cases "sample_always sm")
  case True
  then have "{v. draw_sampled sm v} = UNIV"
    by (auto simp: draw_sampled_def)
  then show ?thesis
    using True by (simp add: card_word)
next
  case False
  then have "{v. draw_sampled sm v} = {v. v < sample_threshold sm}"
    by (auto simp: draw_sampled_def)
  then show ?thesis
    using False card_words_below by simp
qed

lemma floor_scaled:
  fixes r :: rat
  assumes "0 < r" and "r < 1"
  shows "0 \<le> \<lfloor>r * 18446744073709551616\<rfloor>" and "\<lfloor>r * 18446744073709551616\<rfloor> < 18446744073709551616"
proof -
  show "0 \<le> \<lfloor>r * 18446744073709551616\<rfloor>"
    using assms by simp
  have "r * 18446744073709551616 < 18446744073709551616"
    using assms by simp
  then show "\<lfloor>r * 18446744073709551616\<rfloor> < 18446744073709551616"
    by (simp add: floor_less_iff)
qed

subsection \<open>Properties\<close>

text \<open>C32: the sampler keeps exactly the fraction asked for: of the \<open>2 ^ 64\<close> values a draw can
  have, those that record the trace are \<open>ratio * 2 ^ 64\<close>, rounded down, all of them from one
  upwards and none from zero downwards.\<close>

theorem sampler_keeps_requested_fraction:
  "\<exists>sm. otel_set_sampler (Fin r) = Some sm \<and>
     int (card {v. draw_sampled sm v}) = max 0 (min (2 ^ 64) \<lfloor>r * 2 ^ 64\<rfloor>)"
proof -
  consider "1 \<le> r" | "r \<le> 0" | "0 < r" "r < 1"
    by linarith
  then show ?thesis
  proof cases
    case 1
    then have "18446744073709551616 \<le> r * 18446744073709551616"
      by simp
    then have "18446744073709551616 \<le> \<lfloor>r * 18446744073709551616\<rfloor>"
      by (simp add: le_floor_iff)
    then show ?thesis
      using 1 by (simp add: otel_set_sampler_def card_sampled min_def)
  next
    case 2
    then have "\<lfloor>r * 18446744073709551616\<rfloor> \<le> 0"
      by (simp add: floor_le_iff mult_nonpos_nonneg less_le_trans[where y = 1] le_less_trans[where y = 0])
    then show ?thesis
      using 2 by (simp add: otel_set_sampler_def card_sampled)
  next
    case 3
    note b = floor_scaled[OF 3]
    have "int (unat (of_int \<lfloor>r * 18446744073709551616\<rfloor> :: u64)) = \<lfloor>r * 18446744073709551616\<rfloor>"
      using b by (simp add: uint_nat[symmetric] uint_word_of_int take_bit_eq_mod flip: uint_nat)
    then show ?thesis
      using 3 b by (simp add: otel_set_sampler_def card_sampled)
  qed
qed

text \<open>The draws a new root span takes its ids from.\<close>

definition root_ids :: "otel_sampler \<Rightarrow> otel_thread_ctx \<Rightarrow> u64 list" where
  "root_ids sm ctx = (if sample_always sm then snd (otel_draws 3 (cx_randstate ctx))
     else tl (snd (otel_draws 4 (cx_randstate ctx))))"

text \<open>C31: a root span is recorded exactly when tracing is on, the thread is registered, and the
  one draw for this decision falls under the threshold (no draw is spent when every trace is
  recorded); it then starts a new trace: the next three draws are its ids and it has no parent.\<close>

theorem root_span_sampling_decision:
  "let c = snd (otel_span_start enabled sm tls s name kind now) in
   (otel_span_recording c \<longleftrightarrow> enabled \<and> (\<exists>ctx. tls = Some ctx \<and> draw_sampled sm (snd (otel_rand ctx)))) \<and>
   (\<not> otel_span_recording c \<or>
      sp_trace_id c = le_bytes 8 (root_ids sm (the tls) ! 0) @ le_bytes 8 (root_ids sm (the tls) ! 1) \<and>
      sp_span_id c = root_ids sm (the tls) ! 2 \<and> sp_parent_id c = 0 \<and> sp_kind c = kind \<and> sp_start_unix_ns c = now)"
proof (cases "enabled \<and> tls \<noteq> None")
  case True
  then obtain ctx where tls: "enabled" "tls = Some ctx" by auto
  obtain r1 d1 where 1: "otel_random_next (cx_randstate ctx) = (r1, d1)" by fastforce
  obtain r2 d2 where 2: "otel_random_next r1 = (r2, d2)" by fastforce
  obtain r3 d3 where 3: "otel_random_next r2 = (r3, d3)" by fastforce
  obtain r4 d4 where 4: "otel_random_next r3 = (r4, d4)" by fastforce
  have "snd (otel_draws 3 (cx_randstate ctx)) = [d1, d2, d3]"
    "snd (otel_draws 4 (cx_randstate ctx)) = [d1, d2, d3, d4]"
    using 1 2 3 4 by (simp_all add: eval_nat_numeral)
  then have ids: "root_ids sm ctx = (if sample_always sm then [d1, d2, d3] else [d2, d3, d4])"
    by (simp add: root_ids_def)
  show ?thesis
    using tls 1 2 3 4
    by (simp add: otel_span_start_def otel_span_start_root_slow_def otel_rand_def ids draw_sampled_def)
qed (auto simp: otel_span_start_def otel_span_start_root_slow_def Let_def)

lemma root_span_sampling_decision_witness:
  "sp_parent_id (snd (otel_span_start True \<lparr>sample_always = True, sample_threshold = 0\<rparr>
     (Some (ctx_new 2 \<lparr>rs_lo = 1, rs_hi = 0\<rparr>)) zero_span None 2 9)) = 0"
  using root_span_sampling_decision[of True "\<lparr>sample_always = True, sample_threshold = 0\<rparr>"
      "Some (ctx_new 2 \<lparr>rs_lo = 1, rs_hi = 0\<rparr>)" zero_span None 2 9]
  by (simp add: Let_def draw_sampled_def)

text \<open>a child is recorded exactly when its parent is and the thread is registered, whatever
  the sampler and the enable flag say meanwhile, and then carries the parent's trace id and the
  parent's span id as its parent id.\<close>

theorem child_inherits_trace:
  "let c = snd (otel_span_start_child tls s name kind parent now) in
   (otel_span_recording c \<longleftrightarrow> (\<exists>p. parent = Some p \<and> otel_span_recording p) \<and> tls \<noteq> None) \<and>
   (\<not> otel_span_recording c \<or>
      sp_trace_id c = sp_trace_id (the parent) \<and> sp_parent_id c = sp_span_id (the parent) \<and>
      sp_start_unix_ns c = now)"
  by (auto simp: otel_span_start_child_def otel_span_start_child_slow_def Let_def
      split: option.splits prod.splits)

lemma child_inherits_trace_witness:
  "sp_trace_id (snd (otel_span_start_child (Some (ctx_new 2 \<lparr>rs_lo = 1, rs_hi = 0\<rparr>)) zero_span None 0
     (Some (otel_span_init zero_span None 0 0)) 9)) = sp_trace_id zero_span"
  using child_inherits_trace[of "Some (ctx_new 2 \<lparr>rs_lo = 1, rs_hi = 0\<rparr>)" zero_span None 0
      "Some (otel_span_init zero_span None 0 0)" 9]
  by (simp add: Let_def)

text \<open>a span started from a propagated context is recorded exactly when tracing is on, the
  upstream sampled it and the thread is registered, and then carries the remote trace id and
  parent id.\<close>

theorem remote_span_continues_trace:
  "let c = snd (otel_span_start_remote enabled tls s name kind trace_id parent_id sampled now) in
   (otel_span_recording c \<longleftrightarrow> enabled \<and> sampled \<and> tls \<noteq> None) \<and>
   (\<not> otel_span_recording c \<or> sp_trace_id c = trace_id \<and> sp_parent_id c = parent_id)"
  by (auto simp: otel_span_start_remote_def otel_span_start_remote_slow_def Let_def
      split: option.splits prod.splits)

lemma remote_span_continues_trace_witness:
  "sp_parent_id (snd (otel_span_start_remote True (Some (ctx_new 2 \<lparr>rs_lo = 1, rs_hi = 0\<rparr>)) zero_span None 0
     (replicate 16 5) 77 True 9)) = 77"
  using remote_span_continues_trace[of True "Some (ctx_new 2 \<lparr>rs_lo = 1, rs_hi = 0\<rparr>)" zero_span None 0
      "replicate 16 5" 77 True 9]
  by (simp add: Let_def)

end
