(* ===== verification/Otel_Export.thy ===== *)
theory Otel_Export
  imports Otel_Platform Otel_Start "HOL-Library.Monad_Syntax"
begin

text \<open>
  The OTLP batch of \<^verbatim>\<open>oteltracing.c\<close> (\<^verbatim>\<open>struct otel_otlp\<close>, \<^verbatim>\<open>otlp_add_attr\<close>,
  \<^verbatim>\<open>otlp_add_span\<close>, \<^verbatim>\<open>otlp_flush\<close>).  The protobuf objects are the pools of the batch; a span or
  event refers to a slice of a pool by its first index and length, as the code's pointers do.
  A store past the end of a pool is \<open>None\<close>.  The generated packing function is the parameter
  \<open>pack\<close>, from the spans of a request to bytes (the resource and scope of a request are
  constant); what the transport is given is appended to \<open>ex_frames\<close>.

  Ids, names and strings are in the batch by value where the code keeps pointers into the span.
  The two agree as long as nobody writes the ring slot of the span before the batch is packed,
  so in every sequential run. Under concurrency a slot can be written earlier;
  \<open>Otel_Borrow\<close> says what the batch shows then, and \<open>Otel_Concurrent\<close> makes it part of its steps.
  \<open>ot_buf\<close> tells whether the frame buffer was allocated; packing without one is \<open>None\<close>.
\<close>

subsection \<open>The batch\<close>

abbreviation (input) OTEL_BATCH_SPANS :: nat where "OTEL_BATCH_SPANS \<equiv> 256"
abbreviation (input) OTEL_BATCH_ATTRS :: nat where "OTEL_BATCH_ATTRS \<equiv> 2048"
abbreviation (input) OTEL_BATCH_EVENTS :: nat where "OTEL_BATCH_EVENTS \<equiv> 1024"

datatype otlp_kind = KIND_INTERNAL | KIND_SERVER | KIND_CLIENT | KIND_PRODUCER | KIND_CONSUMER

datatype otlp_status = STATUS_UNSET | STATUS_OK | STATUS_ERROR

datatype otlp_any = AnyStr "byte list" | AnyInt u64 | AnyDbl u64 | AnyBool u32

type_synonym otlp_kv = "byte list \<times> otlp_any"

record otlp_event =
  oe_time_unix_nano :: u64
  oe_name :: "byte list"
  oe_attributes :: nat
  oe_n_attributes :: nat
  oe_dropped :: nat

record otlp_span =
  os_trace_id :: "byte list"
  os_span_id :: u64
  os_parent_span_id :: "u64 option"
  os_name :: "byte list"
  os_kind :: otlp_kind
  os_start_time :: u64
  os_end_time :: u64
  os_status :: otlp_status
  os_message :: "byte list"
  os_dropped_attrs :: nat
  os_dropped_events :: nat
  os_attributes :: nat
  os_n_attributes :: nat
  os_events :: nat
  os_n_events :: nat

record otel_otlp =
  ot_spans :: "otlp_span list"
  ot_attr :: "otlp_kv list"
  ot_event :: "otlp_event list"
  ot_n_spans :: nat
  ot_num_attrs :: nat
  ot_num_events :: nat
  ot_buf :: bool            \<comment> \<open>\<^verbatim>\<open>buf\<close> points to the frame buffer\<close>

record otel_export =
  ex_otlp :: otel_otlp
  ex_frames :: "byte list list"

subsection \<open>What the packing function reads\<close>

record event_msg =
  me_time :: u64
  me_name :: "byte list"
  me_attrs :: "otlp_kv list"
  me_dropped :: nat

record span_msg =
  ms_trace_id :: "byte list"
  ms_span_id :: u64
  ms_parent_span_id :: "u64 option"
  ms_name :: "byte list"
  ms_kind :: otlp_kind
  ms_start_time :: u64
  ms_end_time :: u64
  ms_status :: otlp_status
  ms_message :: "byte list"
  ms_dropped_attrs :: nat
  ms_dropped_events :: nat
  ms_attrs :: "otlp_kv list"
  ms_events :: "event_msg list"

definition slice :: "'a list \<Rightarrow> nat \<Rightarrow> nat \<Rightarrow> 'a list" where
  "slice xs p n = take n (drop p xs)"

definition msg_event :: "otel_otlp \<Rightarrow> otlp_event \<Rightarrow> event_msg" where
  "msg_event ob e = \<lparr>me_time = oe_time_unix_nano e, me_name = oe_name e,
     me_attrs = slice (ot_attr ob) (oe_attributes e) (oe_n_attributes e), me_dropped = oe_dropped e\<rparr>"

definition msg_span :: "otel_otlp \<Rightarrow> otlp_span \<Rightarrow> span_msg" where
  "msg_span ob sp = \<lparr>ms_trace_id = os_trace_id sp, ms_span_id = os_span_id sp,
     ms_parent_span_id = os_parent_span_id sp, ms_name = os_name sp, ms_kind = os_kind sp,
     ms_start_time = os_start_time sp, ms_end_time = os_end_time sp, ms_status = os_status sp,
     ms_message = os_message sp, ms_dropped_attrs = os_dropped_attrs sp,
     ms_dropped_events = os_dropped_events sp,
     ms_attrs = slice (ot_attr ob) (os_attributes sp) (os_n_attributes sp),
     ms_events = map (msg_event ob) (slice (ot_event ob) (os_events sp) (os_n_events sp))\<rparr>"

definition otlp_request :: "otel_otlp \<Rightarrow> span_msg list" where
  "otlp_request ob = map (msg_span ob) (take (ot_n_spans ob) (ot_spans ob))"

subsection \<open>Encoding\<close>

definition otlp_kind_of :: "byte \<Rightarrow> otlp_kind" where
  "otlp_kind_of kind =
     (if kind = 1 then KIND_SERVER else if kind = 2 then KIND_CLIENT
      else if kind = 3 then KIND_PRODUCER else if kind = 4 then KIND_CONSUMER else KIND_INTERNAL)"

definition otlp_add_attr :: "otel_otlp \<Rightarrow> otel_span \<Rightarrow> nat \<Rightarrow> otel_otlp option" where
  "otlp_add_attr ob s a =
     (if ot_num_attrs ob < length (ot_attr ob)
      then let r = attr_at (sp_arena s) a;
               key = otel_attr_key s a;
               av = (if at_type r = OTEL_ATTR_STR then AnyStr (otel_attr_strval s a)
                     else if at_type r = OTEL_ATTR_I64 then AnyInt (of_le (at_v r))
                     else if at_type r = OTEL_ATTR_U64 then AnyInt (of_le (at_v r))
                     else if at_type r = OTEL_ATTR_F64 then AnyDbl (of_le (at_v r))
                     else if at_type r = OTEL_ATTR_BOOL then AnyBool (of_le (take 4 (at_v r)))
                     else AnyStr [])
           in Some (ob\<lparr>ot_attr := (ot_attr ob)[ot_num_attrs ob := (key, av)],
                       ot_num_attrs := ot_num_attrs ob + 1\<rparr>)
      else None)"

text \<open>The loop \<^verbatim>\<open>for (sa = first; sa; sa = otel_attr_next(s, sa)) otlp_add_attr(o, s, sa)\<close> over
  the addresses the walk yields.\<close>

fun otlp_add_attrs :: "otel_otlp \<Rightarrow> otel_span \<Rightarrow> nat list \<Rightarrow> otel_otlp option" where
  "otlp_add_attrs ob s [] = Some ob"
| "otlp_add_attrs ob s (a # as) = do { ob \<leftarrow> otlp_add_attr ob s a; otlp_add_attrs ob s as }"

definition otlp_add_event :: "otel_otlp \<Rightarrow> otel_span \<Rightarrow> nat \<Rightarrow> otel_otlp option" where
  "otlp_add_event ob s e =
     (if ot_num_events ob < length (ot_event ob)
      then do { as \<leftarrow> walk_attrs s (otel_event_attr_first s e);
                ob' \<leftarrow> otlp_add_attrs ob s as;
                let ev = \<lparr>oe_time_unix_nano = ev_time_unix_ns (event_at (sp_arena s) e),
                          oe_name = otel_event_name s e, oe_attributes = ot_num_attrs ob,
                          oe_n_attributes = length as,
                          oe_dropped = unat (ev_dropped_attrs (event_at (sp_arena s) e))\<rparr>;
                Some (ob'\<lparr>ot_event := (ot_event ob')[ot_num_events ob' := ev],
                          ot_num_events := ot_num_events ob' + 1\<rparr>) }
      else None)"

fun otlp_add_events :: "otel_otlp \<Rightarrow> otel_span \<Rightarrow> nat list \<Rightarrow> otel_otlp option" where
  "otlp_add_events ob s [] = Some ob"
| "otlp_add_events ob s (e # es) = do { ob \<leftarrow> otlp_add_event ob s e; otlp_add_events ob s es }"

text \<open>The request is packed into \<^verbatim>\<open>o->buf\<close>: a null or freed pointer there fails.\<close>

definition otlp_flush :: "(span_msg list \<Rightarrow> byte list) \<Rightarrow> bool \<Rightarrow> otel_export \<Rightarrow> otel_export option" where
  "otlp_flush pack transport ex =
     (let ob = ex_otlp ex
      in if ot_n_spans ob = 0 then Some ex
         else if \<not> ot_buf ob then None
         else let payload = pack (otlp_request ob);
                  frame = 0 # otel_store_be32 (of_nat (length payload)) @ payload
              in Some (ex\<lparr>ex_frames := (if transport then ex_frames ex @ [frame] else ex_frames ex),
                    ex_otlp := ob\<lparr>ot_n_spans := 0, ot_num_attrs := 0, ot_num_events := 0\<rparr>\<rparr>))"

definition otlp_add_span :: "(span_msg list \<Rightarrow> byte list) \<Rightarrow> bool \<Rightarrow> otel_span \<Rightarrow> otel_export \<Rightarrow> otel_export option" where
  "otlp_add_span pack transport s ex = do {
     es \<leftarrow> walk_events s (otel_event_first s);
     let event_attrs = sum_list (map (\<lambda>e. unat (ev_num_attrs (event_at (sp_arena s) e))) es);
     let ob = ex_otlp ex;
     ex \<leftarrow> (if ot_n_spans ob = OTEL_BATCH_SPANS \<or>
              ot_num_attrs ob + unat (sp_num_attrs s) + event_attrs > OTEL_BATCH_ATTRS \<or>
              ot_num_events ob + unat (sp_num_events s) > OTEL_BATCH_EVENTS
           then otlp_flush pack transport ex else Some ex);
     let ob = ex_otlp ex;
     as \<leftarrow> walk_attrs s (otel_attr_first s);
     ob1 \<leftarrow> otlp_add_attrs ob s as;
     ob2 \<leftarrow> otlp_add_events ob1 s es;
     let span = \<lparr>os_trace_id = sp_trace_id s, os_span_id = sp_span_id s,
          os_parent_span_id = (if sp_parent_id s \<noteq> 0 then Some (sp_parent_id s) else None),
          os_name = otel_span_name s, os_kind = otlp_kind_of (sp_kind s),
          os_start_time = sp_start_unix_ns s, os_end_time = sp_end_unix_ns s,
          os_status = (if sp_status s = OTEL_STATUS_ERROR then STATUS_ERROR
                       else if sp_status s = OTEL_STATUS_OK then STATUS_OK else STATUS_UNSET),
          os_message = otel_span_status_message s,
          os_dropped_attrs = unat (sp_dropped_attrs s), os_dropped_events = unat (sp_dropped_events s),
          os_attributes = ot_num_attrs ob, os_n_attributes = length as,
          os_events = ot_num_events ob1, os_n_events = length es\<rparr>;
     if ot_n_spans ob2 < length (ot_spans ob2)
     then Some (ex\<lparr>ex_otlp := ob2\<lparr>ot_spans := (ot_spans ob2)[ot_n_spans ob2 := span],
                                  ot_n_spans := ot_n_spans ob2 + 1\<rparr>\<rparr>)
     else None }"

text \<open>The empty batch that \<^verbatim>\<open>otel_init\<close> prepares when it gets its buffer.\<close>

definition otlp_init :: otel_otlp where
  "otlp_init = \<lparr>
     ot_spans = replicate OTEL_BATCH_SPANS \<lparr>os_trace_id = [], os_span_id = 0, os_parent_span_id = None,
       os_name = [], os_kind = KIND_INTERNAL, os_start_time = 0, os_end_time = 0, os_status = STATUS_UNSET,
       os_message = [], os_dropped_attrs = 0, os_dropped_events = 0, os_attributes = 0,
       os_n_attributes = 0, os_events = 0, os_n_events = 0\<rparr>,
     ot_attr = replicate OTEL_BATCH_ATTRS ([], AnyStr []),
     ot_event = replicate OTEL_BATCH_EVENTS \<lparr>oe_time_unix_nano = 0, oe_name = [], oe_attributes = 0,
       oe_n_attributes = 0, oe_dropped = 0\<rparr>,
     ot_n_spans = 0, ot_num_attrs = 0, ot_num_events = 0, ot_buf = True\<rparr>"

end
