(* ===== verification/Otel_Sqlite.thy ===== *)
theory Otel_Sqlite
  imports Otel_Sqlite_Store Otel_Export
begin

text \<open>
  The SQLite sink of \<^verbatim>\<open>otel_sqlite.c\<close>: the state \<^verbatim>\<open>S\<close>, the hexadecimal form of ids, the three
  callbacks that bracket a drain (\<^verbatim>\<open>otel_sqlite_begin\<close>, \<^verbatim>\<open>otel_sqlite_span\<close>,
  \<^verbatim>\<open>otel_sqlite_end\<close>) and the retention prune.  \<open>lib\<close> is the SQLite library.  Calls with a null
  database handle or statement fail (\<^verbatim>\<open>SQLITE_MISUSE\<close>).  \<open>None\<close> stands for a list walk that never
  ends and for a signed overflow.
\<close>

subsection \<open>State\<close>

record 'db sqlite_state =
  sl_db :: "'db option"
  sl_stmts :: nat            \<comment> \<open>how many of the four insert statements are prepared\<close>
  sl_cur_span :: int
  sl_in_txn :: bool
  sl_commits :: u64
  sl_max_spans :: u64
  sl_have_thread :: bool
  sl_running :: bool
  sl_interval_ms :: u32

subsection \<open>Helpers\<close>

text \<open>The digits \<^verbatim>\<open>0123456789abcdef\<close>.\<close>

definition hexd :: "byte list" where
  "hexd = [48, 49, 50, 51, 52, 53, 54, 55, 56, 57, 97, 98, 99, 100, 101, 102]"

fun otel_sqlite_hex :: "byte list \<Rightarrow> byte list" where
  "otel_sqlite_hex [] = []"
| "otel_sqlite_hex (b # bs) = hexd ! unat (drop_bit 4 b) # hexd ! unat (b AND 15) # otel_sqlite_hex bs"

definition sl_step :: "'db sqlite_lib \<Rightarrow> sql_stmt \<Rightarrow> 'db sqlite_state \<Rightarrow> 'db sqlite_state \<times> bool" where
  "sl_step lib q S =
     (case sl_db S of
        None \<Rightarrow> (S, False)
      | Some db \<Rightarrow> let (db, ok) = lib_step lib db q in (S\<lparr>sl_db := Some db\<rparr>, ok))"

text \<open>\<^verbatim>\<open>sqlite3_exec\<close> runs the statements of a script until one fails; true is the return value 0.\<close>

fun otel_sqlite_exec :: "'db sqlite_lib \<Rightarrow> sql_stmt list \<Rightarrow> 'db sqlite_state \<Rightarrow> 'db sqlite_state \<times> bool" where
  "otel_sqlite_exec lib [] S = (S, True)"
| "otel_sqlite_exec lib (q # qs) S =
     (let (S, ok) = sl_step lib q S in if ok then otel_sqlite_exec lib qs S else (S, False))"

definition attr_row_of :: "otel_span \<Rightarrow> int \<Rightarrow> nat \<Rightarrow> attr_row" where
  "attr_row_of s owner a =
     (let r = attr_at (sp_arena s) a
      in \<lparr>ar_owner = owner, ar_key = otel_attr_key s a, ar_type = uint (at_type r),
          ar_s_val = (if at_type r = OTEL_ATTR_STR then Some (otel_attr_strval s a) else None),
          ar_i_val = (if at_type r = OTEL_ATTR_I64 then Some (sint (of_le (at_v r) :: u64))
                      else if at_type r = OTEL_ATTR_U64 then Some (sint (of_le (at_v r) :: u64))
                      else if at_type r = OTEL_ATTR_BOOL
                        then Some (if (of_le (take 4 (at_v r)) :: u32) \<noteq> 0 then 1 else 0)
                      else None),
          ar_d_val = (if at_type r = OTEL_ATTR_F64 then Some (of_le (at_v r)) else None)\<rparr>)"

text \<open>\<open>ins\<close> is the prepared statement: \<open>QInsAttr\<close> or \<open>QInsEventAttr\<close>.\<close>

definition otel_sqlite_insert_attr :: "'db sqlite_lib \<Rightarrow> (attr_row \<Rightarrow> sql_stmt) \<Rightarrow> int \<Rightarrow> otel_span \<Rightarrow> nat \<Rightarrow>
    'db sqlite_state \<Rightarrow> 'db sqlite_state" where
  "otel_sqlite_insert_attr lib ins owner s a S = fst (sl_step lib (ins (attr_row_of s owner a)) S)"

definition insert_attrs :: "'db sqlite_lib \<Rightarrow> (attr_row \<Rightarrow> sql_stmt) \<Rightarrow> int \<Rightarrow> otel_span \<Rightarrow> nat list \<Rightarrow>
    'db sqlite_state \<Rightarrow> 'db sqlite_state" where
  "insert_attrs lib ins owner s as S = fold (otel_sqlite_insert_attr lib ins owner s) as S"

definition sl_rowid :: "'db sqlite_lib \<Rightarrow> 'db sqlite_state \<Rightarrow> int" where
  "sl_rowid lib S = (case sl_db S of None \<Rightarrow> 0 | Some db \<Rightarrow> lib_rowid lib db)"

subsection \<open>The sink callbacks\<close>

definition otel_sqlite_begin :: "'db sqlite_lib \<Rightarrow> 'db sqlite_state \<Rightarrow> 'db sqlite_state" where
  "otel_sqlite_begin lib S = (let (S, ok) = otel_sqlite_exec lib [QBegin] S in S\<lparr>sl_in_txn := ok\<rparr>)"

definition span_row_of :: "byte list \<Rightarrow> otel_span \<Rightarrow> span_row" where
  "span_row_of service s = \<lparr>
     sr_trace_id = otel_sqlite_hex (sp_trace_id s),
     sr_span_id = otel_sqlite_hex (le_bytes 8 (sp_span_id s)),
     sr_parent_id = (if sp_parent_id s \<noteq> 0 then Some (otel_sqlite_hex (le_bytes 8 (sp_parent_id s))) else None),
     sr_service = service, sr_name = otel_span_name s,
     sr_kind = uint (sp_kind s), sr_status_code = uint (sp_status s),
     sr_status_message = otel_span_status_message s,
     sr_start_unix_ns = sint (sp_start_unix_ns s), sr_end_unix_ns = sint (sp_end_unix_ns s),
     sr_duration_ns = sint (sp_end_unix_ns s - sp_start_unix_ns s),
     sr_dropped_attrs = uint (sp_dropped_attrs s), sr_dropped_events = uint (sp_dropped_events s)\<rparr>"

definition insert_event :: "'db sqlite_lib \<Rightarrow> otel_span \<Rightarrow> nat \<Rightarrow> 'db sqlite_state \<Rightarrow> 'db sqlite_state option" where
  "insert_event lib s e S =
     (let (S, ok) = sl_step lib (QInsEvent \<lparr>er_span = sl_cur_span S, er_name = otel_event_name s e,
                                   er_time_unix_ns = sint (ev_time_unix_ns (event_at (sp_arena s) e))\<rparr>) S
      in if \<not> ok then Some S
         else do { as \<leftarrow> walk_attrs s (otel_event_attr_first s e);
                   Some (insert_attrs lib QInsEventAttr (sl_rowid lib S) s as S) })"

fun insert_events :: "'db sqlite_lib \<Rightarrow> otel_span \<Rightarrow> nat list \<Rightarrow> 'db sqlite_state \<Rightarrow> 'db sqlite_state option" where
  "insert_events lib s [] S = Some S"
| "insert_events lib s (e # es) S = do { S \<leftarrow> insert_event lib s e S; insert_events lib s es S }"

definition otel_sqlite_span :: "'db sqlite_lib \<Rightarrow> byte list \<Rightarrow> otel_span \<Rightarrow> 'db sqlite_state \<Rightarrow> 'db sqlite_state option" where
  "otel_sqlite_span lib service s S =
     (if \<not> sl_in_txn S then Some S
      else let (S, ok) = sl_step lib (QInsSpan (span_row_of service s)) S
           in if \<not> ok then Some S
              else let S = S\<lparr>sl_cur_span := sl_rowid lib S\<rparr>
                   in do { as \<leftarrow> walk_attrs s (otel_attr_first s);
                           let S = insert_attrs lib QInsAttr (sl_cur_span S) s as S;
                           es \<leftarrow> walk_events s (otel_event_first s);
                           insert_events lib s es S })"

text \<open>The cutoff is computed in \<^verbatim>\<open>sqlite3_int64\<close>: the cast of the unsigned cap and the
  subtraction are signed.\<close>

definition prune_cutoff :: "int \<Rightarrow> u64 \<Rightarrow> int option" where
  "prune_cutoff maxid max_spans =
     (let c = maxid - sint max_spans in if - (2 ^ 63) \<le> c \<and> c < 2 ^ 63 then Some c else None)"

definition prune_script :: "int \<Rightarrow> sql_stmt list" where
  "prune_script c = [QDelEventAttrs c, QDelAttrs c, QDelEvents c, QDelSpans c]"

definition otel_sqlite_prune :: "'db sqlite_lib \<Rightarrow> 'db sqlite_state \<Rightarrow> 'db sqlite_state option" where
  "otel_sqlite_prune lib S =
     (if sl_max_spans S = 0 then Some S
      else case sl_db S of
        None \<Rightarrow> Some S
      | Some db \<Rightarrow>
          (if lib_max lib db = PrepareFailed then Some S
           else do { cutoff \<leftarrow> prune_cutoff (case lib_max lib db of ValueRow m \<Rightarrow> m | _ \<Rightarrow> 0) (sl_max_spans S);
                     if cutoff \<le> 0 then Some S
                     else Some (fst (otel_sqlite_exec lib (prune_script cutoff) S)) }))"

definition otel_sqlite_end :: "'db sqlite_lib \<Rightarrow> 'db sqlite_state \<Rightarrow> 'db sqlite_state option" where
  "otel_sqlite_end lib S =
     (if \<not> sl_in_txn S then Some S
      else let (S, _) = otel_sqlite_exec lib [QCommit] S;
               S = S\<lparr>sl_in_txn := False, sl_commits := sl_commits S + 1\<rparr>
           in if sl_commits S mod 64 = 0
              then do { S \<leftarrow> otel_sqlite_prune lib S; Some (fst (sl_step lib QCheckpoint S)) }
              else Some S)"

definition otel_sqlite_set_max_spans :: "u64 \<Rightarrow> 'db sqlite_state \<Rightarrow> 'db sqlite_state" where
  "otel_sqlite_set_max_spans n S = S\<lparr>sl_max_spans := n\<rparr>"

end
