(* ===== verification/Otel_Export_Props.thy ===== *)
theory Otel_Export_Props
  imports Otel_Export
begin

text \<open>
  What the batch promises: no store leaves a pool, the message of a span is the translation
  of what a consumer reads from it, messages already in the batch do not change when more
  are added, and every span handed to the exporter reaches the transport once, in order.
\<close>

subsection \<open>The translation of a span\<close>

fun any_of :: "otel_value \<Rightarrow> otlp_any" where
  "any_of (VStr str) = AnyStr str"
| "any_of (VI64 w) = AnyInt w"
| "any_of (VU64 w) = AnyInt w"
| "any_of (VF64 w) = AnyDbl w"
| "any_of (VBool b) = AnyBool b"
| "any_of (VOther t) = AnyStr []"

definition kv_msg :: "byte list \<times> otel_value \<Rightarrow> otlp_kv" where
  "kv_msg x = (fst x, any_of (snd x))"

definition event_to_msg :: "event_view \<Rightarrow> event_msg" where
  "event_to_msg w = \<lparr>me_time = evw_time w, me_name = evw_name w, me_attrs = map kv_msg (evw_attrs w),
     me_dropped = evw_dropped w\<rparr>"

fun status_msg :: "byte \<Rightarrow> otlp_status" where
  "status_msg b = (if b = 1 then STATUS_OK else if b = 2 then STATUS_ERROR else STATUS_UNSET)"

definition span_to_msg :: "otel_span \<Rightarrow> span_view \<Rightarrow> span_msg" where
  "span_to_msg s v = \<lparr>ms_trace_id = sp_trace_id s, ms_span_id = sp_span_id s,
     ms_parent_span_id = (if sp_parent_id s = 0 then None else Some (sp_parent_id s)),
     ms_name = vw_name v, ms_kind = otlp_kind_of (sp_kind s), ms_start_time = sp_start_unix_ns s,
     ms_end_time = sp_end_unix_ns s, ms_status = status_msg (vw_status v), ms_message = vw_message v,
     ms_dropped_attrs = vw_dropped_attrs v, ms_dropped_events = vw_dropped_events v,
     ms_attrs = map kv_msg (vw_attrs v), ms_events = map event_to_msg (vw_events v)\<rparr>"

subsection \<open>Slices and growth of the pools\<close>

lemma slice_prefix: "p + n \<le> m \<Longrightarrow> take m xs = take m ys \<Longrightarrow> slice xs p n = slice ys p n"
proof -
  assume "p + n \<le> m" "take m xs = take m ys"
  moreover have "slice zs p n = slice (take m zs) p n" if "p + n \<le> m" for zs :: "'a list"
    using that by (simp add: slice_def drop_take min_def)
  ultimately show ?thesis by metis
qed

lemma slice_Suc: "p < length xs \<Longrightarrow> slice xs p (Suc n) = (xs ! p) # slice xs (Suc p) n"
  by (simp add: slice_def flip: Cons_nth_drop_Suc)

lemma slice_0 [simp]: "slice xs p 0 = []"
  by (simp add: slice_def)

definition grows :: "otel_otlp \<Rightarrow> otel_otlp \<Rightarrow> bool" where
  "grows ob ob' \<longleftrightarrow> length (ot_attr ob') = length (ot_attr ob) \<and> length (ot_event ob') = length (ot_event ob) \<and>
     ot_spans ob' = ot_spans ob \<and> ot_n_spans ob' = ot_n_spans ob \<and> ot_buf ob' = ot_buf ob \<and>
     ot_num_attrs ob \<le> ot_num_attrs ob' \<and> ot_num_events ob \<le> ot_num_events ob' \<and>
     take (ot_num_attrs ob) (ot_attr ob') = take (ot_num_attrs ob) (ot_attr ob) \<and>
     take (ot_num_events ob) (ot_event ob') = take (ot_num_events ob) (ot_event ob)"

lemma grows_refl [simp]: "grows ob ob"
  by (simp add: grows_def)

lemma take_mono_eq: "m \<le> n \<Longrightarrow> take n xs = take n ys \<Longrightarrow> take m xs = take m ys"
  by (metis min.absorb1 take_take)

lemma grows_trans: "grows a b \<Longrightarrow> grows b c \<Longrightarrow> grows a c"
  unfolding grows_def by (auto dest: take_mono_eq)

definition event_bounded :: "otel_otlp \<Rightarrow> otlp_event \<Rightarrow> bool" where
  "event_bounded ob e \<longleftrightarrow> oe_attributes e + oe_n_attributes e \<le> ot_num_attrs ob"

definition span_bounded :: "otel_otlp \<Rightarrow> otlp_span \<Rightarrow> bool" where
  "span_bounded ob sp \<longleftrightarrow> os_attributes sp + os_n_attributes sp \<le> ot_num_attrs ob \<and>
     os_events sp + os_n_events sp \<le> ot_num_events ob \<and>
     (\<forall>e \<in> set (slice (ot_event ob) (os_events sp) (os_n_events sp)). event_bounded ob e)"

lemma grows_event: "grows ob ob' \<Longrightarrow> event_bounded ob e \<Longrightarrow> msg_event ob' e = msg_event ob e \<and> event_bounded ob' e"
  unfolding grows_def event_bounded_def msg_event_def by (auto intro: slice_prefix)

lemma grows_span:
  assumes "grows ob ob'" and "span_bounded ob sp"
  shows "msg_span ob' sp = msg_span ob sp" "span_bounded ob' sp"
proof -
  have b: "os_attributes sp + os_n_attributes sp \<le> ot_num_attrs ob"
    "os_events sp + os_n_events sp \<le> ot_num_events ob"
    "\<forall>e \<in> set (slice (ot_event ob) (os_events sp) (os_n_events sp)). event_bounded ob e"
    using assms(2) by (auto simp: span_bounded_def)
  have a: "slice (ot_attr ob') (os_attributes sp) (os_n_attributes sp) =
      slice (ot_attr ob) (os_attributes sp) (os_n_attributes sp)"
    using assms(1) by (intro slice_prefix[OF b(1)]) (simp add: grows_def)
  have e: "slice (ot_event ob') (os_events sp) (os_n_events sp) = slice (ot_event ob) (os_events sp) (os_n_events sp)"
    using assms(1) by (intro slice_prefix[OF b(2)]) (simp add: grows_def)
  show "msg_span ob' sp = msg_span ob sp"
    using b(3) grows_event[OF assms(1)] by (simp add: msg_span_def a e)
  show "span_bounded ob' sp"
    using assms(1) b grows_event[OF assms(1)] unfolding span_bounded_def e by (auto simp: grows_def)
qed

subsection \<open>Attributes and events\<close>

definition kv_of :: "otel_span \<Rightarrow> nat \<Rightarrow> otlp_kv" where
  "kv_of s a = kv_msg (attr_view s a)"

lemma add_attr_eq:
  "ot_num_attrs ob < length (ot_attr ob) \<Longrightarrow> otlp_add_attr ob s a =
     Some (ob\<lparr>ot_attr := (ot_attr ob)[ot_num_attrs ob := kv_of s a], ot_num_attrs := ot_num_attrs ob + 1\<rparr>)"
  by (simp add: otlp_add_attr_def kv_of_def kv_msg_def attr_view_def attr_value_def Let_def)

lemma add_attrs_ok:
  "ot_num_attrs ob + length as \<le> length (ot_attr ob) \<Longrightarrow>
   \<exists>ob'. otlp_add_attrs ob s as = Some ob' \<and> grows ob ob' \<and> ot_num_attrs ob' = ot_num_attrs ob + length as \<and>
     ot_num_events ob' = ot_num_events ob \<and> slice (ot_attr ob') (ot_num_attrs ob) (length as) = map (kv_of s) as"
proof (induction as arbitrary: ob)
  case (Cons a as)
  define n where "n = ot_num_attrs ob"
  define ob1 where "ob1 = ob\<lparr>ot_attr := (ot_attr ob)[n := kv_of s a], ot_num_attrs := n + 1\<rparr>"
  have n: "n < length (ot_attr ob)"
    using Cons.prems by (simp add: n_def)
  then have 1: "otlp_add_attr ob s a = Some ob1"
    using add_attr_eq by (simp add: ob1_def n_def)
  have "ot_num_attrs ob1 + length as \<le> length (ot_attr ob1)"
    using Cons.prems by (simp add: ob1_def n_def)
  from Cons.IH[OF this] obtain ob' where 2: "otlp_add_attrs ob1 s as = Some ob'" "grows ob1 ob'"
    "ot_num_attrs ob' = n + 1 + length as" "ot_num_events ob' = ot_num_events ob"
    "slice (ot_attr ob') (n + 1) (length as) = map (kv_of s) as"
    by (auto simp: ob1_def)
  have "grows ob ob1"
    using n by (simp add: grows_def ob1_def n_def)
  then have g: "grows ob ob'"
    using 2(2) by (rule grows_trans)
  have "take (n + 1) (ot_attr ob') = take (n + 1) (ot_attr ob1)" "length (ot_attr ob') = length (ot_attr ob)"
    using 2(2) by (auto simp: grows_def ob1_def)
  then have "ot_attr ob' ! n = kv_of s a" "n < length (ot_attr ob')"
    using n nth_take[of n "n + 1" "ot_attr ob'"] nth_take[of n "n + 1" "ot_attr ob1"] by (auto simp: ob1_def)
  then show ?case
    using 1 2 g by (auto simp: n_def slice_Suc)
qed simp

definition event_msg_of :: "otel_span \<Rightarrow> nat \<Rightarrow> nat list \<Rightarrow> event_msg" where
  "event_msg_of s e as = \<lparr>me_time = ev_time_unix_ns (event_at (sp_arena s) e), me_name = otel_event_name s e,
     me_attrs = map (kv_of s) as, me_dropped = unat (ev_dropped_attrs (event_at (sp_arena s) e))\<rparr>"

lemma add_event_ok:
  assumes walk: "walk_attrs s (otel_event_attr_first s e) = Some as"
    and room: "ot_num_events ob < length (ot_event ob)" "ot_num_attrs ob + length as \<le> length (ot_attr ob)"
  shows "\<exists>ob'. otlp_add_event ob s e = Some ob' \<and> grows ob ob' \<and> ot_num_attrs ob' = ot_num_attrs ob + length as \<and>
     ot_num_events ob' = ot_num_events ob + 1 \<and> msg_event ob' (ot_event ob' ! ot_num_events ob) = event_msg_of s e as \<and>
     event_bounded ob' (ot_event ob' ! ot_num_events ob)"
proof -
  from add_attrs_ok[OF room(2), of s] obtain ob1 where 1: "otlp_add_attrs ob s as = Some ob1" "grows ob ob1"
    "ot_num_attrs ob1 = ot_num_attrs ob + length as" "ot_num_events ob1 = ot_num_events ob"
    "slice (ot_attr ob1) (ot_num_attrs ob) (length as) = map (kv_of s) as" by blast
  have "length (ot_event ob1) = length (ot_event ob)"
    using 1(2) by (simp add: grows_def)
  then show ?thesis
    using room walk 1 by (auto simp: otlp_add_event_def grows_def msg_event_def event_msg_of_def event_bounded_def)
qed

lemma add_events_ok:
  assumes "\<And>e. e \<in> set es \<Longrightarrow> walk_attrs s (otel_event_attr_first s e) = Some (f e)"
    and "ot_num_events ob + length es \<le> length (ot_event ob)"
    and "ot_num_attrs ob + sum_list (map (\<lambda>e. length (f e)) es) \<le> length (ot_attr ob)"
  shows "\<exists>ob'. otlp_add_events ob s es = Some ob' \<and> grows ob ob' \<and>
     ot_num_attrs ob' = ot_num_attrs ob + sum_list (map (\<lambda>e. length (f e)) es) \<and>
     ot_num_events ob' = ot_num_events ob + length es \<and>
     map (msg_event ob') (slice (ot_event ob') (ot_num_events ob) (length es)) = map (\<lambda>e. event_msg_of s e (f e)) es \<and>
     (\<forall>ev \<in> set (slice (ot_event ob') (ot_num_events ob) (length es)). event_bounded ob' ev)"
  using assms
proof (induction es arbitrary: ob)
  case (Cons e es)
  define n where "n = ot_num_events ob"
  have "ot_num_events ob < length (ot_event ob)" "ot_num_attrs ob + length (f e) \<le> length (ot_attr ob)"
    using Cons.prems(2,3) by auto
  from add_event_ok[OF Cons.prems(1)[of e] this] obtain ob1 where 1: "otlp_add_event ob s e = Some ob1"
    "grows ob ob1" "ot_num_attrs ob1 = ot_num_attrs ob + length (f e)" "ot_num_events ob1 = n + 1"
    "msg_event ob1 (ot_event ob1 ! n) = event_msg_of s e (f e)" "event_bounded ob1 (ot_event ob1 ! n)"
    by (auto simp: n_def)
  have len: "length (ot_event ob1) = length (ot_event ob)" "length (ot_attr ob1) = length (ot_attr ob)"
    using 1(2) by (auto simp: grows_def)
  have "\<exists>ob'. otlp_add_events ob1 s es = Some ob' \<and> grows ob1 ob' \<and>
     ot_num_attrs ob' = ot_num_attrs ob1 + sum_list (map (\<lambda>e. length (f e)) es) \<and>
     ot_num_events ob' = ot_num_events ob1 + length es \<and>
     map (msg_event ob') (slice (ot_event ob') (ot_num_events ob1) (length es)) = map (\<lambda>e. event_msg_of s e (f e)) es \<and>
     (\<forall>ev \<in> set (slice (ot_event ob') (ot_num_events ob1) (length es)). event_bounded ob' ev)"
    using Cons.prems 1(3,4) len by (intro Cons.IH) (auto simp: n_def)
  then obtain ob' where 2: "otlp_add_events ob1 s es = Some ob'" "grows ob1 ob'"
     "ot_num_attrs ob' = ot_num_attrs ob1 + sum_list (map (\<lambda>e. length (f e)) es)"
     "ot_num_events ob' = n + 1 + length es"
     "map (msg_event ob') (slice (ot_event ob') (n + 1) (length es)) = map (\<lambda>e. event_msg_of s e (f e)) es"
     "\<forall>ev \<in> set (slice (ot_event ob') (n + 1) (length es)). event_bounded ob' ev"
    by (auto simp: 1(4))
  have "take (n + 1) (ot_event ob') = take (n + 1) (ot_event ob1)" "length (ot_event ob') = length (ot_event ob)"
    using 2(2) 1(4) len by (auto simp: grows_def)
  moreover have "n < length (ot_event ob)"
    using Cons.prems(2) by (simp add: n_def)
  ultimately have "ot_event ob' ! n = ot_event ob1 ! n" "n < length (ot_event ob')"
    using nth_take[of n "n + 1" "ot_event ob'"] nth_take[of n "n + 1" "ot_event ob1"] by auto
  then show ?case
    using 1 2 grows_trans[OF 1(2) 2(2)] grows_event[OF 2(2) 1(6)] by (auto simp: n_def slice_Suc)
qed simp

subsection \<open>A whole span\<close>

definition batch_ok :: "otel_otlp \<Rightarrow> bool" where
  "batch_ok ob \<longleftrightarrow> length (ot_spans ob) = 256 \<and> length (ot_attr ob) = 2048 \<and> length (ot_event ob) = 1024 \<and>
     ot_n_spans ob \<le> 256 \<and> ot_num_attrs ob \<le> 2048 \<and> ot_num_events ob \<le> 1024 \<and>
     (ot_n_spans ob = 0 \<longrightarrow> ot_num_attrs ob = 0 \<and> ot_num_events ob = 0) \<and> ot_buf ob \<and>
     (\<forall>sp \<in> set (take (ot_n_spans ob) (ot_spans ob)). span_bounded ob sp)"

definition frame_of :: "(span_msg list \<Rightarrow> byte list) \<Rightarrow> span_msg list \<Rightarrow> byte list" where
  "frame_of pack msgs = 0 # otel_store_be32 (of_nat (length (pack msgs))) @ pack msgs"

text \<open>What a flush leaves when there is a buffer.\<close>

definition flushed :: "(span_msg list \<Rightarrow> byte list) \<Rightarrow> bool \<Rightarrow> otel_export \<Rightarrow> otel_export" where
  "flushed pack transport ex = the (otlp_flush pack transport ex)"

lemma batch_buf: "batch_ok ob \<Longrightarrow> ot_buf ob"
  by (simp add: batch_ok_def)

lemma flush_ok: "batch_ok (ex_otlp ex) \<Longrightarrow> otlp_flush pack transport ex = Some (flushed pack transport ex)"
  by (simp add: flushed_def otlp_flush_def batch_ok_def Let_def)

lemma flush_batch:
  "batch_ok (ex_otlp ex) \<Longrightarrow> batch_ok (ex_otlp (flushed pack transport ex)) \<and>
     ot_n_spans (ex_otlp (flushed pack transport ex)) = 0 \<and>
     otlp_request (ex_otlp (flushed pack transport ex)) = []"
  by (auto simp: flushed_def otlp_flush_def batch_ok_def otlp_request_def Let_def)

lemma request_Nil: "batch_ok ob \<Longrightarrow> otlp_request ob = [] \<longleftrightarrow> ot_n_spans ob = 0"
  by (auto simp: otlp_request_def batch_ok_def)

lemma length_request: "batch_ok ob \<Longrightarrow> length (otlp_request ob) \<le> 256"
  by (simp add: otlp_request_def batch_ok_def)

lemma flush_frames:
  "batch_ok (ex_otlp ex) \<Longrightarrow> ex_frames (flushed pack transport ex) = ex_frames ex @
     (if transport \<and> otlp_request (ex_otlp ex) \<noteq> [] then [frame_of pack (otlp_request (ex_otlp ex))] else [])"
  using batch_buf[of "ex_otlp ex"] by (auto simp: flushed_def otlp_flush_def request_Nil frame_of_def Let_def)

lemma exportable_walks:
  assumes "exportable s v"
  obtains as es f where "walk_attrs s (otel_attr_first s) = Some as" "map (attr_view s) as = vw_attrs v"
    "walk_events s (otel_event_first s) = Some es"
    "\<And>e. e \<in> set es \<Longrightarrow> walk_attrs s (otel_event_attr_first s e) = Some (f e)"
    "map (\<lambda>e. event_msg_of s e (f e)) es = map event_to_msg (vw_events v)"
    "map (\<lambda>e. length (f e)) es = map (\<lambda>w. length (evw_attrs w)) (vw_events v)"
    "map (\<lambda>e. unat (ev_num_attrs (event_at (sp_arena s) e))) es = map (\<lambda>w. length (evw_attrs w)) (vw_events v)"
    "otel_span_name s = vw_name v" "sp_status s = vw_status v" "otel_span_status_message s = vw_message v"
    "unat (sp_dropped_attrs s) = vw_dropped_attrs v" "unat (sp_dropped_events s) = vw_dropped_events v"
proof -
  from assms obtain as es evs where w: "walk_attrs s (otel_attr_first s) = Some as"
    "walk_events s (otel_event_first s) = Some es" "those (map (event_view_of s) es) = Some evs"
    and v: "v = \<lparr>vw_name = otel_span_name s, vw_status = sp_status s,
         vw_message = otel_span_status_message s, vw_attrs = map (attr_view s) as,
         vw_events = evs, vw_dropped_attrs = unat (sp_dropped_attrs s),
         vw_dropped_events = unat (sp_dropped_events s), vw_used = unat (sp_arena_used s)\<rparr>"
    and n: "map (\<lambda>e. unat (ev_num_attrs (event_at (sp_arena s) e))) es = map (\<lambda>w. length (evw_attrs w)) (vw_events v)"
    by (auto simp: exportable_def span_view_of_def split: bind_splits)
  define f where "f = (\<lambda>e. the (walk_attrs s (otel_event_attr_first s e)))"
  have those_all: "those xs = Some ys \<Longrightarrow> xs = map Some ys" for xs :: "event_view option list" and ys
    by (induction xs arbitrary: ys) (auto split: option.splits)
  have e: "event_view_of s x \<noteq> None" if "x \<in> set es" for x
    using those_all[OF w(3)] that by (metis list.set_map image_iff option.distinct(1))
  have "map the (map (event_view_of s) es) = evs"
    unfolding those_all[OF w(3)] by (simp add: comp_def)
  then have evs: "evs = map (\<lambda>e. the (event_view_of s e)) es"
    by (simp add: comp_def)
  have f: "walk_attrs s (otel_event_attr_first s x) = Some (f x)" if "x \<in> set es" for x
    using e[OF that] by (auto simp: event_view_of_def f_def)
  have m: "event_msg_of s x (f x) = event_to_msg (the (event_view_of s x))"
    "length (f x) = length (evw_attrs (the (event_view_of s x)))" if "x \<in> set es" for x
    using f[OF that] by (simp_all add: event_view_of_def event_msg_of_def event_to_msg_def kv_of_def)
  have vs: "vw_attrs v = map (attr_view s) as" "vw_events v = map (\<lambda>e. the (event_view_of s e)) es"
    by (simp_all add: v evs)
  show ?thesis
  proof (rule that[OF w(1) _ w(2) f _ _ n])
    show "map (\<lambda>e. event_msg_of s e (f e)) es = map event_to_msg (vw_events v)"
      "map (\<lambda>e. length (f e)) es = map (\<lambda>w. length (evw_attrs w)) (vw_events v)"
      unfolding vs using m by simp_all
  qed (simp_all add: v)
qed

text \<open>Adding one span: either it joins the batch, or the full batch is sent first.\<close>

lemma add_span_ok:
  assumes batch: "batch_ok (ex_otlp ex)" and s: "exportable s v"
  shows "\<exists>ex'. otlp_add_span pack transport s ex = Some ex' \<and> batch_ok (ex_otlp ex') \<and>
    (ex_frames ex' = ex_frames ex \<and> otlp_request (ex_otlp ex') = otlp_request (ex_otlp ex) @ [span_to_msg s v] \<or>
     ex_frames ex' = ex_frames (flushed pack transport ex) \<and> otlp_request (ex_otlp ex) \<noteq> [] \<and>
       otlp_request (ex_otlp ex') = [span_to_msg s v])"
proof -
  from s have cnt: "unat (sp_num_attrs s) = length (vw_attrs v)" "unat (sp_num_events s) = length (vw_events v)"
    "length (vw_attrs v) + sum_list (map (\<lambda>w. length (evw_attrs w)) (vw_events v)) \<le> 251"
    "length (vw_events v) \<le> 167"
    by (auto simp: exportable_def)
  obtain as es f where w: "walk_attrs s (otel_attr_first s) = Some as"
    "map (attr_view s) as = vw_attrs v" "walk_events s (otel_event_first s) = Some es"
    "\<And>e. e \<in> set es \<Longrightarrow> walk_attrs s (otel_event_attr_first s e) = Some (f e)"
    "map (\<lambda>e. event_msg_of s e (f e)) es = map event_to_msg (vw_events v)"
    "map (\<lambda>e. length (f e)) es = map (\<lambda>w. length (evw_attrs w)) (vw_events v)"
    "map (\<lambda>e. unat (ev_num_attrs (event_at (sp_arena s) e))) es = map (\<lambda>w. length (evw_attrs w)) (vw_events v)"
    "otel_span_name s = vw_name v" "sp_status s = vw_status v" "otel_span_status_message s = vw_message v"
    "unat (sp_dropped_attrs s) = vw_dropped_attrs v" "unat (sp_dropped_events s) = vw_dropped_events v"
    by (rule exportable_walks[OF s], rule that)
  have len: "length as = length (vw_attrs v)" "length es = length (vw_events v)"
    using w(2,5) by (metis length_map)+
  define na where "na = sum_list (map (\<lambda>e. length (f e)) es)"
  have na: "sum_list (map (\<lambda>e. unat (ev_num_attrs (event_at (sp_arena s) e))) es) = na"
    "length as + na \<le> 251" "length es \<le> 167"
    unfolding na_def using w(6,7) cnt(3,4) len by simp_all
  define full where "full \<longleftrightarrow> ot_n_spans (ex_otlp ex) = 256 \<or>
    ot_num_attrs (ex_otlp ex) + length as + na > 2048 \<or> ot_num_events (ex_otlp ex) + length es > 1024"
  define ex1 where "ex1 = (if full then flushed pack transport ex else ex)"
  define ob where "ob = ex_otlp ex1"
  have bo: "batch_ok ob"
    using batch flush_batch unfolding ob_def ex1_def by simp
  have room: "ot_n_spans ob < 256" "ot_num_attrs ob + length as + na \<le> 2048" "ot_num_events ob + length es \<le> 1024"
    using batch flush_batch[OF batch, of pack transport] na(2,3) unfolding ob_def ex1_def full_def
    by (auto simp: batch_ok_def split: if_splits)
  have lens: "length (ot_attr ob) = 2048" "length (ot_event ob) = 1024" "length (ot_spans ob) = 256"
    using bo by (auto simp: batch_ok_def)
  have "ot_num_attrs ob + length as \<le> length (ot_attr ob)"
    using room lens by simp
  from add_attrs_ok[OF this, of s] obtain ob1 where 1: "otlp_add_attrs ob s as = Some ob1" "grows ob ob1"
    "ot_num_attrs ob1 = ot_num_attrs ob + length as" "ot_num_events ob1 = ot_num_events ob"
    "slice (ot_attr ob1) (ot_num_attrs ob) (length as) = map (kv_of s) as" by blast
  have l1: "length (ot_attr ob1) = 2048" "length (ot_event ob1) = 1024"
    using 1(2) lens by (simp_all add: grows_def)
  have "\<exists>ob2. otlp_add_events ob1 s es = Some ob2 \<and> grows ob1 ob2 \<and>
     ot_num_attrs ob2 = ot_num_attrs ob1 + sum_list (map (\<lambda>e. length (f e)) es) \<and>
     ot_num_events ob2 = ot_num_events ob1 + length es \<and>
     map (msg_event ob2) (slice (ot_event ob2) (ot_num_events ob1) (length es)) = map (\<lambda>e. event_msg_of s e (f e)) es \<and>
     (\<forall>ev \<in> set (slice (ot_event ob2) (ot_num_events ob1) (length es)). event_bounded ob2 ev)"
    using w(4) room l1 1(3,4) by (intro add_events_ok) (auto simp: na_def)
  then obtain ob2 where 2: "otlp_add_events ob1 s es = Some ob2" "grows ob1 ob2"
     "ot_num_attrs ob2 = ot_num_attrs ob + length as + na" "ot_num_events ob2 = ot_num_events ob + length es"
     "map (msg_event ob2) (slice (ot_event ob2) (ot_num_events ob) (length es)) = map event_to_msg (vw_events v)"
     "\<forall>ev \<in> set (slice (ot_event ob2) (ot_num_events ob) (length es)). event_bounded ob2 ev"
    by (auto simp: na_def 1(3,4) w(5))
  have g: "grows ob ob2"
    using 1(2) 2(2) by (rule grows_trans)
  define sp where "sp = \<lparr>os_trace_id = sp_trace_id s, os_span_id = sp_span_id s,
          os_parent_span_id = (if sp_parent_id s \<noteq> 0 then Some (sp_parent_id s) else None),
          os_name = otel_span_name s, os_kind = otlp_kind_of (sp_kind s),
          os_start_time = sp_start_unix_ns s, os_end_time = sp_end_unix_ns s,
          os_status = (if sp_status s = OTEL_STATUS_ERROR then STATUS_ERROR
                       else if sp_status s = OTEL_STATUS_OK then STATUS_OK else STATUS_UNSET),
          os_message = otel_span_status_message s,
          os_dropped_attrs = unat (sp_dropped_attrs s), os_dropped_events = unat (sp_dropped_events s),
          os_attributes = ot_num_attrs ob, os_n_attributes = length as,
          os_events = ot_num_events ob1, os_n_events = length es\<rparr>"
  define ob3 where "ob3 = ob2\<lparr>ot_spans := (ot_spans ob2)[ot_n_spans ob2 := sp], ot_n_spans := ot_n_spans ob2 + 1\<rparr>"
  have n2: "ot_n_spans ob2 = ot_n_spans ob" "ot_spans ob2 = ot_spans ob"
    using g by (auto simp: grows_def)
  have flushed: "(if ot_n_spans (ex_otlp ex) = 256 \<or> 2048 < ot_num_attrs (ex_otlp ex) + unat (sp_num_attrs s) +
         sum_list (map (\<lambda>e. unat (ev_num_attrs (event_at (sp_arena s) e))) es) \<or>
       1024 < ot_num_events (ex_otlp ex) + unat (sp_num_events s)
     then otlp_flush pack transport ex else Some ex) = Some ex1"
    using na(1) len cnt(1,2) by (simp add: ex1_def full_def flush_ok[OF batch])
  have run: "otlp_add_span pack transport s ex = Some (ex1\<lparr>ex_otlp := ob3\<rparr>)"
    using room(1) lens(3) n2
    by (simp only: otlp_add_span_def Let_def w(1,3) Option.bind_lunit flushed ob_def[symmetric] 1(1) 2(1)
        sp_def[symmetric] ob3_def if_True)
  have bounded: "span_bounded ob2 sp"
    using 2(3,4,6) 1(4) by (simp add: span_bounded_def sp_def)
  have slice2: "slice (ot_attr ob2) (ot_num_attrs ob) (length as) = map (kv_of s) as"
    using 1(3,5) 2(2) slice_prefix[of "ot_num_attrs ob" "length as" "ot_num_attrs ob1" "ot_attr ob2" "ot_attr ob1"]
    by (simp add: grows_def)
  have msg: "msg_span ob2 sp = span_to_msg s v"
    using 1(4) 2(5) slice2 w(2) w(8-12)
    by (simp add: msg_span_def span_to_msg_def sp_def flip: w(2)) (simp add: kv_of_def)
  have same: "msg_span ob3 = msg_span ob2" "span_bounded ob3 = span_bounded ob2"
    by (auto simp: msg_span_def msg_event_def span_bounded_def event_bounded_def ob3_def fun_eq_iff)
  have old: "msg_span ob2 x = msg_span ob x" "span_bounded ob2 x" if "x \<in> set (take (ot_n_spans ob) (ot_spans ob))" for x
    using grows_span[OF g] bo that by (auto simp: batch_ok_def)
  have take3: "take (ot_n_spans ob3) (ot_spans ob3) = take (ot_n_spans ob) (ot_spans ob) @ [sp]"
    using room(1) lens(3) by (simp add: ob3_def n2 take_Suc_conv_app_nth)
  have req: "otlp_request ob3 = otlp_request ob @ [span_to_msg s v]"
    unfolding otlp_request_def take3 same using old msg by simp
  have "batch_ok ob3"
    using bo g room 2(3,4) old bounded take3 unfolding batch_ok_def same
    by (auto simp: ob3_def grows_def)
  moreover have "otlp_request (ex_otlp ex) \<noteq> []" if full
    using that batch na(2,3) request_Nil[OF batch] unfolding full_def by (auto simp: batch_ok_def)
  ultimately show ?thesis
    using run req flush_batch[OF batch, of pack transport] unfolding ob_def ex1_def
    by (cases full) auto
qed

subsection \<open>Runs of the exporter\<close>

fun export_spans :: "(span_msg list \<Rightarrow> byte list) \<Rightarrow> bool \<Rightarrow> otel_span list \<Rightarrow> otel_export \<Rightarrow> otel_export option" where
  "export_spans pack transport [] ex = Some ex"
| "export_spans pack transport (s # ss) ex =
     do { ex \<leftarrow> otlp_add_span pack transport s ex; export_spans pack transport ss ex }"

text \<open>\<open>s\<close> is a span a client started, used and ended; \<open>v\<close> is what it recorded.\<close>

definition recorded_span :: "otel_span \<Rightarrow> span_view \<Rightarrow> bool" where
  "recorded_span s v \<longleftrightarrow> (\<exists>s0 name kind now calls t. str_arg_ok name \<and> list_all call_ok calls \<and>
     s = (fst (span_run (otel_span_init s0 name kind now) calls))\<lparr>sp_end_unix_ns := t\<rparr> \<and>
     v = fst (spec_run (spec_init name) calls))"

lemma recorded_exportable: "recorded_span s v \<Longrightarrow> exportable s v"
proof -
  assume "recorded_span s v"
  then obtain s0 name kind now calls t where ok: "str_arg_ok name" "list_all call_ok calls"
    and s: "s = (fst (span_run (otel_span_init s0 name kind now) calls))\<lparr>sp_end_unix_ns := t\<rparr>"
    and v: "v = fst (spec_run (spec_init name) calls)"
    by (auto simp: recorded_span_def)
  obtain T A E where "span_sim (sp_arena s0) (fst (span_run (otel_span_init s0 name kind now) calls)) T A E v"
    unfolding v by (rule run_sim_final[OF ok])
  then have "span_sim (sp_arena s0) s T A E v"
    by (simp add: s span_sim_def span_heap_def span_rep_def view_of_def)
  then show ?thesis
    by (rule sim_exportable)
qed

definition all_sent :: "(span_msg list \<Rightarrow> byte list) \<Rightarrow> byte list list \<Rightarrow> otel_export \<Rightarrow> span_msg list \<Rightarrow> bool" where
  "all_sent pack frames ex msgs \<longleftrightarrow> batch_ok (ex_otlp ex) \<and> (\<exists>batches.
     ex_frames ex = frames @ map (frame_of pack) batches \<and> concat batches @ otlp_request (ex_otlp ex) = msgs \<and>
     (\<forall>b \<in> set batches. b \<noteq> [] \<and> length b \<le> 256))"

lemma all_sent_flush:
  assumes "all_sent pack frames ex msgs"
  shows "all_sent pack frames (flushed pack True ex) msgs" "otlp_request (ex_otlp (flushed pack True ex)) = []"
proof -
  from assms obtain batches where b: "batch_ok (ex_otlp ex)" "ex_frames ex = frames @ map (frame_of pack) batches"
    "concat batches @ otlp_request (ex_otlp ex) = msgs" "\<forall>b \<in> set batches. b \<noteq> [] \<and> length b \<le> 256"
    by (auto simp: all_sent_def)
  note fl = flush_batch[OF b(1), of pack True]
  show "otlp_request (ex_otlp (flushed pack True ex)) = []"
    using fl by simp
  define r where "r = otlp_request (ex_otlp ex)"
  have "ex_frames (flushed pack True ex) = frames @ map (frame_of pack) (batches @ (if r \<noteq> [] then [r] else []))"
    using flush_frames[OF b(1), of pack True] b(2) by (simp add: r_def)
  moreover have "concat (batches @ (if r \<noteq> [] then [r] else [])) @ [] = msgs"
    using b(3) by (cases "r = []") (auto simp: r_def)
  moreover have "\<forall>b \<in> set (batches @ (if r \<noteq> [] then [r] else [])). b \<noteq> [] \<and> length b \<le> 256"
    using b(4) length_request[OF b(1)] by (auto simp: r_def)
  ultimately show "all_sent pack frames (flushed pack True ex) msgs"
    unfolding all_sent_def using fl by metis
qed

lemma all_sent_add:
  assumes sent: "all_sent pack frames ex msgs" and s: "exportable s v"
  shows "\<exists>ex'. otlp_add_span pack True s ex = Some ex' \<and> all_sent pack frames ex' (msgs @ [span_to_msg s v])"
proof -
  have ok: "batch_ok (ex_otlp ex)"
    using sent by (simp add: all_sent_def)
  from add_span_ok[OF ok s, of pack True] obtain ex' where 1: "otlp_add_span pack True s ex = Some ex'"
    "batch_ok (ex_otlp ex')" and alt: "ex_frames ex' = ex_frames ex \<and>
        otlp_request (ex_otlp ex') = otlp_request (ex_otlp ex) @ [span_to_msg s v] \<or>
     ex_frames ex' = ex_frames (flushed pack True ex) \<and> otlp_request (ex_otlp ex) \<noteq> [] \<and>
        otlp_request (ex_otlp ex') = [span_to_msg s v]" by blast
  have "all_sent pack frames ex' (msgs @ [span_to_msg s v])"
    using alt
  proof
    assume "ex_frames ex' = ex_frames ex \<and>
        otlp_request (ex_otlp ex') = otlp_request (ex_otlp ex) @ [span_to_msg s v]"
    then show ?thesis
      using sent 1(2) by (auto simp: all_sent_def)
  next
    assume a: "ex_frames ex' = ex_frames (flushed pack True ex) \<and> otlp_request (ex_otlp ex) \<noteq> [] \<and>
        otlp_request (ex_otlp ex') = [span_to_msg s v]"
    from all_sent_flush[OF sent] obtain batches where
      "ex_frames (flushed pack True ex) = frames @ map (frame_of pack) batches" "concat batches = msgs"
      "\<forall>b \<in> set batches. b \<noteq> [] \<and> length b \<le> 256"
      by (auto simp: all_sent_def)
    then show ?thesis
      using a 1(2) by (auto simp: all_sent_def)
  qed
  then show ?thesis using 1(1) by blast
qed

lemma export_spans_sent:
  "list_all2 exportable ss vs \<Longrightarrow> all_sent pack frames ex msgs \<Longrightarrow>
   \<exists>ex'. export_spans pack True ss ex = Some ex' \<and> all_sent pack frames ex' (msgs @ map2 span_to_msg ss vs)"
proof (induction ss vs arbitrary: ex msgs rule: list_all2_induct)
  case (Cons s ss v vs)
  from all_sent_add[OF Cons.prems Cons.hyps(1)] obtain ex1 where
    "otlp_add_span pack True s ex = Some ex1" "all_sent pack frames ex1 (msgs @ [span_to_msg s v])" by blast
  with Cons.IH[of ex1 "msgs @ [span_to_msg s v]"] show ?case by auto
qed simp

lemma otlp_init_ok: "batch_ok otlp_init" "otlp_request otlp_init = []"
  by (simp_all add: batch_ok_def otlp_init_def otlp_request_def)

lemma all_sent_init: "all_sent pack frames \<lparr>ex_otlp = otlp_init, ex_frames = frames\<rparr> []"
  by (auto simp: all_sent_def otlp_init_ok intro!: exI[of _ "[]"])

subsection \<open>Properties\<close>

definition sample_span :: otel_span where
  "sample_span = (fst (span_run (otel_span_init zero_span sample_name 2 99) sample_calls))\<lparr>sp_end_unix_ns := 120\<rparr>"

definition sample_view :: span_view where
  "sample_view = fst (spec_run (spec_init sample_name) sample_calls)"

lemma sample_recorded: "recorded_span sample_span sample_view"
  unfolding recorded_span_def sample_span_def sample_view_def using sample_ok by blast

text \<open>C18: adding a recorded span to the batch never stores outside the three pools and leaves
  the batch well formed; either the span joins the batch unchanged behind the ones already
  there, or the batch was sent first and the span starts the next one.\<close>

theorem export_span_stays_in_pools:
  assumes "batch_ok (ex_otlp ex)" and "recorded_span s v"
  shows "\<exists>ex'. otlp_add_span pack transport s ex = Some ex' \<and> batch_ok (ex_otlp ex') \<and>
    (ex_frames ex' = ex_frames ex \<and> otlp_request (ex_otlp ex') = otlp_request (ex_otlp ex) @ [span_to_msg s v] \<or>
     otlp_request (ex_otlp ex) \<noteq> [] \<and> otlp_request (ex_otlp ex') = [span_to_msg s v] \<and>
       (\<exists>ex1. otlp_flush pack transport ex = Some ex1 \<and> ex_frames ex' = ex_frames ex1))"
  using add_span_ok[OF assms(1) recorded_exportable[OF assms(2)], of pack transport] flush_ok[OF assms(1), of pack transport]
  by auto

lemma export_span_stays_in_pools_witness:
  "\<exists>ex'. otlp_add_span (\<lambda>_. [1]) True sample_span \<lparr>ex_otlp = otlp_init, ex_frames = []\<rparr> = Some ex' \<and>
     otlp_request (ex_otlp ex') = [span_to_msg sample_span sample_view]"
  using export_span_stays_in_pools[of "\<lparr>ex_otlp = otlp_init, ex_frames = []\<rparr>" sample_span sample_view "\<lambda>_. [1]" True]
    otlp_init_ok sample_recorded by auto

text \<open>C8: exporting any sequence of recorded spans and flushing gives the transport one frame per
  batch; the batches have at most 256 spans, none is empty, and together they are the
  translations of the spans, each once and in order.\<close>

theorem export_delivers_every_span_once:
  assumes "list_all2 recorded_span ss vs"
  shows "\<exists>ex ex' batches. export_spans pack True ss \<lparr>ex_otlp = otlp_init, ex_frames = []\<rparr> = Some ex \<and>
    otlp_flush pack True ex = Some ex' \<and> ex_frames ex' = map (frame_of pack) batches \<and>
    concat batches = map2 span_to_msg ss vs \<and> (\<forall>b \<in> set batches. b \<noteq> [] \<and> length b \<le> 256)"
proof -
  have "list_all2 exportable ss vs"
    using assms recorded_exportable by (rule list_all2_mono)
  from export_spans_sent[OF this all_sent_init[where frames = "[]"], of pack] obtain ex where
    1: "export_spans pack True ss \<lparr>ex_otlp = otlp_init, ex_frames = []\<rparr> = Some ex"
    "all_sent pack [] ex (map2 span_to_msg ss vs)" by auto
  have "batch_ok (ex_otlp ex)"
    using 1(2) by (simp add: all_sent_def)
  from all_sent_flush[OF 1(2)] flush_ok[OF this, of pack True] show ?thesis
    using 1(1) by (auto simp: all_sent_def)
qed

lemma export_delivers_every_span_once_witness:
  "\<exists>ex ex' batches. export_spans (\<lambda>ms. [of_nat (length ms)]) True [sample_span, sample_span]
      \<lparr>ex_otlp = otlp_init, ex_frames = []\<rparr> = Some ex \<and>
    otlp_flush (\<lambda>ms. [of_nat (length ms)]) True ex = Some ex' \<and> ex_frames ex' = map (frame_of (\<lambda>ms. [of_nat (length ms)])) batches \<and>
    concat batches = [span_to_msg sample_span sample_view, span_to_msg sample_span sample_view]"
  using export_delivers_every_span_once[of "[sample_span, sample_span]" "[sample_view, sample_view]"
      "\<lambda>ms. [of_nat (length ms)]"] sample_recorded
  by auto

text \<open>a flush of a batch that is not empty hands the transport exactly one gRPC frame: a zero
  compression flag, the payload length as a big-endian 32-bit integer, and the packed
  request.\<close>

theorem flush_frame_is_length_prefixed:
  assumes "batch_ok (ex_otlp ex)" and "otlp_request (ex_otlp ex) \<noteq> []"
    and "length (pack (otlp_request (ex_otlp ex))) < 2 ^ 32"
  shows "\<exists>ex' frame. otlp_flush pack True ex = Some ex' \<and> ex_frames ex' = ex_frames ex @ [frame] \<and> hd frame = 0 \<and>
    unat (otel_load_be32 (take 4 (drop 1 frame))) = length (drop 5 frame) \<and>
    drop 5 frame = pack (otlp_request (ex_otlp ex))"
proof -
  define p where "p = pack (otlp_request (ex_otlp ex))"
  have "unat (of_nat (length p) :: u32) = length p"
    using assms(3) by (intro unat_of_nat_small) (simp add: p_def)
  moreover have "otel_load_be32 (otel_store_be32 w) = w" for w
    using load_store_be32 .
  ultimately show ?thesis
    using flush_frames[OF assms(1), of pack True] flush_ok[OF assms(1), of pack True] assms(2)
    by (auto simp: frame_of_def simp flip: p_def)
qed

lemma flush_frame_is_length_prefixed_witness:
  "\<exists>ex ex' frame. otlp_flush (\<lambda>ms. [7, 8]) True ex = Some ex' \<and> ex_frames ex' = [frame] \<and> drop 5 frame = [7, 8]"
proof -
  obtain ex where "otlp_add_span (\<lambda>ms. [7, 8]) True sample_span \<lparr>ex_otlp = otlp_init, ex_frames = []\<rparr> = Some ex"
    and ex: "batch_ok (ex_otlp ex)" "otlp_request (ex_otlp ex) \<noteq> []" "ex_frames ex = []"
    using add_span_ok[of "\<lparr>ex_otlp = otlp_init, ex_frames = []\<rparr>" sample_span sample_view "\<lambda>ms. [7, 8]" True]
      otlp_init_ok recorded_exportable[OF sample_recorded] by auto
  show ?thesis
    using flush_frame_is_length_prefixed[OF ex(1,2), of "\<lambda>ms. [7, 8]"] ex(3) by auto
qed

end
