(* ===== verification/Otel_Tracer.thy ===== *)
theory Otel_Tracer
  imports Otel_Export_Props
begin

text \<open>
  The tracer: the global state \<^verbatim>\<open>OT\<close> of \<^verbatim>\<open>oteltracing.c\<close> and its operations.  Thread contexts
  live in a store of addresses, as \<^verbatim>\<open>calloc\<close> and \<^verbatim>\<open>free\<close> manage them; \<open>g_threads\<close> is the registry
  list and \<open>g_tls t\<close> is the thread-local pointer of thread \<open>t\<close>.  An operation that follows a
  null or freed pointer or stores outside a pool is \<open>None\<close>.  What the environment sees is the frames
  given to the transport (\<open>ex_frames\<close>) and the calls of the sink (\<open>g_sink_log\<close>).

  An operation is one step here.  \<open>Otel_Concurrent\<close> takes register, unregister and drain apart at
  their locks, \<open>Otel_Ring_Concurrent\<close> the accesses to a ring.
\<close>

subsection \<open>State\<close>

record span_sink =
  sk_addr :: nat
  sk_begin :: bool
  sk_span :: bool
  sk_end :: bool

datatype sink_event = SBegin | SSpan otel_span | SEnd

record otel_global =
  g_initialized :: bool
  g_service :: "byte list"
  g_hostname :: "byte list"
  g_transport :: bool
  g_transport_present :: bool
  g_sink :: "span_sink option"
  g_sink_present :: bool
  g_sampler :: otel_sampler
  g_runtime_on :: bool
  g_threads :: "nat list"
  g_export :: otel_export
  g_dropped_spans :: u64
  g_enabled :: bool
  g_ring_capacity :: u32
  g_tls :: "nat \<Rightarrow> nat option"
  g_ctx :: "nat \<Rightarrow> otel_thread_ctx option"
  g_next :: nat
  g_sink_log :: "sink_event list"

subsection \<open>Configuration\<close>

definition otel_recompute_enabled :: "otel_global \<Rightarrow> otel_global" where
  "otel_recompute_enabled g =
     g\<lparr>g_enabled := g_initialized g \<and> (g_transport_present g \<or> g_sink_present g) \<and> g_runtime_on g\<rparr>"

definition otel_set_transport :: "bool \<Rightarrow> otel_global \<Rightarrow> otel_global" where
  "otel_set_transport fn g = otel_recompute_enabled (g\<lparr>g_transport := fn, g_transport_present := fn\<rparr>)"

definition otel_set_span_sink :: "span_sink option \<Rightarrow> otel_global \<Rightarrow> otel_global" where
  "otel_set_span_sink sink g = otel_recompute_enabled (g\<lparr>g_sink := sink, g_sink_present := (sink \<noteq> None)\<rparr>)"

definition otel_set_enabled :: "bool \<Rightarrow> otel_global \<Rightarrow> otel_global" where
  "otel_set_enabled enabled g = otel_recompute_enabled (g\<lparr>g_runtime_on := enabled\<rparr>)"

definition otel_service_name :: "otel_global \<Rightarrow> byte list" where
  "otel_service_name g = g_service g"

text \<open>\<^verbatim>\<open>otel_init\<close>: \<open>host\<close> is what the host name lookup stores, \<open>None\<close> when it fails; \<open>buf_ok\<close> says
  whether the frame buffer was allocated; if not, the call returns -1 and leaves a null pointer and
  \<^verbatim>\<open>OT.initialized\<close> set.  \<^verbatim>\<open>memset(&OT, 0, ...)\<close> resets \<^verbatim>\<open>OT\<close> only; the thread-local
  pointers and the ring capacity are separate variables and keep their values.\<close>

definition otel_init :: "c_string \<Rightarrow> c_string \<Rightarrow> bool \<Rightarrow> otel_global \<Rightarrow> otel_global \<times> int" where
  "otel_init service host buf_ok g =
     (if g_initialized g then (g, 0)
      else (g\<lparr>g_initialized := True,
              g_service := take 127 (case service of None \<Rightarrow> [117, 110, 107, 110, 111, 119, 110] | Some bs \<Rightarrow> c_str bs),
              g_hostname := (case host of None \<Rightarrow> [117, 110, 107, 110, 111, 119, 110] | Some bs \<Rightarrow> take 127 (c_str bs)),
              g_transport := False, g_transport_present := False, g_sink := None, g_sink_present := False,
              g_sampler := \<lparr>sample_always = True, sample_threshold = NOT 0\<rparr>, g_runtime_on := True,
              g_threads := [], g_export := (g_export g)\<lparr>ex_otlp := otlp_init\<lparr>ot_buf := buf_ok\<rparr>\<rparr>, g_dropped_spans := 0,
              g_enabled := False\<rparr>, if buf_ok then 0 else -1))"

subsection \<open>Threads\<close>

text \<open>\<open>t\<close> is the calling thread, \<open>seed\<close> the 128 bits the random seed function delivered, \<open>now\<close> the
  clock; the context is allocated at the fresh address \<open>g_next g\<close>.\<close>

definition otel_thread_register :: "nat \<Rightarrow> otel_random_state \<Rightarrow> u64 \<Rightarrow> otel_global \<Rightarrow> otel_global" where
  "otel_thread_register t seed now g =
     (if g_tls g t \<noteq> None then g
      else let a = g_next g;
               rs = (if rs_lo seed = 0 \<and> rs_hi seed = 0 then seed\<lparr>rs_lo := (of_nat a XOR now) OR 1\<rparr> else seed)
           in g\<lparr>g_ctx := (g_ctx g)(a \<mapsto> ctx_new (g_ring_capacity g) rs), g_next := a + 1,
                g_threads := a # g_threads g, g_tls := (g_tls g)(t \<mapsto> a)\<rparr>)"

subsection \<open>Draining\<close>

definition sink_begin :: "otel_global \<Rightarrow> otel_global" where
  "sink_begin g = (case g_sink g of
      Some sk \<Rightarrow> if g_sink_present g \<and> sk_begin sk then g\<lparr>g_sink_log := g_sink_log g @ [SBegin]\<rparr> else g
    | None \<Rightarrow> g)"

definition sink_end :: "otel_global \<Rightarrow> otel_global" where
  "sink_end g = (case g_sink g of
      Some sk \<Rightarrow> if g_sink_present g \<and> sk_end sk then g\<lparr>g_sink_log := g_sink_log g @ [SEnd]\<rparr> else g
    | None \<Rightarrow> g)"

definition otel_emit_span :: "(span_msg list \<Rightarrow> byte list) \<Rightarrow> otel_span \<Rightarrow> otel_global \<Rightarrow> otel_global option" where
  "otel_emit_span pack s g = do {
     g \<leftarrow> (if g_transport_present g
          then do { ex \<leftarrow> otlp_add_span pack (g_transport g) s (g_export g); Some (g\<lparr>g_export := ex\<rparr>) }
          else Some g);
     Some (case g_sink g of
             Some sk \<Rightarrow> if g_sink_present g \<and> sk_span sk then g\<lparr>g_sink_log := g_sink_log g @ [SSpan s]\<rparr> else g
           | None \<Rightarrow> g) }"

definition drain_one :: "(span_msg list \<Rightarrow> byte list) \<Rightarrow> nat \<Rightarrow> otel_global \<Rightarrow> (otel_global \<times> int) option" where
  "drain_one pack a g = do {
     ctx \<leftarrow> g_ctx g a;
     let (ctx, n, res) = otel_drain_ctx (\<lambda>s st. do { g \<leftarrow> st; otel_emit_span pack s g }) ctx (Some g);
     g \<leftarrow> res;
     Some (g\<lparr>g_ctx := (g_ctx g)(a \<mapsto> ctx)\<rparr>, n) }"

fun drain_all :: "(span_msg list \<Rightarrow> byte list) \<Rightarrow> nat list \<Rightarrow> int \<Rightarrow> otel_global \<Rightarrow> (otel_global \<times> int) option" where
  "drain_all pack [] n g = Some (g, n)"
| "drain_all pack (a # as) n g = do { (g, m) \<leftarrow> drain_one pack a g; drain_all pack as (n + m) g }"

definition otlp_flush_g :: "(span_msg list \<Rightarrow> byte list) \<Rightarrow> otel_global \<Rightarrow> otel_global option" where
  "otlp_flush_g pack g = do { ex \<leftarrow> otlp_flush pack (g_transport g) (g_export g); Some (g\<lparr>g_export := ex\<rparr>) }"

definition otel_drain :: "(span_msg list \<Rightarrow> byte list) \<Rightarrow> otel_global \<Rightarrow> (otel_global \<times> int) option" where
  "otel_drain pack g =
     (if \<not> g_enabled g then Some (g, 0)
      else do { let g = sink_begin g;
                (g, n) \<leftarrow> drain_all pack (g_threads g) 0 g;
                g \<leftarrow> otlp_flush_g pack g;
                Some (sink_end g, n) })"

definition otel_thread_unregister :: "(span_msg list \<Rightarrow> byte list) \<Rightarrow> nat \<Rightarrow> otel_global \<Rightarrow> otel_global option" where
  "otel_thread_unregister pack t g =
     (case g_tls g t of
        None \<Rightarrow> Some g
      | Some a \<Rightarrow> do {
          ctx \<leftarrow> g_ctx g a;
          g \<leftarrow> (if g_enabled g
               then do { let g = sink_begin g;
                         (g, n) \<leftarrow> drain_one pack a g;
                         g \<leftarrow> otlp_flush_g pack g;
                         Some (sink_end g) }
               else Some g);
          Some (g\<lparr>g_threads := remove1 a (g_threads g), g_ctx := (g_ctx g)(a := None),
                  g_tls := (g_tls g)(t := None)\<rparr>) })"

definition otel_shutdown :: "(span_msg list \<Rightarrow> byte list) \<Rightarrow> otel_global \<Rightarrow> otel_global option" where
  "otel_shutdown pack g =
     (if \<not> g_initialized g then Some g
      else do { g \<leftarrow> (if g_enabled g then map_option fst (otel_drain pack g) else Some g);
                Some (g\<lparr>g_ctx := (\<lambda>a. if a \<in> set (g_threads g) then None else g_ctx g a), g_threads := [],
                        g_export := (g_export g)\<lparr>ex_otlp := (ex_otlp (g_export g))\<lparr>ot_buf := False\<rparr>\<rparr>,
                        g_initialized := False, g_enabled := False\<rparr>) })"

definition otel_dropped_spans :: "otel_global \<Rightarrow> u64" where
  "otel_dropped_spans g = g_dropped_spans g"

subsection \<open>Spans of a thread\<close>

text \<open>A call that reads \<^verbatim>\<open>otel_tls\<close> and works on the context it points to.\<close>

definition tls_call :: "nat \<Rightarrow> (otel_thread_ctx option \<Rightarrow> otel_thread_ctx option \<times> otel_span) \<Rightarrow> otel_global \<Rightarrow>
    (otel_global \<times> otel_span) option" where
  "tls_call t f g =
     (case g_tls g t of
        None \<Rightarrow> Some (g, snd (f None))
      | Some a \<Rightarrow> do { ctx \<leftarrow> g_ctx g a;
                      let (ctx, s) = f (Some ctx);
                      Some (g\<lparr>g_ctx := (g_ctx g)(a := ctx)\<rparr>, s) })"

definition start_span :: "nat \<Rightarrow> otel_span \<Rightarrow> c_string \<Rightarrow> byte \<Rightarrow> u64 \<Rightarrow> otel_global \<Rightarrow> (otel_global \<times> otel_span) option" where
  "start_span t s name kind now g =
     tls_call t (\<lambda>tls. otel_span_start (g_enabled g) (g_sampler g) tls s name kind now) g"

definition start_child_span :: "nat \<Rightarrow> otel_span \<Rightarrow> c_string \<Rightarrow> byte \<Rightarrow> otel_span option \<Rightarrow> u64 \<Rightarrow> otel_global \<Rightarrow>
    (otel_global \<times> otel_span) option" where
  "start_child_span t s name kind parent now g =
     tls_call t (\<lambda>tls. otel_span_start_child tls s name kind parent now) g"

definition start_remote_span :: "nat \<Rightarrow> otel_span \<Rightarrow> c_string \<Rightarrow> byte \<Rightarrow> byte list \<Rightarrow> u64 \<Rightarrow> bool \<Rightarrow> u64 \<Rightarrow>
    otel_global \<Rightarrow> (otel_global \<times> otel_span) option" where
  "start_remote_span t s name kind trace_id parent_id sampled now g =
     tls_call t (\<lambda>tls. otel_span_start_remote (g_enabled g) tls s name kind trace_id parent_id sampled now) g"

definition otel_span_end :: "nat \<Rightarrow> u64 \<Rightarrow> otel_span \<Rightarrow> otel_global \<Rightarrow> (otel_global \<times> otel_span) option" where
  "otel_span_end t now s g =
     (if \<not> otel_span_recording s then Some (g, s)
      else let s = s\<lparr>sp_end_unix_ns := now\<rparr>
           in case g_tls g t of
                None \<Rightarrow> Some (g\<lparr>g_dropped_spans := g_dropped_spans g + 1\<rparr>, s)
              | Some a \<Rightarrow> do {
                  ctx \<leftarrow> g_ctx g a;
                  let (ctx, ok) = ring_enqueue ctx s;
                  let g = g\<lparr>g_ctx := (g_ctx g)(a \<mapsto> ctx)\<rparr>;
                  Some (if ok then g else g\<lparr>g_dropped_spans := g_dropped_spans g + 1\<rparr>, s) })"

end
