(* ===== verification/Otel_Tracer_Props.thy ===== *)
theory Otel_Tracer_Props
  imports Otel_Tracer "HOL-Library.Multiset"
begin

text \<open>
  What the tracer promises: an invariant of the global state that every operation keeps and
  under which no operation fails, the complete delivery of a drain, and the conservation of
  spans: every ended span is delivered, queued or counted as dropped.
\<close>

subsection \<open>Emission\<close>

definition sink_spans :: "otel_global \<Rightarrow> bool" where
  "sink_spans g \<longleftrightarrow> (case g_sink g of Some sk \<Rightarrow> g_sink_present g \<and> sk_span sk | None \<Rightarrow> False)"

lemma sink_spans_upd [simp]:
  "sink_spans (g\<lparr>g_export := ex\<rparr>) = sink_spans g" "sink_spans (g\<lparr>g_sink_log := l\<rparr>) = sink_spans g"
  "sink_spans (g\<lparr>g_ctx := c\<rparr>) = sink_spans g" "sink_spans (g\<lparr>g_dropped_spans := d\<rparr>) = sink_spans g"
  "sink_spans (g\<lparr>g_threads := ts\<rparr>) = sink_spans g" "sink_spans (g\<lparr>g_tls := tls\<rparr>) = sink_spans g"
  "sink_spans (g\<lparr>g_next := n\<rparr>) = sink_spans g"
  by (auto simp: sink_spans_def split: option.splits)

definition msg_of :: "otel_span \<Rightarrow> span_msg" where
  "msg_of s = span_to_msg s (the (span_view_of s))"

definition exportable_span :: "otel_span \<Rightarrow> bool" where
  "exportable_span s \<longleftrightarrow> (\<exists>v. exportable s v)"

text \<open>\<open>emitted pack g g' ss\<close>: going from \<open>g\<close> to \<open>g'\<close> the spans \<open>ss\<close> were emitted and nothing
  else happened.\<close>

definition emitted :: "(span_msg list \<Rightarrow> byte list) \<Rightarrow> otel_global \<Rightarrow> otel_global \<Rightarrow> otel_span list \<Rightarrow> bool" where
  "emitted pack g g' ss \<longleftrightarrow> (\<exists>ex.
     g' = g\<lparr>g_export := ex, g_sink_log := g_sink_log g @ (if sink_spans g then map SSpan ss else [])\<rparr> \<and>
     batch_ok (ex_otlp ex) \<and>
     (if g_transport g then \<forall>frames msgs. all_sent pack frames (g_export g) msgs \<longrightarrow>
          all_sent pack frames ex (msgs @ map msg_of ss)
      else ex = g_export g))"

lemma emitted_refl: "batch_ok (ex_otlp (g_export g)) \<Longrightarrow> emitted pack g g []"
  by (simp add: emitted_def exI[of _ "g_export g"])

lemma emitted_trans:
  assumes "emitted pack g g1 ss" and "emitted pack g1 g2 ts"
  shows "emitted pack g g2 (ss @ ts)"
proof -
  obtain e1 where 1: "g1 = g\<lparr>g_export := e1, g_sink_log := g_sink_log g @ (if sink_spans g then map SSpan ss else [])\<rparr>"
    "if g_transport g then \<forall>frames msgs. all_sent pack frames (g_export g) msgs \<longrightarrow>
          all_sent pack frames e1 (msgs @ map msg_of ss) else e1 = g_export g"
    using assms(1) by (auto simp: emitted_def)
  obtain e2 where 2: "g2 = g1\<lparr>g_export := e2, g_sink_log := g_sink_log g1 @ (if sink_spans g1 then map SSpan ts else [])\<rparr>"
    "batch_ok (ex_otlp e2)" "if g_transport g1 then \<forall>frames msgs. all_sent pack frames (g_export g1) msgs \<longrightarrow>
          all_sent pack frames e2 (msgs @ map msg_of ts) else e2 = g_export g1"
    using assms(2) by (auto simp: emitted_def)
  have s: "sink_spans g1 = sink_spans g" "g_transport g1 = g_transport g"
    by (simp_all add: 1(1))
  show ?thesis
    unfolding emitted_def
  proof (intro exI[of _ e2] conjI)
    show "g2 = g\<lparr>g_export := e2, g_sink_log := g_sink_log g @ (if sink_spans g then map SSpan (ss @ ts) else [])\<rparr>"
      unfolding 2(1) s by (simp add: 1(1))
    show "if g_transport g then \<forall>frames msgs. all_sent pack frames (g_export g) msgs \<longrightarrow>
        all_sent pack frames e2 (msgs @ map msg_of (ss @ ts)) else e2 = g_export g"
    proof (cases "g_transport g")
      case True
      have "all_sent pack frames e2 (msgs @ map msg_of (ss @ ts))" if "all_sent pack frames (g_export g) msgs" for frames msgs
      proof -
        have "all_sent pack frames (g_export g1) (msgs @ map msg_of ss)"
          using 1 True that by simp
        moreover have "\<forall>frames msgs. all_sent pack frames (g_export g1) msgs \<longrightarrow>
            all_sent pack frames e2 (msgs @ map msg_of ts)"
          using 2(3) True s by simp
        ultimately have "all_sent pack frames e2 ((msgs @ map msg_of ss) @ map msg_of ts)"
          by blast
        then show ?thesis by simp
      qed
      then show ?thesis using True by simp
    next
      case False
      then show ?thesis using 1 2(3) s by simp
    qed
  qed (rule 2(2))
qed

lemma emitted_batch: "emitted pack g g' ss \<Longrightarrow> batch_ok (ex_otlp (g_export g'))"
  by (auto simp: emitted_def)

lemma emit_span_ok:
  assumes batch: "batch_ok (ex_otlp (g_export g))" and tp: "g_transport_present g = g_transport g"
    and s: "exportable_span s"
  shows "\<exists>g'. otel_emit_span pack s g = Some g' \<and> emitted pack g g' [s]"
proof -
  obtain v where v: "exportable s v"
    using s by (auto simp: exportable_span_def)
  then have m: "msg_of s = span_to_msg s v"
    by (simp add: msg_of_def exportable_def)
  show ?thesis
  proof (cases "g_transport g")
    case True
    from add_span_ok[OF batch v, of pack True] obtain ex where
      ex: "otlp_add_span pack True s (g_export g) = Some ex" "batch_ok (ex_otlp ex)" by blast
    have "all_sent pack frames ex (msgs @ [span_to_msg s v])" if "all_sent pack frames (g_export g) msgs" for frames msgs
      using all_sent_add[OF that v] ex(1) by auto
    then show ?thesis
      using True ex tp m
      by (auto simp: otel_emit_span_def emitted_def sink_spans_def split: option.splits intro!: exI[of _ ex])
  next
    case False
    then show ?thesis
      using tp batch by (auto simp: otel_emit_span_def emitted_def sink_spans_def split: option.splits
          intro!: exI[of _ "g_export g"])
  qed
qed

lemma emit_all_ok:
  assumes "batch_ok (ex_otlp (g_export g))" and "g_transport_present g = g_transport g"
    and "\<forall>s \<in> set ss. exportable_span s"
  shows "\<exists>g'. fold (\<lambda>s st. do { g \<leftarrow> st; otel_emit_span pack s g }) ss (Some g) = Some g' \<and> emitted pack g g' ss"
  using assms
proof (induction ss arbitrary: g)
  case Nil
  then show ?case
    using emitted_refl by auto
next
  case (Cons s ss)
  have "exportable_span s"
    using Cons.prems(3) by simp
  from emit_span_ok[OF Cons.prems(1,2) this] obtain g1 where 1: "otel_emit_span pack s g = Some g1"
    "emitted pack g g1 [s]" by blast
  have "g_transport_present g1 = g_transport g1"
    using 1(2) Cons.prems(2) by (auto simp: emitted_def)
  with Cons.IH[OF emitted_batch[OF 1(2)]] Cons.prems(3) obtain g2 where
    "fold (\<lambda>s st. do { g \<leftarrow> st; otel_emit_span pack s g }) ss (Some g1) = Some g2" "emitted pack g1 g2 ss" by auto
  then show ?case
    using 1 emitted_trans[OF 1(2), of g2 ss] by auto
qed

subsection \<open>The invariant\<close>

definition ctx_wf :: "otel_thread_ctx \<Rightarrow> bool" where
  "ctx_wf ctx \<longleftrightarrow> ring_ok ctx \<and> (\<forall>s \<in> set (ring_contents ctx). exportable_span s)"

text \<open>The spans queued by the thread whose context is at \<open>a\<close>, and all of them in drain order.\<close>

definition queued :: "otel_global \<Rightarrow> nat \<Rightarrow> otel_span list" where
  "queued g a = (case g_ctx g a of Some ctx \<Rightarrow> ring_contents ctx | None \<Rightarrow> [])"

definition all_queued :: "otel_global \<Rightarrow> otel_span list" where
  "all_queued g = concat (map (queued g) (g_threads g))"

definition threads_ok :: "otel_global \<Rightarrow> bool" where
  "threads_ok g \<longleftrightarrow> distinct (g_threads g) \<and>
     (\<forall>a \<in> set (g_threads g). a < g_next g \<and> (\<exists>ctx. g_ctx g a = Some ctx \<and> ctx_wf ctx)) \<and>
     (\<forall>t a. g_tls g t = Some a \<longrightarrow> a \<in> set (g_threads g)) \<and>
     (\<forall>t t' a. g_tls g t = Some a \<and> g_tls g t' = Some a \<longrightarrow> t = t')"

definition tracer_ok :: "otel_global \<Rightarrow> bool" where
  "tracer_ok g \<longleftrightarrow> threads_ok g \<and>
     (g_initialized g \<longrightarrow> batch_ok (ex_otlp (g_export g)) \<and> otlp_request (ex_otlp (g_export g)) = []) \<and>
     (\<exists>k \<le> 31. g_ring_capacity g = 2 ^ k) \<and> g_transport_present g = g_transport g \<and>
     g_sink_present g = (g_sink g \<noteq> None) \<and>
     g_enabled g = (g_initialized g \<and> (g_transport_present g \<or> g_sink_present g) \<and> g_runtime_on g)"

lemma enabled_batch:
  "tracer_ok g \<Longrightarrow> g_enabled g \<Longrightarrow> batch_ok (ex_otlp (g_export g))"
  "tracer_ok g \<Longrightarrow> g_enabled g \<Longrightarrow> otlp_request (ex_otlp (g_export g)) = []"
  by (auto simp: tracer_ok_def)

definition emptied :: "otel_thread_ctx \<Rightarrow> otel_thread_ctx" where
  "emptied ctx = ctx\<lparr>cx_tail := cx_head ctx\<rparr>"

lemma emptied_wf: "ctx_wf ctx \<Longrightarrow> ctx_wf (emptied ctx)" "ring_contents (emptied ctx) = []"
  by (auto simp: ctx_wf_def emptied_def ring_ok_def ring_contents_def)

lemma drain_one_ok:
  assumes "batch_ok (ex_otlp (g_export g))" and "g_transport_present g = g_transport g"
    and "g_ctx g a = Some ctx" and "ctx_wf ctx"
  shows "\<exists>g'. emitted pack g g' (queued g a) \<and>
    drain_one pack a g = Some (g'\<lparr>g_ctx := (g_ctx g)(a \<mapsto> emptied ctx)\<rparr>, int (length (queued g a)))"
proof -
  have "\<forall>s \<in> set (ring_contents ctx). exportable_span s"
    using assms(4) by (simp add: ctx_wf_def)
  from emit_all_ok[OF assms(1,2) this] obtain g' where
    1: "fold (\<lambda>s st. do { g \<leftarrow> st; otel_emit_span pack s g }) (ring_contents ctx) (Some g) = Some g'"
    "emitted pack g g' (ring_contents ctx)" by blast
  have "g_ctx g' = g_ctx g"
    using 1(2) by (auto simp: emitted_def)
  then show ?thesis
    using 1 assms(3) by (auto simp: drain_one_def otel_drain_ctx_eq queued_def emptied_def)
qed

lemma emitted_ctx:
  assumes "emitted pack g g' ss"
  shows "emitted pack (g\<lparr>g_ctx := c\<rparr>) (g'\<lparr>g_ctx := c\<rparr>) ss"
proof -
  obtain ex where ex: "g' = g\<lparr>g_export := ex, g_sink_log := g_sink_log g @ (if sink_spans g then map SSpan ss else [])\<rparr>"
    "batch_ok (ex_otlp ex)" "if g_transport g then \<forall>frames msgs. all_sent pack frames (g_export g) msgs \<longrightarrow>
          all_sent pack frames ex (msgs @ map msg_of ss) else ex = g_export g"
    using assms by (auto simp: emitted_def)
  show ?thesis
    unfolding emitted_def by (intro exI[of _ ex] conjI) (use ex in \<open>auto intro: otel_global.equality\<close>)
qed

lemma drain_all_ok:
  assumes "batch_ok (ex_otlp (g_export g))" and "g_transport_present g = g_transport g"
    and "distinct as" and "\<forall>a \<in> set as. \<exists>ctx. g_ctx g a = Some ctx \<and> ctx_wf ctx"
  shows "\<exists>g'. emitted pack g g' (concat (map (queued g) as)) \<and> drain_all pack as n g =
    Some (g'\<lparr>g_ctx := (\<lambda>a. if a \<in> set as then map_option emptied (g_ctx g a) else g_ctx g a)\<rparr>,
      n + int (length (concat (map (queued g) as))))"
  using assms
proof (induction as arbitrary: g n)
  case Nil
  then show ?case
    using emitted_refl[of g pack] by (intro exI[of _ g]) simp
next
  case (Cons a as)
  obtain ctx where ctx: "g_ctx g a = Some ctx" "ctx_wf ctx"
    using Cons.prems(4) by auto
  from drain_one_ok[OF Cons.prems(1,2) ctx] obtain g1 where 1: "emitted pack g g1 (queued g a)"
    "drain_one pack a g = Some (g1\<lparr>g_ctx := (g_ctx g)(a \<mapsto> emptied ctx)\<rparr>, int (length (queued g a)))" by blast
  define h where "h = g1\<lparr>g_ctx := (g_ctx g)(a \<mapsto> emptied ctx)\<rparr>"
  have h: "batch_ok (ex_otlp (g_export h))" "g_transport_present h = g_transport h"
    "\<forall>b \<in> set as. \<exists>ctx. g_ctx h b = Some ctx \<and> ctx_wf ctx"
    using emitted_batch[OF 1(1)] 1(1) Cons.prems by (auto simp: h_def emitted_def)
  have q: "map (queued h) as = map (queued g) as"
    using Cons.prems(3) by (auto simp: h_def queued_def)
  from Cons.IH[OF h(1,2) _ h(3), of "n + int (length (queued g a))"] Cons.prems(3) obtain g2 where
    2: "emitted pack h g2 (concat (map (queued g) as))" "drain_all pack as (n + int (length (queued g a))) h =
      Some (g2\<lparr>g_ctx := (\<lambda>b. if b \<in> set as then map_option emptied (g_ctx h b) else g_ctx h b)\<rparr>,
      n + int (length (queued g a)) + int (length (concat (map (queued g) as))))"
    unfolding q by auto
  have "emitted pack g1 (g2\<lparr>g_ctx := g_ctx g1\<rparr>) (concat (map (queued g) as))"
    using emitted_ctx[OF 2(1), of "g_ctx g1"] by (simp add: h_def)
  with 1(1) have e: "emitted pack g (g2\<lparr>g_ctx := g_ctx g1\<rparr>) (concat (map (queued g) (a # as)))"
    using emitted_trans by fastforce
  have "(\<lambda>b. if b \<in> set as then map_option emptied (g_ctx h b) else g_ctx h b) =
      (\<lambda>b. if b \<in> set (a # as) then map_option emptied (g_ctx g b) else g_ctx g b)"
    using ctx(1) Cons.prems(3) by (auto simp: h_def fun_eq_iff)
  then show ?case
    using 1(2) 2(2) e by (intro exI[of _ "g2\<lparr>g_ctx := g_ctx g1\<rparr>"]) (simp add: h_def add.assoc)
qed

subsection \<open>A drain\<close>

definition sink_brackets :: "otel_global \<Rightarrow> sink_event list \<Rightarrow> sink_event list" where
  "sink_brackets g evs = (case g_sink g of
      None \<Rightarrow> []
    | Some sk \<Rightarrow> if g_sink_present g
        then (if sk_begin sk then [SBegin] else []) @ evs @ (if sk_end sk then [SEnd] else []) else [])"

definition sent_frames :: "(span_msg list \<Rightarrow> byte list) \<Rightarrow> byte list list \<Rightarrow> byte list list \<Rightarrow> span_msg list \<Rightarrow> bool" where
  "sent_frames pack before after msgs \<longleftrightarrow> (\<exists>batches. after = before @ map (frame_of pack) batches \<and>
     concat batches = msgs \<and> (\<forall>b \<in> set batches. b \<noteq> [] \<and> length b \<le> 256))"

lemma sink_begin_fields:
  "sink_begin g = g\<lparr>g_sink_log := g_sink_log (sink_begin g)\<rparr>" "sink_end g = g\<lparr>g_sink_log := g_sink_log (sink_end g)\<rparr>"
  by (auto simp: sink_begin_def sink_end_def split: option.splits)

definition flushed_g :: "(span_msg list \<Rightarrow> byte list) \<Rightarrow> otel_global \<Rightarrow> otel_global" where
  "flushed_g pack g = g\<lparr>g_export := flushed pack (g_transport g) (g_export g)\<rparr>"

lemma flush_g_ok: "batch_ok (ex_otlp (g_export g)) \<Longrightarrow> otlp_flush_g pack g = Some (flushed_g pack g)"
  by (simp add: otlp_flush_g_def flushed_g_def flush_ok)

text \<open>The bracketed body of a drain pass, shared by \<^verbatim>\<open>otel_drain\<close> and \<^verbatim>\<open>otel_thread_unregister\<close>.\<close>

lemma pass_ok:
  fixes c :: "nat \<Rightarrow> otel_thread_ctx option"
  assumes batch: "batch_ok (ex_otlp (g_export g))" "otlp_request (ex_otlp (g_export g)) = []"
    and e: "emitted pack (sink_begin g) g' ss"
  defines "h \<equiv> sink_end (flushed_g pack (g'\<lparr>g_ctx := c\<rparr>))"
  shows "otlp_flush_g pack (g'\<lparr>g_ctx := c\<rparr>) = Some (flushed_g pack (g'\<lparr>g_ctx := c\<rparr>))"
    and "h = g\<lparr>g_export := g_export h, g_sink_log := g_sink_log h, g_ctx := c\<rparr>"
    and "g_sink_log h = g_sink_log g @ sink_brackets g (if sink_spans g then map SSpan ss else [])"
    and "batch_ok (ex_otlp (g_export h)) \<and> otlp_request (ex_otlp (g_export h)) = []"
    and "g_transport g \<Longrightarrow> sent_frames pack (ex_frames (g_export g)) (ex_frames (g_export h)) (map msg_of ss)"
proof -
  define b where "b = sink_begin g"
  obtain l where b: "b = g\<lparr>g_sink_log := l\<rparr>"
    using sink_begin_fields(1)[of g] b_def by blast
  obtain ex where ex: "g' = b\<lparr>g_export := ex, g_sink_log := l @ (if sink_spans g then map SSpan ss else [])\<rparr>"
    "batch_ok (ex_otlp ex)" "if g_transport g then \<forall>frames msgs. all_sent pack frames (g_export g) msgs \<longrightarrow>
          all_sent pack frames ex (msgs @ map msg_of ss) else ex = g_export g"
    using e unfolding emitted_def b_def[symmetric] b by auto
  show "otlp_flush_g pack (g'\<lparr>g_ctx := c\<rparr>) = Some (flushed_g pack (g'\<lparr>g_ctx := c\<rparr>))"
    using ex(1,2) by (intro flush_g_ok) simp
  define f where "f = flushed pack (g_transport g) ex"
  define m where "m = g'\<lparr>g_ctx := c, g_export := f\<rparr>"
  have m: "h = sink_end m"
    by (simp add: h_def m_def f_def flushed_g_def ex(1) b)
  have ge: "g_export h = f"
    unfolding m by (subst sink_begin_fields(2)) (simp add: m_def)
  show "h = g\<lparr>g_export := g_export h, g_sink_log := g_sink_log h, g_ctx := c\<rparr>"
    unfolding ge unfolding m by (subst sink_begin_fields(2), rule otel_global.equality) (simp_all add: m_def ex(1) b)
  have fl: "batch_ok (ex_otlp f)" "otlp_request (ex_otlp f) = []"
    using flush_batch[OF ex(2), of pack "g_transport g"] by (simp_all add: f_def)
  then show "batch_ok (ex_otlp (g_export h)) \<and> otlp_request (ex_otlp (g_export h)) = []"
    by (simp add: ge)
  have l: "l = g_sink_log (sink_begin g)"
    using b by (simp add: b_def)
  have sk: "g_sink m = g_sink g" "g_sink_present m = g_sink_present g"
    "g_sink_log m = l @ (if sink_spans g then map SSpan ss else [])"
    by (simp_all add: m_def ex(1) b)
  show "g_sink_log h = g_sink_log g @ sink_brackets g (if sink_spans g then map SSpan ss else [])"
    unfolding m sink_end_def sk l by (auto simp: sink_begin_def sink_brackets_def sink_spans_def sk l split: option.splits)
  assume tp: "g_transport g"
  have "all_sent pack (ex_frames (g_export g)) (g_export g) []"
    using batch by (auto simp: all_sent_def intro!: exI[of _ "[]"])
  then have "all_sent pack (ex_frames (g_export g)) ex (map msg_of ss)"
    using ex(3) tp by fastforce
  then have "all_sent pack (ex_frames (g_export g)) f (map msg_of ss)"
    using all_sent_flush(1) tp by (simp add: f_def)
  then show "sent_frames pack (ex_frames (g_export g)) (ex_frames (g_export h)) (map msg_of ss)"
    using fl(2) by (auto simp: sent_frames_def all_sent_def ge)
qed

lemma threads_okD:
  assumes "threads_ok g"
  shows "distinct (g_threads g)" "\<And>a. a \<in> set (g_threads g) \<Longrightarrow> \<exists>ctx. g_ctx g a = Some ctx \<and> ctx_wf ctx"
    "\<And>t a. g_tls g t = Some a \<Longrightarrow> a \<in> set (g_threads g)" "\<And>a. a \<in> set (g_threads g) \<Longrightarrow> a < g_next g"
    "\<And>t t' a. g_tls g t = Some a \<Longrightarrow> g_tls g t' = Some a \<Longrightarrow> t = t'"
  using assms by (auto simp: threads_ok_def)

definition drained_ctx :: "otel_global \<Rightarrow> nat \<Rightarrow> otel_thread_ctx option" where
  "drained_ctx g = (\<lambda>a. if a \<in> set (g_threads g) then map_option emptied (g_ctx g a) else g_ctx g a)"

lemma drain_ok:
  assumes ok: "tracer_ok g" and en: "g_enabled g"
  shows "\<exists>h. otel_drain pack g = Some (h, int (length (all_queued g))) \<and>
    h = g\<lparr>g_export := g_export h, g_sink_log := g_sink_log h, g_ctx := drained_ctx g\<rparr> \<and>
    g_sink_log h = g_sink_log g @ sink_brackets g (if sink_spans g then map SSpan (all_queued g) else []) \<and>
    batch_ok (ex_otlp (g_export h)) \<and> otlp_request (ex_otlp (g_export h)) = [] \<and>
    (g_transport g \<longrightarrow> sent_frames pack (ex_frames (g_export g)) (ex_frames (g_export h)) (map msg_of (all_queued g)))"
proof -
  have th: "threads_ok g" and batch: "batch_ok (ex_otlp (g_export g))" "otlp_request (ex_otlp (g_export g)) = []"
    and tp: "g_transport_present g = g_transport g"
    using ok en by (auto simp: tracer_ok_def)
  define b where "b = sink_begin g"
  obtain l where b: "b = g\<lparr>g_sink_log := l\<rparr>"
    using sink_begin_fields(1)[of g] b_def by blast
  have "batch_ok (ex_otlp (g_export b))" "g_transport_present b = g_transport b"
    "\<forall>a \<in> set (g_threads g). \<exists>ctx. g_ctx b a = Some ctx \<and> ctx_wf ctx"
    using batch(1) tp threads_okD(2)[OF th] by (auto simp: b)
  from drain_all_ok[OF this(1,2) threads_okD(1)[OF th] this(3), of pack 0] obtain g' where
    1: "emitted pack b g' (concat (map (queued b) (g_threads g)))"
    "drain_all pack (g_threads g) 0 b = Some (g'\<lparr>g_ctx := (\<lambda>a. if a \<in> set (g_threads g)
        then map_option emptied (g_ctx b a) else g_ctx b a)\<rparr>, int (length (concat (map (queued b) (g_threads g)))))"
    by auto
  have q: "queued b = queued g" "g_ctx b = g_ctx g" "g_threads b = g_threads g"
    by (simp_all add: b queued_def fun_eq_iff)
  have "drain_all pack (g_threads b) 0 b = Some (g'\<lparr>g_ctx := drained_ctx g\<rparr>, int (length (all_queued g)))"
    using 1(2) unfolding q drained_ctx_def all_queued_def by simp
  moreover have "emitted pack b g' (all_queued g)"
    using 1(1) unfolding q(1) all_queued_def .
  then have e: "emitted pack (sink_begin g) g' (all_queued g)"
    unfolding b_def .
  note p = pass_ok[OF batch e, of "drained_ctx g"]
  ultimately have "otel_drain pack g = Some (sink_end (flushed_g pack (g'\<lparr>g_ctx := drained_ctx g\<rparr>)), int (length (all_queued g)))"
    using en p(1) unfolding otel_drain_def b_def[symmetric] by simp
  then show ?thesis
    using p(2-5) by blast
qed

subsection \<open>All operations\<close>

datatype tracer_op =
  OInit c_string c_string bool | OTransport bool | OSink "span_sink option" | OEnable bool
| OSampler c_double | OCapacity u32 | ORegister nat otel_random_state u64 | OUnregister nat
| OStart nat c_string byte u64 | OChild nat c_string byte "otel_span option" u64
| ORemote nat c_string byte "byte list" u64 bool u64
| OEnd nat u64 otel_span | ODrain | OShutdown

fun tracer_step :: "(span_msg list \<Rightarrow> byte list) \<Rightarrow> otel_global \<Rightarrow> tracer_op \<Rightarrow> otel_global option" where
  "tracer_step pack g (OInit service host buf_ok) = Some (fst (otel_init service host buf_ok g))"
| "tracer_step pack g (OTransport fn) = Some (otel_set_transport fn g)"
| "tracer_step pack g (OSink sk) = Some (otel_set_span_sink sk g)"
| "tracer_step pack g (OEnable b) = Some (otel_set_enabled b g)"
| "tracer_step pack g (OSampler r) = map_option (\<lambda>sm. g\<lparr>g_sampler := sm\<rparr>) (otel_set_sampler r)"
| "tracer_step pack g (OCapacity n) = map_option (\<lambda>cap. g\<lparr>g_ring_capacity := cap\<rparr>) (otel_set_ring_capacity n)"
| "tracer_step pack g (ORegister t seed now) = Some (otel_thread_register t seed now g)"
| "tracer_step pack g (OUnregister t) = otel_thread_unregister pack t g"
| "tracer_step pack g (OStart t name kind now) = map_option fst (start_span t zero_span name kind now g)"
| "tracer_step pack g (OChild t name kind p now) = map_option fst (start_child_span t zero_span name kind p now g)"
| "tracer_step pack g (ORemote t name kind tid pid b now) =
     map_option fst (start_remote_span t zero_span name kind tid pid b now g)"
| "tracer_step pack g (OEnd t now s) = map_option fst (otel_span_end t now s g)"
| "tracer_step pack g ODrain = map_option fst (otel_drain pack g)"
| "tracer_step pack g OShutdown = otel_shutdown pack g"

text \<open>The rules a client keeps: it goes on only after an \<^verbatim>\<open>otel_init\<close> that got its buffer, no NaN ratio, a capacity the rounding can reach, only spans that
  were recorded are ended, threads register while the library is initialised, and every
  thread unregisters before shutdown.\<close>

fun client_ok :: "otel_global \<Rightarrow> tracer_op \<Rightarrow> bool" where
  "client_ok g (OInit service host buf_ok) \<longleftrightarrow> g_initialized g \<or> g_threads g = [] \<and> buf_ok"
| "client_ok g (OSampler r) \<longleftrightarrow> r \<noteq> NaN"
| "client_ok g (OCapacity n) \<longleftrightarrow> unat n \<le> 2 ^ 31"
| "client_ok g (ORegister t seed now) \<longleftrightarrow> g_initialized g"
| "client_ok g (OEnd t now s) \<longleftrightarrow> exportable_span (s\<lparr>sp_end_unix_ns := now\<rparr>)"
| "client_ok g OShutdown \<longleftrightarrow> g_threads g = []"
| "client_ok g _ \<longleftrightarrow> True"

lemma capacity_ok: "unat n \<le> 2 ^ 31 \<Longrightarrow> \<exists>k \<le> 31. otel_set_ring_capacity n = Some (2 ^ k)"
  using ring_capacity_value by blast

lemma tracer_ok_init: "tracer_ok g \<Longrightarrow> client_ok g (OInit service host buf_ok) \<Longrightarrow>
    tracer_ok (fst (otel_init service host buf_ok g))"
proof (cases "g_initialized g")
  case False
  assume ok: "tracer_ok g" and "client_ok g (OInit service host buf_ok)"
  with False have th: "g_threads g = []" and buf: "buf_ok"
    by simp_all
  then have "g_tls g t = None" for t
    using ok by (cases "g_tls g t") (auto simp: tracer_ok_def threads_ok_def)
  moreover have "otlp_init\<lparr>ot_buf := True\<rparr> = otlp_init"
    by (simp add: otlp_init_def)
  ultimately show ?thesis
    using th buf False ok by (auto simp: otel_init_def tracer_ok_def threads_ok_def otlp_init_ok)
qed (simp add: otel_init_def)

lemma tracer_ok_config:
  "tracer_ok g \<Longrightarrow> tracer_ok (otel_set_transport fn g)" "tracer_ok g \<Longrightarrow> tracer_ok (otel_set_span_sink sk g)"
  "tracer_ok g \<Longrightarrow> tracer_ok (otel_set_enabled b g)" "tracer_ok g \<Longrightarrow> tracer_ok (g\<lparr>g_sampler := sm\<rparr>)"
  "tracer_ok g \<Longrightarrow> k \<le> 31 \<Longrightarrow> tracer_ok (g\<lparr>g_ring_capacity := 2 ^ k\<rparr>)"
  unfolding tracer_ok_def threads_ok_def otel_set_transport_def otel_set_span_sink_def otel_set_enabled_def
    otel_recompute_enabled_def by simp_all blast

lemma ctx_new_wf: "k \<le> 31 \<Longrightarrow> ctx_wf (ctx_new (2 ^ k) rs)"
  using ctx_new_ok by (simp add: ctx_wf_def)

lemma tracer_ok_register:
  assumes "tracer_ok g"
  shows "tracer_ok (otel_thread_register t seed now g)"
proof (cases "g_tls g t")
  case None
  have th: "threads_ok g"
    using assms by (simp add: tracer_ok_def)
  obtain k where k: "k \<le> 31" "g_ring_capacity g = 2 ^ k"
    using assms by (auto simp: tracer_ok_def)
  note d = threads_okD[OF th]
  have fresh: "g_next g \<notin> set (g_threads g)"
    using d(4) by blast
  have "threads_ok (otel_thread_register t seed now g)"
    using None k ctx_new_wf d fresh unfolding threads_ok_def otel_thread_register_def Let_def
    by (auto simp: less_Suc_eq)
  then show ?thesis
    using assms None by (auto simp: tracer_ok_def otel_thread_register_def Let_def)
qed (simp add: otel_thread_register_def assms)

lemma drained_threads_ok:
  assumes "threads_ok g"
  shows "threads_ok (g\<lparr>g_export := ex, g_sink_log := l, g_ctx := drained_ctx g\<rparr>)"
  using assms emptied_wf(1) unfolding threads_ok_def drained_ctx_def by fastforce

lemma tracer_ok_drain:
  assumes ok: "tracer_ok g"
  shows "\<exists>h n. otel_drain pack g = Some (h, n) \<and> tracer_ok h \<and> g_threads h = g_threads g \<and> g_initialized h = g_initialized g"
proof (cases "g_enabled g")
  case True
  from drain_ok[OF ok True, of pack] obtain h where h: "otel_drain pack g = Some (h, int (length (all_queued g)))"
    "h = g\<lparr>g_export := g_export h, g_sink_log := g_sink_log h, g_ctx := drained_ctx g\<rparr>"
    "batch_ok (ex_otlp (g_export h))" "otlp_request (ex_otlp (g_export h)) = []" by blast
  have "threads_ok h"
    by (subst h(2)) (rule drained_threads_ok, use ok in \<open>simp add: tracer_ok_def\<close>)
  moreover have "g_threads h = g_threads g" "g_initialized h = g_initialized g" "g_ring_capacity h = g_ring_capacity g"
    "g_transport_present h = g_transport_present g" "g_transport h = g_transport g" "g_sink h = g_sink g"
    "g_sink_present h = g_sink_present g" "g_enabled h = g_enabled g" "g_runtime_on h = g_runtime_on g"
    by (subst h(2), simp)+
  ultimately show ?thesis
    using ok h(1,3,4) by (auto simp: tracer_ok_def)
qed (use ok in \<open>simp add: otel_drain_def\<close>)

subsection \<open>Leaving and ending\<close>

lemma unlink_threads_ok:
  assumes th: "threads_ok g" and a: "g_tls g t = Some a"
    and c: "\<And>b. b \<noteq> a \<Longrightarrow> c b = g_ctx g b"
  shows "threads_ok (g\<lparr>g_export := ex, g_sink_log := l, g_threads := remove1 a (g_threads g), g_ctx := c(a := None),
    g_tls := (g_tls g)(t := None)\<rparr>)"
proof -
  note d = threads_okD[OF th]
  have s: "set (remove1 a (g_threads g)) = set (g_threads g) - {a}"
    using d(1) by simp
  have "b \<in> set (g_threads g) \<Longrightarrow> b \<noteq> a \<Longrightarrow> \<exists>ctx. c b = Some ctx \<and> ctx_wf ctx" for b
    using d(2) c by simp
  moreover have "g_tls g t' = Some b \<Longrightarrow> t' \<noteq> t \<Longrightarrow> b \<noteq> a" for t' b
    using d(5) a by blast
  ultimately show ?thesis
    using d unfolding threads_ok_def s by (simp add: distinct_remove1) blast
qed

lemma unregister_ok:
  assumes ok: "tracer_ok g" and a: "g_tls g t = Some a"
  shows "\<exists>h. otel_thread_unregister pack t g = Some h \<and> tracer_ok h \<and>
    h = g\<lparr>g_export := g_export h, g_sink_log := g_sink_log h, g_threads := remove1 a (g_threads g),
      g_ctx := (g_ctx g)(a := None), g_tls := (g_tls g)(t := None)\<rparr> \<and>
    (if g_enabled g then g_sink_log h = g_sink_log g @ sink_brackets g (if sink_spans g then map SSpan (queued g a) else []) \<and>
       (g_transport g \<longrightarrow> sent_frames pack (ex_frames (g_export g)) (ex_frames (g_export h)) (map msg_of (queued g a)))
     else g_sink_log h = g_sink_log g \<and> g_export h = g_export g)"
proof -
  have th: "threads_ok g" and tp: "g_transport_present g = g_transport g"
    using ok by (auto simp: tracer_ok_def)
  obtain ctx where ctx: "g_ctx g a = Some ctx" "ctx_wf ctx"
    using threads_okD(2,3)[OF th] a by blast
  have keep: "tracer_ok h" if "h = g\<lparr>g_export := g_export h, g_sink_log := g_sink_log h,
      g_threads := remove1 a (g_threads g), g_ctx := (g_ctx g)(a := None), g_tls := (g_tls g)(t := None)\<rparr>"
    "g_initialized g \<longrightarrow> batch_ok (ex_otlp (g_export h)) \<and> otlp_request (ex_otlp (g_export h)) = []" for h
  proof -
    have "threads_ok h"
      by (subst that(1)) (rule unlink_threads_ok[OF th a], simp)
    moreover have "g_initialized h = g_initialized g" "g_ring_capacity h = g_ring_capacity g"
      "g_transport_present h = g_transport_present g" "g_transport h = g_transport g" "g_sink h = g_sink g"
      "g_sink_present h = g_sink_present g" "g_enabled h = g_enabled g" "g_runtime_on h = g_runtime_on g"
      by (subst that(1), simp)+
    ultimately show ?thesis
      using ok that(2) by (auto simp: tracer_ok_def)
  qed
  show ?thesis
  proof (cases "g_enabled g")
    case True
    note batch = enabled_batch[OF ok True]
    define b where "b = sink_begin g"
    obtain l where b: "b = g\<lparr>g_sink_log := l\<rparr>"
      using sink_begin_fields(1)[of g] b_def by blast
    have "batch_ok (ex_otlp (g_export b))" "g_transport_present b = g_transport b" "g_ctx b a = Some ctx"
      using batch(1) tp ctx(1) by (simp_all add: b)
    from drain_one_ok[OF this ctx(2), of pack] obtain g' where 1: "emitted pack b g' (queued b a)"
      "drain_one pack a b = Some (g'\<lparr>g_ctx := (g_ctx b)(a \<mapsto> emptied ctx)\<rparr>, int (length (queued b a)))" by blast
    define h where "h = sink_end (flushed_g pack (g'\<lparr>g_ctx := (g_ctx b)(a \<mapsto> emptied ctx)\<rparr>))"
    have e: "emitted pack (sink_begin g) g' (queued g a)"
      using 1(1) by (simp add: b queued_def flip: b_def)
    note p = pass_ok[OF batch e, of "(g_ctx b)(a \<mapsto> emptied ctx)", folded h_def]
    define h' where "h' = h\<lparr>g_threads := remove1 a (g_threads h), g_ctx := (g_ctx h)(a := None), g_tls := (g_tls h)(t := None)\<rparr>"
    have "otel_thread_unregister pack t g = Some h'"
      using a ctx(1) True 1(2) p(1) unfolding otel_thread_unregister_def b_def[symmetric]
      by (simp add: h'_def h_def)
    moreover have f: "g_threads h = g_threads g" "g_tls h = g_tls g" "g_ctx h = (g_ctx b)(a \<mapsto> emptied ctx)"
      by (subst p(2), simp)+
    have eq: "h' = g\<lparr>g_export := g_export h', g_sink_log := g_sink_log h', g_threads := remove1 a (g_threads g),
        g_ctx := (g_ctx g)(a := None), g_tls := (g_tls g)(t := None)\<rparr>"
      unfolding h'_def f by (subst p(2), rule otel_global.equality) (simp_all add: b)
    moreover have "g_sink_log h' = g_sink_log h" "g_export h' = g_export h"
      by (simp_all add: h'_def)
    moreover have "tracer_ok h'"
      using keep[OF eq] p(4) by (simp add: h'_def)
    ultimately show ?thesis
      using True p(3,5) by auto
  next
    case False
    define h where "h = g\<lparr>g_threads := remove1 a (g_threads g), g_ctx := (g_ctx g)(a := None), g_tls := (g_tls g)(t := None)\<rparr>"
    have "otel_thread_unregister pack t g = Some h"
      using a ctx(1) False by (simp add: otel_thread_unregister_def h_def)
    moreover have eq: "h = g\<lparr>g_export := g_export h, g_sink_log := g_sink_log h, g_threads := remove1 a (g_threads g),
        g_ctx := (g_ctx g)(a := None), g_tls := (g_tls g)(t := None)\<rparr>"
      by (rule otel_global.equality) (simp_all add: h_def)
    moreover have "tracer_ok h"
      using keep[OF eq] ok by (simp add: h_def tracer_ok_def)
    moreover have "g_sink_log h = g_sink_log g" "g_export h = g_export g"
      by (simp_all add: h_def)
    ultimately show ?thesis
      using False by auto
  qed
qed

text \<open>Starting a span draws ids from the generator of the calling thread and leaves the rest of
  the state alone; the span itself belongs to the client.\<close>

definition draws_ids :: "(otel_thread_ctx option \<Rightarrow> otel_thread_ctx option \<times> otel_span) \<Rightarrow> bool" where
  "draws_ids f \<longleftrightarrow> (\<forall>ctx. \<exists>r. fst (f (Some ctx)) = Some (ctx\<lparr>cx_randstate := r\<rparr>))"

lemma rand_ctx: "fst (otel_rand ctx) = ctx\<lparr>cx_randstate := fst (otel_random_next (cx_randstate ctx))\<rparr>"
  by (simp add: otel_rand_def split: prod.splits)

lemma otel_rand_unfold: "otel_rand ctx = (ctx\<lparr>cx_randstate := fst (otel_random_next (cx_randstate ctx))\<rparr>,
    snd (otel_random_next (cx_randstate ctx)))"
  by (simp add: otel_rand_def split: prod.splits)

lemma same_randstate: "\<exists>r. ctx = ctx\<lparr>cx_randstate := r\<rparr>" "\<exists>r'. ctx\<lparr>cx_randstate := r\<rparr> = ctx\<lparr>cx_randstate := r'\<rparr>"
  by (rule exI[of _ "cx_randstate ctx"], simp) blast

lemma draws_ids_start:
  "draws_ids (\<lambda>tls. otel_span_start en sm tls s name kind now)"
  "draws_ids (\<lambda>tls. otel_span_start_child tls s name kind parent now)"
  "draws_ids (\<lambda>tls. otel_span_start_remote en tls s name kind tid pid b now)"
  using same_randstate
  by (auto simp: draws_ids_def otel_span_start_def otel_span_start_root_slow_def otel_span_start_child_def
      otel_span_start_child_slow_def otel_span_start_remote_def otel_span_start_remote_slow_def
      otel_rand_unfold Let_def split: option.splits)

lemma randstate_wf [simp]:
  "ctx_wf (ctx\<lparr>cx_randstate := r\<rparr>) = ctx_wf ctx" "ring_contents (ctx\<lparr>cx_randstate := r\<rparr>) = ring_contents ctx"
  by (simp_all add: ctx_wf_def ring_ok_def ring_contents_def ring_window_def slot_index_def)

lemma tls_call_ok:
  assumes ok: "tracer_ok g" and f: "draws_ids f"
  shows "\<exists>h s. tls_call t f g = Some (h, s) \<and> tracer_ok h \<and> h = g\<lparr>g_ctx := g_ctx h\<rparr> \<and> queued h = queued g \<and>
    s = snd (f (case g_tls g t of None \<Rightarrow> None | Some a \<Rightarrow> g_ctx g a))"
proof (cases "g_tls g t")
  case None
  then show ?thesis
    using ok by (simp add: tls_call_def)
next
  case (Some a)
  have th: "threads_ok g"
    using ok by (simp add: tracer_ok_def)
  obtain ctx where ctx: "g_ctx g a = Some ctx" "ctx_wf ctx"
    using threads_okD(2,3)[OF th] Some by blast
  obtain r where r: "fst (f (Some ctx)) = Some (ctx\<lparr>cx_randstate := r\<rparr>)"
    using f by (auto simp: draws_ids_def)
  define h where "h = g\<lparr>g_ctx := (g_ctx g)(a \<mapsto> ctx\<lparr>cx_randstate := r\<rparr>)\<rparr>"
  have "tls_call t f g = Some (h, snd (f (Some ctx)))"
    using Some ctx(1) r by (cases "f (Some ctx)") (simp add: tls_call_def h_def)
  moreover have "threads_ok h"
    using th ctx unfolding threads_ok_def h_def by auto
  then have "tracer_ok h"
    using ok by (simp add: tracer_ok_def h_def)
  moreover have "queued h = queued g"
    using ctx(1) by (auto simp: h_def queued_def fun_eq_iff)
  ultimately show ?thesis
    using Some ctx(1) by (simp add: h_def)
qed

lemma enqueue_wf:
  assumes "ctx_wf ctx" and "exportable_span s"
  shows "ctx_wf (fst (ring_enqueue ctx s))"
  using assms ring.put_ok[of ctx s] ring.put_contents[of ctx s] by (auto simp: ctx_wf_def split: if_splits)

text \<open>What ending a recording span does: with no context it is counted as dropped; else it is
  queued on the caller's ring, or counted when that is full.\<close>

lemma span_end_ok:
  assumes ok: "tracer_ok g" and s: "exportable_span (s\<lparr>sp_end_unix_ns := now\<rparr>)" and rec: "otel_span_recording s"
  shows "\<exists>h. otel_span_end t now s g = Some (h, s\<lparr>sp_end_unix_ns := now\<rparr>) \<and> tracer_ok h \<and>
    h = g\<lparr>g_ctx := g_ctx h, g_dropped_spans := g_dropped_spans h\<rparr> \<and>
    (\<forall>a. g_tls g t \<noteq> Some a \<longrightarrow> g_ctx h a = g_ctx g a) \<and>
    (g_tls g t = None \<longrightarrow> g_dropped_spans h = g_dropped_spans g + 1) \<and>
    (\<forall>a. g_tls g t = Some a \<longrightarrow>
       queued h a = queued g a @ [s\<lparr>sp_end_unix_ns := now\<rparr>] \<and> g_dropped_spans h = g_dropped_spans g \<or>
       queued h a = queued g a \<and> g_dropped_spans h = g_dropped_spans g + 1)"
proof (cases "g_tls g t")
  case None
  define h where "h = g\<lparr>g_dropped_spans := g_dropped_spans g + 1\<rparr>"
  have "otel_span_end t now s g = Some (h, s\<lparr>sp_end_unix_ns := now\<rparr>)"
    using None rec by (simp add: otel_span_end_def h_def)
  moreover have "tracer_ok h"
    using ok by (simp add: tracer_ok_def threads_ok_def h_def)
  ultimately show ?thesis
    using None by (intro exI[of _ h]) (simp add: h_def)
next
  case (Some a)
  let ?s = "s\<lparr>sp_end_unix_ns := now\<rparr>"
  have th: "threads_ok g"
    using ok by (simp add: tracer_ok_def)
  obtain ctx where ctx: "g_ctx g a = Some ctx" "ctx_wf ctx"
    using threads_okD(2,3)[OF th] Some by blast
  obtain ctx' b where enq: "ring_enqueue ctx ?s = (ctx', b)" by fastforce
  have wf: "ctx_wf ctx'"
    using enqueue_wf[OF ctx(2) s] enq by simp
  have cont: "ring_contents ctx' = (if b then ring_contents ctx @ [?s] else ring_contents ctx)"
    using ring.put_contents[of ctx ?s] ctx(2) enq by (simp add: ctx_wf_def)
  define h where "h = g\<lparr>g_ctx := (g_ctx g)(a \<mapsto> ctx'), g_dropped_spans := g_dropped_spans g + (if b then 0 else 1)\<rparr>"
  have "otel_span_end t now s g = Some (h, ?s)"
    using Some rec ctx(1) enq by (auto simp: otel_span_end_def h_def)
  moreover have "threads_ok h"
    using th wf unfolding threads_ok_def h_def by auto
  then have "tracer_ok h"
    using ok by (simp add: tracer_ok_def h_def)
  ultimately show ?thesis
    using Some cont ctx(1) by (intro exI[of _ h]) (auto simp: h_def queued_def)
qed

lemma shutdown_ok:
  assumes ok: "tracer_ok g" and th: "g_threads g = []"
  shows "\<exists>h. otel_shutdown pack g = Some h \<and> tracer_ok h"
proof (cases "g_initialized g")
  case True
  have "\<exists>h. (if g_enabled g then map_option fst (otel_drain pack g) else Some g) = Some h \<and> tracer_ok h \<and> g_threads h = []"
    using tracer_ok_drain[OF ok, of pack] ok th by (cases "g_enabled g") auto
  then obtain h where h: "(if g_enabled g then map_option fst (otel_drain pack g) else Some g) = Some h"
    "tracer_ok h" "g_threads h = []" by blast
  define h' where "h' = h\<lparr>g_ctx := (\<lambda>a. if a \<in> set (g_threads h) then None else g_ctx h a), g_threads := [],
    g_export := (g_export h)\<lparr>ex_otlp := (ex_otlp (g_export h))\<lparr>ot_buf := False\<rparr>\<rparr>, g_initialized := False, g_enabled := False\<rparr>"
  have "otel_shutdown pack g = Some h'"
    using True h(1) unfolding otel_shutdown_def h'_def by simp
  moreover have "tracer_ok h'"
    using h(2,3) by (auto simp: tracer_ok_def threads_ok_def h'_def)
  ultimately show ?thesis by blast
qed (use ok in \<open>simp add: otel_shutdown_def\<close>)

lemma tracer_step_ok:
  assumes ok: "tracer_ok g" and client: "client_ok g op"
  shows "\<exists>h. tracer_step pack g op = Some h \<and> tracer_ok h"
proof (cases op)
  case (OInit service host buf_ok)
  then show ?thesis
    using tracer_ok_init[OF ok] client by simp
next
  case (OSampler r)
  then have "otel_set_sampler r \<noteq> None"
    using client by (cases r) (simp_all add: otel_set_sampler_def)
  then show ?thesis
    using OSampler tracer_ok_config(4)[OF ok] by auto
next
  case (OCapacity n)
  then show ?thesis
    using capacity_ok[of n] client tracer_ok_config(5)[OF ok] by auto
next
  case (OUnregister t)
  then show ?thesis
    using unregister_ok[OF ok, of t _ pack] ok by (cases "g_tls g t") (auto simp: otel_thread_unregister_def)
next
  case (OStart t name kind now)
  then show ?thesis
    using tls_call_ok[OF ok draws_ids_start(1)] by (fastforce simp: start_span_def)
next
  case (OChild t name kind p now)
  then show ?thesis
    using tls_call_ok[OF ok draws_ids_start(2)] by (fastforce simp: start_child_span_def)
next
  case (ORemote t name kind tid pid b now)
  then show ?thesis
    using tls_call_ok[OF ok draws_ids_start(3)] by (fastforce simp: start_remote_span_def)
next
  case (OEnd t now s)
  then show ?thesis
    using span_end_ok[OF ok, where s = s and now = now and t = t] client ok by (cases "otel_span_recording s") (auto simp: otel_span_end_def)
next
  case ODrain
  then show ?thesis
    using tracer_ok_drain[OF ok, of pack] by auto
next
  case OShutdown
  then show ?thesis
    using shutdown_ok[OF ok] client by simp
qed (use ok tracer_ok_config tracer_ok_register in auto)

subsection \<open>Runs and conservation\<close>

fun tracer_run :: "(span_msg list \<Rightarrow> byte list) \<Rightarrow> otel_global \<Rightarrow> tracer_op list \<Rightarrow> otel_global option" where
  "tracer_run pack g [] = Some g"
| "tracer_run pack g (op # ops) = do { g \<leftarrow> tracer_step pack g op; tracer_run pack g ops }"

fun client_keeps :: "(span_msg list \<Rightarrow> byte list) \<Rightarrow> otel_global \<Rightarrow> tracer_op list \<Rightarrow> bool" where
  "client_keeps pack g [] \<longleftrightarrow> True"
| "client_keeps pack g (op # ops) \<longleftrightarrow> client_ok g op \<and>
     (case tracer_step pack g op of None \<Rightarrow> True | Some h \<Rightarrow> client_keeps pack h ops)"

lemma tracer_run_ok:
  "tracer_ok g \<Longrightarrow> client_keeps pack g ops \<Longrightarrow> \<exists>h. tracer_run pack g ops = Some h \<and> tracer_ok h"
proof (induction ops arbitrary: g)
  case (Cons op ops)
  from tracer_step_ok[OF Cons.prems(1)] Cons.prems(2) obtain h where
    "tracer_step pack g op = Some h" "tracer_ok h" by fastforce
  with Cons show ?case by auto
qed simp

fun is_span_event :: "sink_event \<Rightarrow> bool" where
  "is_span_event (SSpan s) = True" | "is_span_event _ = False"

text \<open>Spans the sink was given plus spans still queued.\<close>

definition span_total :: "otel_global \<Rightarrow> nat" where
  "span_total g = length (filter is_span_event (g_sink_log g)) + length (all_queued g)"

fun ends_span :: "tracer_op \<Rightarrow> nat" where
  "ends_span (OEnd t now s) = (if otel_span_recording s then 1 else 0)"
| "ends_span _ = 0"

text \<open>The span a call ends.\<close>

fun ended_by :: "tracer_op \<Rightarrow> otel_span list" where
  "ended_by (OEnd t now s) = (if otel_span_recording s then [s\<lparr>sp_end_unix_ns := now\<rparr>] else [])"
| "ended_by _ = []"

lemma length_ended_by [simp]: "length (ended_by op) = ends_span op"
  by (cases op) simp_all

fun steady_op :: "tracer_op \<Rightarrow> bool" where
  "steady_op (OEnd t now s) = True" | "steady_op ODrain = True" | "steady_op (ORegister t seed now) = True"
| "steady_op (OUnregister t) = True" | "steady_op (OStart t name kind now) = True"
| "steady_op (OChild t name kind p now) = True" | "steady_op (ORemote t name kind tid pid b now) = True"
| "steady_op _ = False"

lemma length_all_queued: "length (all_queued g) = sum_list (map (\<lambda>a. length (queued g a)) (g_threads g))"
  by (simp add: all_queued_def length_concat comp_def)

lemma concat_queued:
  assumes "\<And>a. a \<in> set (g_threads g) \<Longrightarrow> queued h a = queued g a"
  shows "concat (map (queued h) (g_threads g)) = all_queued g"
  unfolding all_queued_def using assms by (simp cong: map_cong)

lemma sum_list_one:
  fixes f :: "nat \<Rightarrow> nat"
  shows "a \<in> set as \<Longrightarrow> distinct as \<Longrightarrow> (\<And>b. b \<noteq> a \<Longrightarrow> f' b = f b) \<Longrightarrow>
    sum_list (map f' as) + f a = sum_list (map f as) + f' a"
proof (induction as)
  case (Cons b as)
  then show ?case
  proof (cases "b = a")
    case True
    then have "map f' as = map f as"
      using Cons.prems(2) by (intro map_cong refl Cons.prems(3)) auto
    then have "sum_list (map f' as) = sum_list (map f as)"
      by (rule arg_cong)
    then show ?thesis using True by simp
  qed auto
qed simp

text \<open>A sum over the registry in which one term changes.\<close>

lemma mset_concat_one:
  "a \<in> set as \<Longrightarrow> distinct as \<Longrightarrow> (\<And>b. b \<in> set as \<Longrightarrow> b \<noteq> a \<Longrightarrow> f' b = f b) \<Longrightarrow>
   mset (concat (map f' as)) + mset (f a) = mset (concat (map f as)) + mset (f' a)"
proof (induction as)
  case (Cons x as)
  show ?case
  proof (cases "x = a")
    case True
    then have "map f' as = map f as"
      using Cons.prems by auto
    then show ?thesis
      using True by (simp del: map_eq_conv)
  next
    case False
    then show ?thesis
      using Cons.IH Cons.prems by (simp add: add.assoc)
  qed
qed simp

text \<open>The spans of one context and the others.\<close>

lemma mset_concat_remove1:
  "a \<in> set as \<Longrightarrow> mset (concat (map f as)) = mset (f a) + mset (concat (map f (remove1 a as)))"
  by (induction as) (auto simp: ac_simps)

lemma brackets_spans:
  "sink_spans g \<Longrightarrow> length (filter is_span_event (sink_brackets g (map SSpan ss))) = length ss"
  by (auto simp: sink_spans_def sink_brackets_def filter_map comp_def split: option.splits)

lemma drained_queued: "threads_ok g \<Longrightarrow> a \<in> set (g_threads g) \<Longrightarrow>
    queued (g\<lparr>g_export := ex, g_sink_log := l, g_ctx := drained_ctx g\<rparr>) a = []"
  using threads_okD(2)[of g a] emptied_wf(2) by (auto simp: queued_def drained_ctx_def)

definition steady :: "otel_global \<Rightarrow> bool" where
  "steady g \<longleftrightarrow> tracer_ok g \<and> g_enabled g \<and> sink_spans g"

text \<open>Of \<open>n\<close> ended spans each was queued, or delivered since, or counted as dropped.\<close>

definition accounted :: "otel_global \<Rightarrow> otel_global \<Rightarrow> nat \<Rightarrow> bool" where
  "accounted g h n \<longleftrightarrow> (\<exists>lost. span_total h + lost = span_total g + n \<and>
     g_dropped_spans h = g_dropped_spans g + of_nat lost)"

lemma accounted_same: "span_total h = span_total g \<Longrightarrow> g_dropped_spans h = g_dropped_spans g \<Longrightarrow> accounted g h 0"
  unfolding accounted_def by (intro exI[of _ 0]) simp

lemma accounted_trans: "accounted f g m \<Longrightarrow> accounted g h n \<Longrightarrow> accounted f h (m + n)"
  unfolding accounted_def by (elim exE, rule_tac x = "lost + losta" in exI) simp

lemma conserve_end:
  assumes st: "steady g" and s: "exportable_span (s\<lparr>sp_end_unix_ns := now\<rparr>)"
    and step: "tracer_step pack g (OEnd t now s) = Some h"
  shows "steady h \<and> accounted g h (ends_span (OEnd t now s))"
proof (cases "otel_span_recording s")
  case False
  then show ?thesis using st step by (simp add: otel_span_end_def accounted_def)
next
  case True
  have ok: "tracer_ok g" and th: "threads_ok g"
    using st by (auto simp: steady_def tracer_ok_def)
  from span_end_ok[OF ok s True, of t] step have h: "tracer_ok h"
    "h = g\<lparr>g_ctx := g_ctx h, g_dropped_spans := g_dropped_spans h\<rparr>"
    "\<forall>a. g_tls g t \<noteq> Some a \<longrightarrow> g_ctx h a = g_ctx g a"
    "g_tls g t = None \<longrightarrow> g_dropped_spans h = g_dropped_spans g + 1"
    "\<forall>a. g_tls g t = Some a \<longrightarrow>
       queued h a = queued g a @ [s\<lparr>sp_end_unix_ns := now\<rparr>] \<and> g_dropped_spans h = g_dropped_spans g \<or>
       queued h a = queued g a \<and> g_dropped_spans h = g_dropped_spans g + 1"
    by auto
  have f: "g_threads h = g_threads g" "g_sink_log h = g_sink_log g" "g_enabled h = g_enabled g"
    by (subst h(2), simp)+
  have sk: "sink_spans h = sink_spans g"
    by (subst h(2)) simp
  have steady: "steady h"
    using st h(1) sk f by (simp add: steady_def)
  have q: "queued h b = queued g b" if "g_tls g t \<noteq> Some b" for b
    using h(3) that by (simp add: queued_def)
  show ?thesis
  proof (cases "g_tls g t")
    case None
    then have "all_queued h = all_queued g"
      using q concat_queued[of g h] by (simp add: all_queued_def[of h] f(1))
    then have "span_total h = span_total g"
      by (simp add: span_total_def f)
    then show ?thesis
      using None h(4) True steady unfolding accounted_def by (intro conjI exI[of _ 1]) simp_all
  next
    case (Some a)
    have "sum_list (map (\<lambda>b. length (queued h b)) (g_threads g)) + length (queued g a) =
        sum_list (map (\<lambda>b. length (queued g b)) (g_threads g)) + length (queued h a)"
      using threads_okD(1,3)[OF th] Some q by (intro sum_list_one) auto
    then have "span_total h + length (queued g a) = span_total g + length (queued h a)"
      by (simp add: span_total_def length_all_queued f)
    moreover from h(5) Some have "\<exists>lost. length (queued h a) + lost = length (queued g a) + 1 \<and> g_dropped_spans h = g_dropped_spans g + of_nat lost"
      by (elim allE[of _ a], elim impE disjE) (auto intro: exI[of _ 0] exI[of _ 1])
    then obtain lost where lost: "length (queued h a) + lost = length (queued g a) + 1"
      "g_dropped_spans h = g_dropped_spans g + of_nat lost" by blast
    ultimately show ?thesis
      using True steady unfolding accounted_def by (intro conjI exI[of _ lost]) simp_all
  qed
qed

lemma conserve_drain:
  assumes st: "steady g" and step: "tracer_step pack g ODrain = Some h"
  shows "steady h \<and> span_total h = span_total g \<and> g_dropped_spans h = g_dropped_spans g"
proof -
  have ok: "tracer_ok g" and th: "threads_ok g" and en: "g_enabled g" and sk: "sink_spans g"
    using st by (auto simp: steady_def tracer_ok_def)
  from drain_ok[OF ok en, of pack] step sk have h: "h = g\<lparr>g_export := g_export h, g_sink_log := g_sink_log h, g_ctx := drained_ctx g\<rparr>"
    "g_sink_log h = g_sink_log g @ sink_brackets g (map SSpan (all_queued g))" by auto
  have "tracer_ok h"
    using tracer_ok_drain[OF ok, of pack] step by auto
  moreover have f: "g_threads h = g_threads g" "g_enabled h = g_enabled g" "g_dropped_spans h = g_dropped_spans g"
    by (subst h(1), simp)+
  moreover have "sink_spans h = sink_spans g"
    by (subst h(1)) simp
  moreover have "queued h a = []" if "a \<in> set (g_threads g)" for a
    by (subst h(1)) (rule drained_queued[OF th that])
  then have "all_queued h = []"
    by (simp add: all_queued_def f)
  ultimately show ?thesis
    using en sk h(2) brackets_spans[OF sk] by (simp add: steady_def span_total_def)
qed

lemma registered_queued:
  fixes t :: nat and seed :: otel_random_state and now :: u64
  assumes ok: "tracer_ok g"
  shows "all_queued (otel_thread_register t seed now g) = all_queued g"
proof (cases "g_tls g t")
  case None
  define h where "h = otel_thread_register t seed now g"
  have th: "threads_ok g"
    using ok by (simp add: tracer_ok_def)
  obtain k where k: "k \<le> 31" "g_ring_capacity g = 2 ^ k"
    using ok by (auto simp: tracer_ok_def)
  have fresh: "g_next g \<notin> set (g_threads g)"
    using threads_okD(4)[OF th] by blast
  have "queued h (g_next g) = []"
    using None k ctx_new_ok(2) by (simp add: h_def queued_def otel_thread_register_def Let_def)
  moreover have "concat (map (queued h) (g_threads g)) = all_queued g"
    using fresh None by (intro concat_queued) (auto simp: h_def queued_def otel_thread_register_def Let_def)
  moreover have "g_threads h = g_next g # g_threads g"
    using None by (simp add: h_def otel_thread_register_def Let_def)
  ultimately show ?thesis
    by (simp add: all_queued_def[of h] flip: h_def)
qed (simp add: otel_thread_register_def)

lemma conserve_register:
  fixes t :: nat and seed :: otel_random_state and now :: u64
  assumes st: "steady g"
  defines "h \<equiv> otel_thread_register t seed now g"
  shows "steady h \<and> span_total h = span_total g \<and> g_dropped_spans h = g_dropped_spans g"
proof -
  have ok: "tracer_ok g"
    using st by (simp add: steady_def)
  have "g_sink_log h = g_sink_log g" "g_enabled h = g_enabled g" "g_dropped_spans h = g_dropped_spans g"
    "sink_spans h = sink_spans g"
    by (auto simp: h_def otel_thread_register_def Let_def)
  then show ?thesis
    using st tracer_ok_register[OF ok, of t seed now] registered_queued[OF ok, of t seed now]
    by (simp add: steady_def span_total_def flip: h_def)
qed

lemma conserve_unregister:
  assumes st: "steady g" and step: "tracer_step pack g (OUnregister t) = Some h"
  shows "steady h \<and> span_total h = span_total g \<and> g_dropped_spans h = g_dropped_spans g"
proof (cases "g_tls g t")
  case None
  then show ?thesis
    using st step by (simp add: otel_thread_unregister_def)
next
  case (Some a)
  have ok: "tracer_ok g" and th: "threads_ok g" and en: "g_enabled g" and sk: "sink_spans g"
    using st by (auto simp: steady_def tracer_ok_def)
  from unregister_ok[OF ok Some, of pack] step en sk have h: "tracer_ok h"
    "h = g\<lparr>g_export := g_export h, g_sink_log := g_sink_log h, g_threads := remove1 a (g_threads g),
      g_ctx := (g_ctx g)(a := None), g_tls := (g_tls g)(t := None)\<rparr>"
    "g_sink_log h = g_sink_log g @ sink_brackets g (map SSpan (queued g a))"
    by auto
  have f: "g_threads h = remove1 a (g_threads g)" "g_enabled h = g_enabled g" "g_dropped_spans h = g_dropped_spans g"
    "g_ctx h = (g_ctx g)(a := None)"
    by (subst h(2), simp)+
  have s: "sink_spans h = sink_spans g"
    by (subst h(2)) simp
  have a: "a \<in> set (g_threads g)"
    using threads_okD(3)[OF th Some] .
  have "map (\<lambda>b. length (queued h b)) (remove1 a (g_threads g)) = map (\<lambda>b. length (queued g b)) (remove1 a (g_threads g))"
    using threads_okD(1)[OF th] f(4) by (auto simp: queued_def)
  then have "sum_list (map (\<lambda>b. length (queued h b)) (remove1 a (g_threads g))) =
      sum_list (map (\<lambda>b. length (queued g b)) (remove1 a (g_threads g)))"
    by (rule arg_cong)
  then have "length (all_queued g) = length (queued g a) + length (all_queued h)"
    using sum_list_map_remove1[OF a, of "\<lambda>b. length (queued g b)"] by (simp add: length_all_queued f)
  then show ?thesis
    using h(1,3) en sk s f brackets_spans[OF sk] by (simp add: steady_def span_total_def)
qed

lemma conserve_start:
  assumes st: "steady g" and f: "draws_ids f" and step: "map_option fst (tls_call t f g) = Some h"
  shows "steady h \<and> span_total h = span_total g \<and> g_dropped_spans h = g_dropped_spans g"
proof -
  have "tracer_ok g"
    using st by (simp add: steady_def)
  from tls_call_ok[OF this f, of t] step have h: "tracer_ok h" "h = g\<lparr>g_ctx := g_ctx h\<rparr>" "queued h = queued g"
    by auto
  have "g_threads h = g_threads g" "g_sink_log h = g_sink_log g" "g_enabled h = g_enabled g"
    "g_dropped_spans h = g_dropped_spans g"
    by (subst h(2), simp)+
  moreover have "sink_spans h = sink_spans g"
    by (subst h(2)) simp
  ultimately show ?thesis
    using st h(1,3) by (simp add: steady_def span_total_def all_queued_def)
qed

lemma conserve_step:
  assumes "steady g" and "client_ok g op" and "steady_op op" and "tracer_step pack g op = Some h"
  shows "steady h \<and> accounted g h (ends_span op)"
proof (cases op)
  case (OEnd t now s)
  then show ?thesis
    using conserve_end[of g _ _ pack t h] assms by simp
next
  case (OStart t name kind now)
  then show ?thesis
    using conserve_start[OF assms(1) draws_ids_start(1)] assms(4) accounted_same by (simp add: start_span_def)
next
  case (OChild t name kind p now)
  then show ?thesis
    using conserve_start[OF assms(1) draws_ids_start(2)] assms(4) accounted_same by (simp add: start_child_span_def)
next
  case (ORemote t name kind tid pid b now)
  then show ?thesis
    using conserve_start[OF assms(1) draws_ids_start(3)] assms(4) accounted_same by (simp add: start_remote_span_def)
next
  case ODrain
  then show ?thesis
    using conserve_drain[of g pack h] assms accounted_same by simp
next
  case (ORegister t seed now)
  then show ?thesis
    using conserve_register[OF assms(1), of t seed now] assms(4) accounted_same by auto
next
  case (OUnregister t)
  then show ?thesis
    using conserve_unregister[of g pack t h] assms accounted_same by simp
qed (use assms(3) in simp_all)

lemma conserve_run:
  "steady g \<Longrightarrow> client_keeps pack g ops \<Longrightarrow> list_all steady_op ops \<Longrightarrow>
   \<exists>h. tracer_run pack g ops = Some h \<and> steady h \<and> accounted g h (sum_list (map ends_span ops))"
proof (induction ops arbitrary: g)
  case (Cons op ops)
  have "tracer_ok g"
    using Cons.prems(1) by (simp add: steady_def)
  from tracer_step_ok[OF this] Cons.prems(2) obtain h where h: "tracer_step pack g op = Some h" by fastforce
  from conserve_step[OF Cons.prems(1) _ _ h] Cons.prems(2,3) have c: "steady h" "accounted g h (ends_span op)" by auto
  from Cons.IH[OF c(1)] Cons.prems(2,3) h obtain h' where "tracer_run pack h ops = Some h'" "steady h'"
    "accounted h h' (sum_list (map ends_span ops))" by auto
  then show ?case
    using h accounted_trans[OF c(2)] by auto
qed (simp add: accounted_same)

end
