(* ===== verification/Otel_Sink.thy ===== *)
theory Otel_Sink
  imports Otel_Tracer_Props
begin

text \<open>
  The contract of \<^verbatim>\<open>struct otel_span_sink\<close>: the three callbacks bracket one drain pass, begin
  before any span and end after the last.  \<open>sink_run\<close> performs the calls the tracer logs.
  The locale \<open>transactional_sink\<close> is what a store behind the interface promises: between
  begin and end nothing becomes durable, and end makes all spans of the pass durable at once.
\<close>

fun sink_call :: "('s \<Rightarrow> 's) \<Rightarrow> (otel_span \<Rightarrow> 's \<Rightarrow> 's option) \<Rightarrow> ('s \<Rightarrow> 's option) \<Rightarrow> sink_event \<Rightarrow> 's \<Rightarrow> 's option" where
  "sink_call on_begin on_span on_end SBegin s = Some (on_begin s)"
| "sink_call on_begin on_span on_end (SSpan x) s = on_span x s"
| "sink_call on_begin on_span on_end SEnd s = on_end s"

fun sink_run :: "('s \<Rightarrow> 's) \<Rightarrow> (otel_span \<Rightarrow> 's \<Rightarrow> 's option) \<Rightarrow> ('s \<Rightarrow> 's option) \<Rightarrow> sink_event list \<Rightarrow> 's \<Rightarrow> 's option" where
  "sink_run on_begin on_span on_end [] s = Some s"
| "sink_run on_begin on_span on_end (ev # evs) s =
     do { s \<leftarrow> sink_call on_begin on_span on_end ev s; sink_run on_begin on_span on_end evs s }"

lemma sink_run_append:
  "sink_run b p e (xs @ ys) s = do { s \<leftarrow> sink_run b p e xs s; sink_run b p e ys s }"
  by (induction xs arbitrary: s) (auto split: bind_splits)

definition pass :: "otel_span list \<Rightarrow> sink_event list" where
  "pass ss = SBegin # map SSpan ss @ [SEnd]"

lemma sink_brackets_pass:
  "g_sink g = Some sk \<Longrightarrow> g_sink_present g \<Longrightarrow> sk_begin sk \<Longrightarrow> sk_end sk \<Longrightarrow>
   sink_brackets g (map SSpan ss) = pass ss"
  by (simp add: sink_brackets_def pass_def)

locale transactional_sink =
  fixes on_begin :: "'s \<Rightarrow> 's"
    and on_span :: "otel_span \<Rightarrow> 's \<Rightarrow> 's option"
    and on_end :: "'s \<Rightarrow> 's option"
    and idle :: "'s \<Rightarrow> bool"
    and opened :: "'s \<Rightarrow> bool"
    and durable :: "'s \<Rightarrow> 't"
    and pending :: "'s \<Rightarrow> 't"
    and add :: "otel_span \<Rightarrow> 't \<Rightarrow> 't"
    and settle :: "'s \<Rightarrow> 't \<Rightarrow> 't"
    and ok :: "'t \<Rightarrow> bool"
  assumes begin_opens: "idle s \<Longrightarrow> opened (on_begin s)"
    and begin_pending: "idle s \<Longrightarrow> pending (on_begin s) = durable s"
    and begin_durable: "idle s \<Longrightarrow> durable (on_begin s) = durable s"
    and begin_settle: "idle s \<Longrightarrow> settle (on_begin s) = settle s"
    and span_adds: "opened s \<Longrightarrow> exportable_span x \<Longrightarrow> ok (add x (pending s)) \<Longrightarrow>
      \<exists>s'. on_span x s = Some s' \<and> opened s' \<and> pending s' = add x (pending s) \<and> durable s' = durable s \<and> settle s' = settle s"
    and end_commits: "opened s \<Longrightarrow> ok (pending s) \<Longrightarrow> \<exists>s'. on_end s = Some s' \<and> idle s' \<and> durable s' = settle s (pending s)"
    and ok_add: "ok (add x t) \<Longrightarrow> ok t"
begin

lemma ok_fold: "ok (fold add xs t) \<Longrightarrow> ok t"
  by (induction xs arbitrary: t) (auto dest: ok_add)

lemma spans_pending:
  "opened s \<Longrightarrow> \<forall>x \<in> set xs. exportable_span x \<Longrightarrow> ok (fold add xs (pending s)) \<Longrightarrow>
   \<exists>s'. sink_run on_begin on_span on_end (map SSpan xs) s = Some s' \<and> opened s' \<and>
     pending s' = fold add xs (pending s) \<and> durable s' = durable s \<and> settle s' = settle s"
proof (induction xs arbitrary: s)
  case (Cons x xs)
  have "ok (fold add xs (add x (pending s)))"
    using Cons.prems(3) by simp
  from span_adds[OF Cons.prems(1) _ ok_fold[OF this]] Cons.prems(2) obtain s1 where 1: "on_span x s = Some s1" "opened s1"
    "pending s1 = add x (pending s)" "durable s1 = durable s" "settle s1 = settle s" by auto
  with Cons.IH[of s1] Cons.prems show ?case by auto
qed simp

text \<open>Until the end callback a pass leaves the durable state alone.\<close>

lemma pass_not_durable_before_end:
  assumes "idle s" and "\<forall>x \<in> set xs. exportable_span x" and "ok (fold add xs (durable s))"
  shows "\<exists>s'. sink_run on_begin on_span on_end (SBegin # map SSpan xs) s = Some s' \<and> opened s' \<and>
    pending s' = fold add xs (durable s) \<and> durable s' = durable s \<and> settle s' = settle s"
  using spans_pending[OF begin_opens[OF assms(1)] assms(2)] assms(3)
    begin_pending[OF assms(1)] begin_durable[OF assms(1)] begin_settle[OF assms(1)] by simp

lemma pass_atomic:
  assumes "idle s" and "\<forall>x \<in> set xs. exportable_span x" and "ok (fold add xs (durable s))"
  shows "\<exists>s'. sink_run on_begin on_span on_end (pass xs) s = Some s' \<and> idle s' \<and>
    durable s' = settle s (fold add xs (durable s))"
proof -
  from pass_not_durable_before_end[OF assms] obtain s1 where 1:
    "sink_run on_begin on_span on_end (SBegin # map SSpan xs) s = Some s1" "opened s1"
    "pending s1 = fold add xs (durable s)" "settle s1 = settle s" by blast
  with end_commits[OF 1(2)] assms(3) obtain s2 where "on_end s1 = Some s2" "idle s2"
    "durable s2 = settle s (fold add xs (durable s))" by auto
  moreover have "pass xs = (SBegin # map SSpan xs) @ [SEnd]"
    by (simp add: pass_def)
  ultimately show ?thesis
    using 1(1) by (simp only: sink_run_append) simp
qed

end

end
