(* ===== verification/Otel_Flusher.thy ===== *)
theory Otel_Flusher
  imports Main
begin

text \<open>
  The flusher thread of \<^verbatim>\<open>otel_sqlite.c\<close> and the part of \<^verbatim>\<open>otel_sqlite_close\<close> that stops it, as
  a transition system over the mutex \<^verbatim>\<open>S.lock\<close>, the flag \<^verbatim>\<open>S.running\<close> and the condition variable.
  A step is one call of the thread library or one access to the flag.  A waiting thread may
  wake at any time (the signal, the time limit, or spuriously); waking and taking the lock
  again are separate steps.  \<open>fl_drains\<close> counts the drains of the flusher.
\<close>

subsection \<open>States and steps\<close>

datatype flusher_pc =
  FEnter     \<comment> \<open>about to take the lock, at the start or after a drain\<close>
| FTest      \<comment> \<open>lock held, at the loop test\<close>
| FWait      \<comment> \<open>in the timed wait, lock released\<close>
| FWoken     \<comment> \<open>woken, about to take the lock again\<close>
| FHeld      \<comment> \<open>back from the wait, lock held\<close>
| FDrain     \<comment> \<open>lock released, in the drain\<close>
| FDone

datatype closer_pc =
  KOpen      \<comment> \<open>close not called yet\<close>
| KEnter     \<comment> \<open>about to take the lock\<close>
| KHeld      \<comment> \<open>lock held\<close>
| KStopped   \<comment> \<open>flag cleared, lock held\<close>
| KSignalled \<comment> \<open>condition signalled, lock held\<close>
| KJoin      \<comment> \<open>lock released, joining\<close>
| KJoined

datatype lock_owner = Flusher | Closer

record flusher =
  fl_pc :: flusher_pc
  fl_closer :: closer_pc
  fl_running :: bool
  fl_lock :: "lock_owner option"
  fl_drains :: nat

text \<open>The state in which \<^verbatim>\<open>otel_sqlite_open\<close> starts the thread.\<close>

definition flusher_init :: flusher where
  "flusher_init = \<lparr>fl_pc = FEnter, fl_closer = KOpen, fl_running = True, fl_lock = None, fl_drains = 0\<rparr>"

inductive flusher_step :: "flusher \<Rightarrow> flusher \<Rightarrow> bool" where
  enter: "fl_pc s = FEnter \<Longrightarrow> fl_lock s = None \<Longrightarrow>
    flusher_step s (s\<lparr>fl_pc := FTest, fl_lock := Some Flusher\<rparr>)"
| wait: "fl_pc s = FTest \<Longrightarrow> fl_running s \<Longrightarrow>
    flusher_step s (s\<lparr>fl_pc := FWait, fl_lock := None\<rparr>)"
| stop: "fl_pc s = FTest \<Longrightarrow> \<not> fl_running s \<Longrightarrow>
    flusher_step s (s\<lparr>fl_pc := FDone, fl_lock := None\<rparr>)"
| wake: "fl_pc s = FWait \<Longrightarrow>
    flusher_step s (s\<lparr>fl_pc := FWoken\<rparr>)"
| reacquire: "fl_pc s = FWoken \<Longrightarrow> fl_lock s = None \<Longrightarrow>
    flusher_step s (s\<lparr>fl_pc := FHeld, fl_lock := Some Flusher\<rparr>)"
| release: "fl_pc s = FHeld \<Longrightarrow>
    flusher_step s (s\<lparr>fl_pc := FDrain, fl_lock := None\<rparr>)"
| drain: "fl_pc s = FDrain \<Longrightarrow>
    flusher_step s (s\<lparr>fl_pc := FEnter, fl_drains := fl_drains s + 1\<rparr>)"
| close_call: "fl_closer s = KOpen \<Longrightarrow>
    flusher_step s (s\<lparr>fl_closer := KEnter\<rparr>)"
| close_lock: "fl_closer s = KEnter \<Longrightarrow> fl_lock s = None \<Longrightarrow>
    flusher_step s (s\<lparr>fl_closer := KHeld, fl_lock := Some Closer\<rparr>)"
| close_stop: "fl_closer s = KHeld \<Longrightarrow>
    flusher_step s (s\<lparr>fl_closer := KStopped, fl_running := False\<rparr>)"
| close_signal: "fl_closer s = KStopped \<Longrightarrow>
    flusher_step s (s\<lparr>fl_closer := KSignalled, fl_pc := (if fl_pc s = FWait then FWoken else fl_pc s)\<rparr>)"
| close_unlock: "fl_closer s = KSignalled \<Longrightarrow>
    flusher_step s (s\<lparr>fl_closer := KJoin, fl_lock := None\<rparr>)"
| close_join: "fl_closer s = KJoin \<Longrightarrow> fl_pc s = FDone \<Longrightarrow>
    flusher_step s (s\<lparr>fl_closer := KJoined\<rparr>)"

inductive_cases flusher_stepE: "flusher_step s s'"

lemmas flusher_step_cases = flusher_stepE [consumes 1, case_names enter wait stop wake reacquire release drain
  close_call close_lock close_stop close_signal close_unlock close_join]

definition flusher_reachable :: "flusher \<Rightarrow> bool" where
  "flusher_reachable s \<longleftrightarrow> flusher_step\<^sup>*\<^sup>* flusher_init s"

subsection \<open>The invariant\<close>

text \<open>The lock is held exactly in the regions the code brackets, the flag is cleared by the closer
  only, and once the closer has signalled the flusher is not waiting.\<close>

definition flusher_inv :: "flusher \<Rightarrow> bool" where
  "flusher_inv s \<longleftrightarrow>
     (fl_lock s = Some Flusher) = (fl_pc s \<in> {FTest, FHeld}) \<and>
     (fl_lock s = Some Closer) = (fl_closer s \<in> {KHeld, KStopped, KSignalled}) \<and>
     fl_running s = (fl_closer s \<in> {KOpen, KEnter, KHeld}) \<and>
     (fl_closer s \<in> {KSignalled, KJoin, KJoined} \<longrightarrow> fl_pc s \<noteq> FWait) \<and>
     (fl_closer s = KJoined \<longrightarrow> fl_pc s = FDone)"

lemma flusher_inv_init: "flusher_inv flusher_init"
  by (simp add: flusher_inv_def flusher_init_def)

lemma flusher_inv_step: "flusher_step s s' \<Longrightarrow> flusher_inv s \<Longrightarrow> flusher_inv s'"
  by (cases rule: flusher_step_cases, assumption) (auto simp: flusher_inv_def)

lemma flusher_inv_reachable: "flusher_reachable s \<Longrightarrow> flusher_inv s"
  unfolding flusher_reachable_def by (induction rule: rtranclp_induct) (auto intro: flusher_inv_init flusher_inv_step)

subsection \<open>Stopping\<close>

text \<open>How far the flusher and the closer are from their ends once the closer has signalled, and how
  many drains are still to come.\<close>

fun flusher_rank :: "flusher_pc \<Rightarrow> nat" where
  "flusher_rank FDone = 0" | "flusher_rank FTest = 1" | "flusher_rank FEnter = 2" | "flusher_rank FDrain = 3"
| "flusher_rank FHeld = 4" | "flusher_rank FWoken = 5" | "flusher_rank FWait = 6"

fun closer_rank :: "closer_pc \<Rightarrow> nat" where
  "closer_rank KSignalled = 2" | "closer_rank KJoin = 1" | "closer_rank KJoined = 0" | "closer_rank _ = 3"

fun drains_left :: "flusher_pc \<Rightarrow> nat" where
  "drains_left FDrain = 1" | "drains_left FHeld = 1" | "drains_left FWoken = 1" | "drains_left _ = 0"

definition signalled :: "flusher \<Rightarrow> bool" where
  "signalled s \<longleftrightarrow> flusher_inv s \<and> fl_closer s \<in> {KSignalled, KJoin, KJoined}"

lemma signalled_step:
  assumes "flusher_step s s'" and "signalled s"
  shows "signalled s' \<and> flusher_rank (fl_pc s') + closer_rank (fl_closer s') < flusher_rank (fl_pc s) + closer_rank (fl_closer s)
    \<and> fl_drains s' + drains_left (fl_pc s') = fl_drains s + drains_left (fl_pc s)"
proof -
  have "signalled s'"
    using assms flusher_inv_step[OF assms(1)] unfolding signalled_def
    by (cases rule: flusher_step_cases) auto
  from assms(1) this assms(2) show ?thesis
    unfolding signalled_def by (cases rule: flusher_step_cases) (auto simp: flusher_inv_def)
qed

lemma signalled_progress:
  assumes "signalled s" and "fl_closer s \<noteq> KJoined"
  shows "\<exists>s'. flusher_step s s'"
proof -
  have c: "fl_closer s = KSignalled \<or> fl_closer s = KJoin" and inv: "flusher_inv s"
    using assms by (auto simp: signalled_def)
  show ?thesis
  proof (cases "fl_closer s = KSignalled")
    case False
    with c have j: "fl_closer s = KJoin" by simp
    then have "fl_lock s \<noteq> Some Closer" "\<not> fl_running s" "fl_pc s \<noteq> FWait"
      using inv by (auto simp: flusher_inv_def)
    then show ?thesis
      using inv j by (cases "fl_pc s"; cases "fl_lock s")
        (auto simp: flusher_inv_def intro: flusher_step.intros | metis lock_owner.exhaust)+
  qed (use close_unlock in blast)
qed

lemma signalled_steps:
  "(flusher_step ^^ n) s s' \<Longrightarrow> signalled s \<Longrightarrow> signalled s' \<and>
    n + (flusher_rank (fl_pc s') + closer_rank (fl_closer s')) \<le> flusher_rank (fl_pc s) + closer_rank (fl_closer s) \<and>
    fl_drains s' + drains_left (fl_pc s') = fl_drains s + drains_left (fl_pc s)"
proof (induction n arbitrary: s')
  case (Suc n)
  then obtain s1 where 1: "(flusher_step ^^ n) s s1" "flusher_step s1 s'" by auto
  from signalled_step[OF 1(2)] Suc.IH[OF 1(1) Suc.prems(2)] show ?case by fastforce
qed simp

text \<open>C22: closing never hangs on the flusher and never waits for its time limit: once
  \<^verbatim>\<open>otel_sqlite_close\<close> has signalled, every execution has at most seven more steps, in which
  the flusher drains at most once more and never waits again, and it only ends when the join
  has returned.\<close>

theorem close_stops_flusher:
  assumes "flusher_reachable s" and "fl_closer s = KSignalled" and "(flusher_step ^^ n) s s'"
  shows "n \<le> 7 \<and> fl_drains s' \<le> fl_drains s + 1 \<and> fl_pc s' \<noteq> FWait \<and>
    ((\<exists>s''. flusher_step s' s'') \<or> fl_closer s' = KJoined \<and> fl_pc s' = FDone)"
proof -
  have s: "signalled s"
    using assms flusher_inv_reachable by (simp add: signalled_def)
  from signalled_steps[OF assms(3) s] have s': "signalled s'"
    and n: "n + (flusher_rank (fl_pc s') + closer_rank (fl_closer s')) \<le> flusher_rank (fl_pc s) + 2"
    and d: "fl_drains s' + drains_left (fl_pc s') = fl_drains s + drains_left (fl_pc s)"
    using assms(2) by simp_all
  have w: "fl_pc s \<noteq> FWait" "fl_pc s' \<noteq> FWait" "fl_closer s' = KJoined \<longrightarrow> fl_pc s' = FDone"
    using s s' by (auto simp: signalled_def flusher_inv_def)
  have "flusher_rank (fl_pc s) \<le> 5" "drains_left (fl_pc s) \<le> 1"
    using w(1) by (cases "fl_pc s"; simp)+
  then show ?thesis
    using n d w signalled_progress[OF s'] by fastforce
qed

lemma close_stops_flusher_witness:
  "\<exists>s s'. flusher_reachable s \<and> fl_closer s = KSignalled \<and> flusher_step s s' \<and> fl_pc s' \<noteq> FWait \<and> fl_drains s' \<le> fl_drains s + 1"
proof -
  define s1 where "s1 = flusher_init\<lparr>fl_pc := FTest, fl_lock := Some Flusher\<rparr>"
  define s2 where "s2 = s1\<lparr>fl_pc := FWait, fl_lock := None\<rparr>"
  define s3 where "s3 = s2\<lparr>fl_closer := KEnter\<rparr>"
  define s4 where "s4 = s3\<lparr>fl_closer := KHeld, fl_lock := Some Closer\<rparr>"
  define s5 where "s5 = s4\<lparr>fl_closer := KStopped, fl_running := False\<rparr>"
  define s6 where "s6 = s5\<lparr>fl_closer := KSignalled, fl_pc := FWoken\<rparr>"
  define s7 where "s7 = s6\<lparr>fl_closer := KJoin, fl_lock := None\<rparr>"
  note defs = s1_def s2_def s3_def s4_def s5_def s6_def s7_def flusher_init_def
  have "flusher_step flusher_init s1" unfolding s1_def by (rule enter) (simp_all add: flusher_init_def)
  moreover have "flusher_step s1 s2" unfolding s2_def by (rule wait) (simp_all add: s1_def flusher_init_def)
  moreover have "flusher_step s2 s3" unfolding s3_def by (rule close_call) (simp add: defs)
  moreover have "flusher_step s3 s4" unfolding s4_def by (rule close_lock) (simp_all add: defs)
  moreover have "flusher_step s4 s5" unfolding s5_def by (rule close_stop) (simp add: defs)
  moreover have "flusher_step s5 s6" using close_signal[of s5] by (simp add: defs)
  ultimately have r: "flusher_reachable s6"
    unfolding flusher_reachable_def by (meson converse_rtranclp_into_rtranclp rtranclp.rtrancl_refl)
  have k: "fl_closer s6 = KSignalled" and st: "flusher_step s6 s7"
    unfolding s7_def by (simp add: s6_def, rule close_unlock, simp add: s6_def)
  then have "(flusher_step ^^ 1) s6 s7"
    by (simp only: relpowp_1)
  from close_stops_flusher[OF r k this] r k st show ?thesis by blast
qed

end
