(* ===== verification/Otel_Text.thy ===== *)
theory Otel_Text
  imports Otel_Prelude "HOL-Library.Char_ord"
begin

text \<open>
  String literals of the C sources as lists of bytes, without their terminating zero.
\<close>

definition ascii :: "string \<Rightarrow> byte list" where
  "ascii s = map of_char s"

lemma ascii_simps [simp]: "ascii [] = []" "ascii (c # s) = of_char c # ascii s" "length (ascii s) = length s"
  by (simp_all add: ascii_def)

lemma ascii_append [simp]: "ascii (s @ t) = ascii s @ ascii t"
  by (simp add: ascii_def)

lemma of_char_byte_inject: "(of_char c :: byte) = of_char d \<longleftrightarrow> c = d"
proof -
  have "of_char x = unat (of_char x :: byte)" for x
  proof -
    have "unat (of_nat (of_char x) :: byte) = of_char x"
      by (rule unat_of_nat_small) (simp add: nat_of_char_less_256)
    then show ?thesis
      by (simp only: of_nat_of_char)
  qed
  then show ?thesis
    using of_char_eq_iff by metis
qed

lemma ascii_inject [simp]: "ascii s = ascii t \<longleftrightarrow> s = t"
  unfolding ascii_def by (rule inj_map_eq_map, rule injI) (simp add: of_char_byte_inject)

end
