(* ===== verification/Otel_Sqlite_Life.thy ===== *)
theory Otel_Sqlite_Life
  imports Otel_Sqlite Otel_Sink Otel_Flusher Otel_Text
begin

text \<open>
  Opening and closing the SQLite sink (\<^verbatim>\<open>otel_sqlite_open\<close>, \<^verbatim>\<open>otel_sqlite_close\<close>) and the
  composition of the sink with the tracer.  A system is the tracer's state and the sink's; an
  operation of the tracer that calls back into the sink does so through \<open>sink_sees\<close>, which
  performs the calls the operation logged.  The flusher's drains are drains of the system;
  how it is stopped is in \<open>Otel_Flusher\<close>.
\<close>

subsection \<open>The tracer with the sink attached\<close>

text \<open>\<^verbatim>\<open>S.sink\<close>: the address is that of the static \<^verbatim>\<open>S\<close>.\<close>

definition S_sink :: span_sink where
  "S_sink = \<lparr>sk_addr = 1, sk_begin = True, sk_span = True, sk_end = True\<rparr>"

text \<open>The zeroed \<^verbatim>\<open>S\<close>.\<close>

definition S_zero :: "'db sqlite_state" where
  "S_zero = \<lparr>sl_db = None, sl_stmts = 0, sl_cur_span = 0, sl_in_txn = False, sl_commits = 0, sl_max_spans = 0,
     sl_have_thread = False, sl_running = False, sl_interval_ms = 0\<rparr>"

type_synonym 'db system = "otel_global \<times> 'db sqlite_state"

text \<open>The calls in \<open>evs\<close> reach \<^verbatim>\<open>otel_sqlite.c\<close> when \<^verbatim>\<open>S.sink\<close> is the sink of \<open>g\<close>; another sink is the
  environment's.\<close>

definition sink_sees :: "'db sqlite_lib \<Rightarrow> otel_global \<Rightarrow> sink_event list \<Rightarrow> 'db sqlite_state \<Rightarrow> 'db sqlite_state option" where
  "sink_sees lib g evs S =
     (if g_sink g = Some S_sink
      then sink_run (otel_sqlite_begin lib) (otel_sqlite_span lib (otel_service_name g)) (otel_sqlite_end lib) evs S
      else Some S)"

definition system_step :: "'db sqlite_lib \<Rightarrow> (span_msg list \<Rightarrow> byte list) \<Rightarrow> tracer_op \<Rightarrow> 'db system \<Rightarrow> 'db system option" where
  "system_step lib pack op sys =
     (let (g, S) = sys
      in do { h \<leftarrow> tracer_step pack g op;
              S \<leftarrow> sink_sees lib g (drop (length (g_sink_log g)) (g_sink_log h)) S;
              Some (h, S) })"

fun system_run :: "'db sqlite_lib \<Rightarrow> (span_msg list \<Rightarrow> byte list) \<Rightarrow> tracer_op list \<Rightarrow> 'db system \<Rightarrow> 'db system option" where
  "system_run lib pack [] sys = Some sys"
| "system_run lib pack (op # ops) sys = do { sys \<leftarrow> system_step lib pack op sys; system_run lib pack ops sys }"

subsection \<open>Closing\<close>

text \<open>\<open>m\<close> is how often the flusher still drains before it has been joined.  The second component is
  the database as it was when the handle was closed, if there was one.\<close>

definition otel_sqlite_close :: "'db sqlite_lib \<Rightarrow> (span_msg list \<Rightarrow> byte list) \<Rightarrow> nat \<Rightarrow> 'db system \<Rightarrow>
    ('db system \<times> 'db option) option" where
  "otel_sqlite_close lib pack m sys =
     (let (g, S) = sys
      in do { sys \<leftarrow> (if sl_have_thread S
                     then do { (g, S) \<leftarrow> system_run lib pack (replicate m ODrain) (g, S\<lparr>sl_running := False\<rparr>);
                               Some (g, S\<lparr>sl_have_thread := False\<rparr>) }
                     else Some (g, S));
              (g, S) \<leftarrow> system_step lib pack ODrain sys;
              let g = otel_set_span_sink None g;
              let (S, _) = sl_step lib QCheckpoint S;
              Some ((g, S_zero), sl_db S) })"

subsection \<open>Opening\<close>

text \<open>What the environment decides: the handle \<^verbatim>\<open>sqlite3_open\<close> stores and whether it succeeds, how
  many of the four statements prepare before one fails, whether the thread is created.\<close>

record 'db open_env =
  oe_handle :: "'db option"
  oe_open_ok :: bool
  oe_prepared :: nat
  oe_thread_ok :: bool

definition open_pragmas :: "byte list list" where
  "open_pragmas = map ascii [''PRAGMA page_size=8192'', ''PRAGMA journal_mode=WAL'', ''PRAGMA synchronous=NORMAL'',
     ''PRAGMA temp_store=MEMORY'', ''PRAGMA cache_size=-16384'', ''PRAGMA busy_timeout=5000'', ''PRAGMA wal_autocheckpoint=0'']"

definition OTEL_SQLITE_DEFAULT_INTERVAL_MS :: u32 where
  "OTEL_SQLITE_DEFAULT_INTERVAL_MS = 250"

definition pragma :: "'db sqlite_lib \<Rightarrow> byte list \<Rightarrow> 'db sqlite_state \<Rightarrow> 'db sqlite_state" where
  "pragma lib p S = fst (otel_sqlite_exec lib [QPragma p] S)"

text \<open>A failing call closes and returns -1; there is no flusher then.\<close>

definition open_failed :: "'db sqlite_lib \<Rightarrow> (span_msg list \<Rightarrow> byte list) \<Rightarrow> 'db system \<Rightarrow> ('db system \<times> int) option" where
  "open_failed lib pack sys = do { (sys, _) \<leftarrow> otel_sqlite_close lib pack 0 sys; Some (sys, -1) }"

definition otel_sqlite_open :: "'db sqlite_lib \<Rightarrow> (span_msg list \<Rightarrow> byte list) \<Rightarrow> 'db open_env \<Rightarrow> u32 \<Rightarrow> 'db system \<Rightarrow>
    ('db system \<times> int) option" where
  "otel_sqlite_open lib pack env flush_interval_ms sys =
     (let (g, S) = sys
      in if sl_db S \<noteq> None then Some ((g, S), -1)
         else let S = S\<lparr>sl_db := oe_handle env\<rparr>
         in if \<not> oe_open_ok env then open_failed lib pack (g, S)
         else let S = fold (pragma lib) open_pragmas S;
                  (S, ok) = otel_sqlite_exec lib [QSchema] S
         in if \<not> ok then open_failed lib pack (g, S)
         else let S = pragma lib (ascii ''PRAGMA user_version=2'') S;
                  S = S\<lparr>sl_stmts := min 4 (oe_prepared env)\<rparr>
         in if sl_stmts S < 4 then open_failed lib pack (g, S)
         else let g = otel_set_span_sink (Some S_sink) g;
                  S = S\<lparr>sl_interval_ms := (if flush_interval_ms \<noteq> 0 then flush_interval_ms else OTEL_SQLITE_DEFAULT_INTERVAL_MS),
                        sl_running := True\<rparr>
         in if \<not> oe_thread_ok env then open_failed lib pack (g, S\<lparr>sl_running := False\<rparr>)
         else Some ((g, S\<lparr>sl_have_thread := True\<rparr>), 0))"

end
