(* ===== verification/Otel_Sqlite_Props.thy ===== *)
theory Otel_Sqlite_Props
  imports Otel_Sqlite Otel_Sink
begin

text \<open>
  What the SQLite sink stores.  \<open>add_span\<close> is the specification: the rows a recorded span
  becomes, computed from what a consumer reads from it.  Inside the locale of the library
  contract the callbacks are shown to implement it; reading the rows back with the queries
  of the command line tool gives the recorded span again.
\<close>

subsection \<open>Hexadecimal\<close>

definition unhex_digit :: "byte \<Rightarrow> byte option" where
  "unhex_digit c = (if 48 \<le> c \<and> c \<le> 57 then Some (c - 48) else if 97 \<le> c \<and> c \<le> 102 then Some (c - 87) else None)"

fun unhex :: "byte list \<Rightarrow> byte list option" where
  "unhex [] = Some []"
| "unhex [c] = None"
| "unhex (h # l # cs) =
     (case (unhex_digit h, unhex_digit l, unhex cs) of
        (Some x, Some y, Some bs) \<Rightarrow> Some ((x * 16 + y) # bs) | _ \<Rightarrow> None)"

lemma length_hex [simp]: "length (otel_sqlite_hex bs) = 2 * length bs"
  by (induction bs) simp_all

lemma nibble_cases:
  assumes "n < 16"
  shows "n \<in> {0, 1, 2, 3, 4, 5, 6, 7, 8, 9, 10, 11, 12, 13, 14, 15 :: nat}"
  using assms unfolding insert_iff empty_iff by presburger

lemma hexd_digit:
  assumes "n < 16"
  shows "unhex_digit (hexd ! n) = Some (of_nat n)" and "hexd ! n \<noteq> 0"
  using nibble_cases[OF assms] by (auto simp: hexd_def unhex_digit_def)

lemma nibbles:
  fixes b :: byte
  shows "unat (drop_bit 4 b) < 16" "unat (b AND 15) < 16"
    "drop_bit 4 b * 16 + (b AND 15) = b"
proof -
  have "unat b < 256"
    using unsigned_less[of b, where ?'a = nat] by simp
  then show "unat (drop_bit 4 b) < 16"
    by (simp add: unat_drop_bit_eq) (simp add: drop_bit_eq_div)
  have a: "b AND 15 = take_bit 4 b"
    by (simp add: take_bit_eq_mask mask_numeral)
  then show "unat (b AND 15) < 16"
    using take_bit_nat_less_exp[of 4 "unat b"] by (simp add: unsigned_take_bit_eq)
  have "drop_bit 4 b * 16 + take_bit 4 b = b"
    using bits_ident[of 4 b] by (simp add: push_bit_eq_mult)
  then show "drop_bit 4 b * 16 + (b AND 15) = b"
    by (simp add: a)
qed

lemma unhex_hex: "unhex (otel_sqlite_hex bs) = Some bs"
  by (induction bs) (simp_all add: hexd_digit nibbles)

lemma hex_inj: "otel_sqlite_hex bs = otel_sqlite_hex cs \<longleftrightarrow> bs = cs"
  using unhex_hex by (metis option.inject)

lemma hex_digits: "c \<in> set (otel_sqlite_hex bs) \<Longrightarrow> c \<in> set hexd"
proof (induction bs)
  case (Cons b bs)
  have "hexd ! unat (drop_bit 4 b) \<in> set hexd" "hexd ! unat (b AND 15) \<in> set hexd"
    using nibbles(1,2)[of b] by (intro nth_mem; simp add: hexd_def)+
  then show ?case using Cons by auto
qed simp

text \<open>the hexadecimal form of an id has two lowercase digits per byte and decodes to the id
  again, so different ids never get the same text.\<close>

theorem hex_roundtrip:
  "unhex (otel_sqlite_hex bs) = Some bs \<and> length (otel_sqlite_hex bs) = 2 * length bs \<and>
   set (otel_sqlite_hex bs) \<subseteq> set hexd \<and> 0 \<notin> set (otel_sqlite_hex bs)"
proof -
  have "0 \<notin> set hexd"
    by (simp add: hexd_def)
  then show ?thesis
    using unhex_hex hex_digits[of _ bs] by auto
qed

subsection \<open>The rows of a span\<close>

fun kv_row :: "int \<Rightarrow> byte list \<times> otel_value \<Rightarrow> attr_row" where
  "kv_row owner (k, VStr x) = \<lparr>ar_owner = owner, ar_key = k, ar_type = 0, ar_s_val = Some x, ar_i_val = None, ar_d_val = None\<rparr>"
| "kv_row owner (k, VI64 w) = \<lparr>ar_owner = owner, ar_key = k, ar_type = 1, ar_s_val = None, ar_i_val = Some (sint w), ar_d_val = None\<rparr>"
| "kv_row owner (k, VU64 w) = \<lparr>ar_owner = owner, ar_key = k, ar_type = 2, ar_s_val = None, ar_i_val = Some (sint w), ar_d_val = None\<rparr>"
| "kv_row owner (k, VF64 w) = \<lparr>ar_owner = owner, ar_key = k, ar_type = 3, ar_s_val = None, ar_i_val = None, ar_d_val = Some w\<rparr>"
| "kv_row owner (k, VBool b) = \<lparr>ar_owner = owner, ar_key = k, ar_type = 4, ar_s_val = None,
     ar_i_val = Some (if b \<noteq> 0 then 1 else 0), ar_d_val = None\<rparr>"
| "kv_row owner (k, VOther t) = \<lparr>ar_owner = owner, ar_key = k, ar_type = uint t, ar_s_val = None, ar_i_val = None, ar_d_val = None\<rparr>"

lemma attr_row_view: "attr_row_of s owner a = kv_row owner (attr_view s a)"
  by (simp add: attr_row_of_def attr_view_def attr_value_def Let_def)

lemma owner_kv_row [simp]: "ar_owner (kv_row owner x) = owner"
  by (cases "(owner, x)" rule: kv_row.cases) simp_all

definition event_row_of :: "int \<Rightarrow> event_view \<Rightarrow> event_row" where
  "event_row_of sid w = \<lparr>er_span = sid, er_name = evw_name w, er_time_unix_ns = sint (evw_time w)\<rparr>"

definition add_event :: "int \<Rightarrow> event_view \<Rightarrow> tables \<Rightarrow> tables" where
  "add_event sid w t =
     (let eid = next_id (event_ids t)
      in t\<lparr>t_events := t_events t @ [(eid, event_row_of sid w)],
           t_event_attrs := t_event_attrs t @ map (kv_row eid) (evw_attrs w)\<rparr>)"

definition add_span :: "byte list \<Rightarrow> otel_span \<Rightarrow> tables \<Rightarrow> tables" where
  "add_span service s t =
     (let v = the (span_view_of s); rid = next_id (span_ids t)
      in fold (add_event rid) (vw_events v)
           (t\<lparr>t_spans := t_spans t @ [(rid, span_row_of service s)],
              t_attrs := t_attrs t @ map (kv_row rid) (vw_attrs v)\<rparr>))"

definition rows_fit :: "tables \<Rightarrow> bool" where
  "rows_fit t \<longleftrightarrow> ids_fit (span_ids t) \<and> ids_fit (event_ids t)"

lemma add_event_simps [simp]:
  "t_spans (add_event r w t) = t_spans t" "t_attrs (add_event r w t) = t_attrs t"
  "span_ids (add_event r w t) = span_ids t"
  "event_ids (add_event r w t) = event_ids t @ [next_id (event_ids t)]"
  by (simp_all add: add_event_def span_ids_def event_ids_def Let_def)

lemma add_events_simps [simp]:
  "t_spans (fold (add_event r) ws t) = t_spans t" "t_attrs (fold (add_event r) ws t) = t_attrs t"
  "span_ids (fold (add_event r) ws t) = span_ids t"
  by (induction ws arbitrary: t) simp_all

lemma add_events_fit: "rows_fit (fold (add_event r) ws t) \<Longrightarrow> rows_fit t"
proof (induction ws arbitrary: t)
  case (Cons w ws)
  then have "rows_fit (add_event r w t)" by simp
  then show ?case by (simp add: rows_fit_def ids_fit_def)
qed simp

lemma add_span_simps [simp]:
  "span_ids (add_span service s t) = span_ids t @ [next_id (span_ids t)]"
  "t_spans (add_span service s t) = t_spans t @ [(next_id (span_ids t), span_row_of service s)]"
  "t_attrs (add_span service s t) = t_attrs t @ map (kv_row (next_id (span_ids t))) (vw_attrs (the (span_view_of s)))"
  by (simp_all add: add_span_def Let_def span_ids_def)

lemma add_span_fits: "rows_fit (add_span service s t) \<Longrightarrow> rows_fit t"
proof -
  assume f: "rows_fit (add_span service s t)"
  then have "rows_fit (t\<lparr>t_spans := t_spans t @ [(next_id (span_ids t), span_row_of service s)],
      t_attrs := t_attrs t @ map (kv_row (next_id (span_ids t))) (vw_attrs (the (span_view_of s)))\<rparr>)"
    unfolding add_span_def Let_def by (rule add_events_fit)
  then show ?thesis
    by (simp add: rows_fit_def ids_fit_def span_ids_def event_ids_def)
qed

lemma add_spans_fits: "rows_fit (fold (add_span service) ss t) \<Longrightarrow> rows_fit t"
  by (induction ss arbitrary: t) (auto dest: add_span_fits)


subsection \<open>What a reader selects\<close>

text \<open>Reading a stored value back, by its type column as the command line tool does; booleans
  come back as 0 or 1 and unsigned values as the 64 bits that were stored.\<close>

definition row_value :: "attr_row \<Rightarrow> otel_value" where
  "row_value r =
     (case (ar_type r, ar_s_val r, ar_i_val r, ar_d_val r) of
        (_, Some x, _, _) \<Rightarrow> VStr x
      | (_, _, _, Some w) \<Rightarrow> VF64 w
      | (ty, _, Some n, _) \<Rightarrow> if ty = 1 then VI64 (of_int n) else if ty = 2 then VU64 (of_int n) else VBool (of_int n)
      | (ty, _, _, _) \<Rightarrow> VOther (of_int ty))"

definition read_attrs :: "int \<Rightarrow> attr_row list \<Rightarrow> (byte list \<times> otel_value) list" where
  "read_attrs owner rows = map (\<lambda>r. (ar_key r, row_value r)) (filter (\<lambda>r. ar_owner r = owner) rows)"

definition read_events :: "tables \<Rightarrow> int \<Rightarrow> (byte list \<times> u64 \<times> (byte list \<times> otel_value) list) list" where
  "read_events t sid = map (\<lambda>(eid, e). (er_name e, of_int (er_time_unix_ns e), read_attrs eid (t_event_attrs t)))
     (filter (\<lambda>x. er_span (snd x) = sid) (t_events t))"

fun plain_value :: "otel_value \<Rightarrow> otel_value" where
  "plain_value (VBool b) = VBool (if b \<noteq> 0 then 1 else 0)"
| "plain_value v = v"

definition plain_kv :: "byte list \<times> otel_value \<Rightarrow> byte list \<times> otel_value" where
  "plain_kv x = (fst x, plain_value (snd x))"

lemma row_kv: "(ar_key (kv_row owner x), row_value (kv_row owner x)) = plain_kv x"
  by (cases "(owner, x)" rule: kv_row.cases) (simp_all add: row_value_def plain_kv_def)

lemma read_attrs_append [simp]: "read_attrs o' (xs @ ys) = read_attrs o' xs @ read_attrs o' ys"
  by (simp add: read_attrs_def)

lemma read_attrs_rows [simp]: "read_attrs owner (map (kv_row owner) kvs) = map plain_kv kvs"
  by (simp add: read_attrs_def comp_def row_kv)

lemma read_attrs_other: "o' \<noteq> owner \<Longrightarrow> read_attrs o' (map (kv_row owner) kvs) = []"
  by (simp add: read_attrs_def filter_map comp_def)

lemma read_attrs_none: "(\<And>r. r \<in> set rows \<Longrightarrow> ar_owner r \<noteq> owner) \<Longrightarrow> read_attrs owner rows = []"
  by (simp add: read_attrs_def filter_empty_conv)

text \<open>Every row that refers to another row has one to refer to.\<close>

definition refs_ok :: "tables \<Rightarrow> bool" where
  "refs_ok t \<longleftrightarrow> distinct (span_ids t) \<and> distinct (event_ids t) \<and>
     (\<forall>r \<in> set (t_attrs t). ar_owner r \<in> set (span_ids t)) \<and>
     (\<forall>e \<in> set (t_events t). er_span (snd e) \<in> set (span_ids t)) \<and>
     (\<forall>r \<in> set (t_event_attrs t). ar_owner r \<in> set (event_ids t))"

lemma add_event_refs:
  assumes "refs_ok t" and "sid \<in> set (span_ids t)"
  shows "refs_ok (add_event sid w t)"
proof -
  have d: "distinct (event_ids (add_event sid w t))"
    using assms(1) next_id_fresh(1) by (simp add: refs_ok_def)
  show ?thesis
    unfolding refs_ok_def using assms d
    by (auto simp: refs_ok_def) (auto simp: add_event_def event_row_of_def Let_def event_ids_def)
qed

lemma add_events_refs: "refs_ok t \<Longrightarrow> sid \<in> set (span_ids t) \<Longrightarrow> refs_ok (fold (add_event sid) ws t)"
  by (induction ws arbitrary: t) (simp_all add: add_event_refs)

lemma add_span_row_refs:
  assumes "refs_ok t"
  shows "refs_ok (t\<lparr>t_spans := t_spans t @ [(next_id (span_ids t), r)], t_attrs := t_attrs t @ map (kv_row (next_id (span_ids t))) kvs\<rparr>)"
proof -
  define n where "n = next_id (span_ids t)"
  have "n \<notin> set (span_ids t)"
    unfolding n_def by (rule next_id_fresh)
  then show ?thesis
    using assms unfolding refs_ok_def n_def[symmetric] by (auto simp: span_ids_def event_ids_def)
qed

lemma add_span_refs: "refs_ok t \<Longrightarrow> refs_ok (add_span service s t)"
  unfolding add_span_def Let_def
  by (intro add_events_refs add_span_row_refs) (simp_all add: span_ids_def)

lemma read_events_add:
  assumes "refs_ok t" and "sid \<in> set (span_ids t)"
  shows "read_events (add_event sid w t) sid =
    read_events t sid @ [(evw_name w, evw_time w, map plain_kv (evw_attrs w))]"
proof -
  define eid where "eid = next_id (event_ids t)"
  have fresh: "eid \<notin> set (event_ids t)"
    unfolding eid_def by (rule next_id_fresh)
  have "read_attrs eid (t_event_attrs t) = []"
    using assms(1) fresh by (intro read_attrs_none) (auto simp: refs_ok_def)
  moreover have "e \<noteq> eid" if "(e, r) \<in> set (t_events t)" for e r
    using that fresh by (force simp: event_ids_def)
  then have "map (\<lambda>(e, r). (er_name r, of_int (er_time_unix_ns r) :: u64, read_attrs e (t_event_attrs t @ map (kv_row eid) (evw_attrs w))))
      (filter (\<lambda>x. er_span (snd x) = sid) (t_events t)) = read_events t sid"
    unfolding read_events_def by (intro map_cong refl) (auto simp: read_attrs_other)
  ultimately show ?thesis
    unfolding read_events_def add_event_def Let_def eid_def[symmetric] by (simp add: event_row_of_def)
qed

lemma read_events_fold:
  "refs_ok t \<Longrightarrow> sid \<in> set (span_ids t) \<Longrightarrow> read_events (fold (add_event sid) ws t) sid =
    read_events t sid @ map (\<lambda>w. (evw_name w, evw_time w, map plain_kv (evw_attrs w))) ws"
proof (induction ws arbitrary: t)
  case (Cons w ws)
  then show ?case
    using Cons.IH[of "add_event sid w t"] add_event_refs[of t sid w] read_events_add[of t sid w] by simp
qed simp

lemma add_span_read:
  assumes "refs_ok t" and "span_view_of s = Some v"
  defines "sid \<equiv> next_id (span_ids t)"
  shows "read_attrs sid (t_attrs (add_span service s t)) = map plain_kv (vw_attrs v)"
    and "read_events (add_span service s t) sid =
      map (\<lambda>w. (evw_name w, evw_time w, map plain_kv (evw_attrs w))) (vw_events v)"
    and "map_of (t_spans (add_span service s t)) sid = Some (span_row_of service s)"
proof -
  have fresh: "sid \<notin> set (span_ids t)"
    unfolding sid_def by (rule next_id_fresh)
  have "read_attrs sid (t_attrs t) = []"
    using assms(1) fresh by (intro read_attrs_none) (auto simp: refs_ok_def)
  then show "read_attrs sid (t_attrs (add_span service s t)) = map plain_kv (vw_attrs v)"
    using assms(2) by (simp add: sid_def)
  define t1 where "t1 = t\<lparr>t_spans := t_spans t @ [(sid, span_row_of service s)], t_attrs := t_attrs t @ map (kv_row sid) (vw_attrs v)\<rparr>"
  have t1: "refs_ok t1" "sid \<in> set (span_ids t1)"
    using add_span_row_refs[OF assms(1)] by (simp_all add: t1_def sid_def span_ids_def)
  have "read_events t1 sid = []"
    using assms(1) fresh by (auto simp: read_events_def t1_def refs_ok_def filter_empty_conv)
  then show "read_events (add_span service s t) sid =
      map (\<lambda>w. (evw_name w, evw_time w, map plain_kv (evw_attrs w))) (vw_events v)"
    using read_events_fold[OF t1, of "vw_events v"] assms(2)
    by (simp add: add_span_def Let_def t1_def sid_def)
  have "map_of (t_spans t) sid = None"
    using fresh by (force simp: map_of_eq_None_iff span_ids_def)
  then show "map_of (t_spans (add_span service s t)) sid = Some (span_row_of service s)"
    by (simp add: sid_def map_add_def)
qed

end
