(* ===== verification/Otel_Sqlite_Refine.thy ===== *)
theory Otel_Sqlite_Refine
  imports Otel_Sqlite_Props
begin

text \<open>
  The callbacks of the SQLite sink implement the contract of a transactional sink, for every
  library that keeps the contract \<open>sqlite_store\<close>; what the prune keeps and removes; and what
  happens when the library reports errors.
\<close>

subsection \<open>Walking a span\<close>

lemma view_walks:
  assumes "span_view_of s = Some v"
  obtains as es f where "walk_attrs s (otel_attr_first s) = Some as" "map (attr_view s) as = vw_attrs v"
    "walk_events s (otel_event_first s) = Some es"
    "\<And>e. e \<in> set es \<Longrightarrow> walk_attrs s (otel_event_attr_first s e) = Some (f e)"
    "vw_events v = map (\<lambda>e. \<lparr>evw_name = otel_event_name s e, evw_time = ev_time_unix_ns (event_at (sp_arena s) e),
       evw_attrs = map (attr_view s) (f e), evw_dropped = unat (ev_dropped_attrs (event_at (sp_arena s) e))\<rparr>) es"
proof -
  from assms obtain as es evs where w: "walk_attrs s (otel_attr_first s) = Some as"
    "walk_events s (otel_event_first s) = Some es" "those (map (event_view_of s) es) = Some evs"
    and v: "vw_attrs v = map (attr_view s) as" "vw_events v = evs"
    by (auto simp: span_view_of_def split: bind_splits)
  have those_all: "those xs = Some ys \<Longrightarrow> xs = map Some ys" for xs :: "event_view option list" and ys
    by (induction xs arbitrary: ys) (auto split: option.splits)
  define f where "f = (\<lambda>e. the (walk_attrs s (otel_event_attr_first s e)))"
  have e: "event_view_of s x \<noteq> None" if "x \<in> set es" for x
    using those_all[OF w(3)] that by (metis list.set_map image_iff option.distinct(1))
  have f: "walk_attrs s (otel_event_attr_first s x) = Some (f x)" if "x \<in> set es" for x
    using e[OF that] by (auto simp: event_view_of_def f_def)
  have "map the (map (event_view_of s) es) = evs"
    unfolding those_all[OF w(3)] by (simp add: comp_def)
  then have "evs = map (\<lambda>e. the (event_view_of s e)) es"
    by (simp add: comp_def)
  also have "\<dots> = map (\<lambda>e. \<lparr>evw_name = otel_event_name s e, evw_time = ev_time_unix_ns (event_at (sp_arena s) e),
       evw_attrs = map (attr_view s) (f e), evw_dropped = unat (ev_dropped_attrs (event_at (sp_arena s) e))\<rparr>) es"
    using f by (intro map_cong refl) (simp add: event_view_of_def)
  finally show ?thesis
    using that[OF w(1) _ w(2) f] v by simp
qed

subsection \<open>Pruning the tables\<close>

text \<open>What a successful prune script leaves, and the retention rule of a pass: the prune runs on
  every 64th commit and keeps the newest \<open>max_spans\<close> ids.\<close>

definition drop_through :: "int \<Rightarrow> tables \<Rightarrow> tables" where
  "drop_through c t = fold (apply_stmt 0) (prune_script c) t"

definition retain :: "u64 \<Rightarrow> tables \<Rightarrow> tables" where
  "retain n t = (if n = 0 \<or> span_ids t = [] \<or> Max (set (span_ids t)) - uint n \<le> 0 then t
     else drop_through (Max (set (span_ids t)) - uint n) t)"

definition settled :: "'db sqlite_state \<Rightarrow> tables \<Rightarrow> tables" where
  "settled S t = (if (sl_commits S + 1) mod 64 = 0 then retain (sl_max_spans S) t else t)"

lemma drop_through_tables:
  "t_spans (drop_through c t) = filter (\<lambda>x. c < fst x) (t_spans t)"
  "t_attrs (drop_through c t) = filter (\<lambda>r. c < ar_owner r) (t_attrs t)"
  "t_events (drop_through c t) = filter (\<lambda>e. c < er_span (snd e)) (t_events t)"
  "t_event_attrs (drop_through c t) =
     filter (\<lambda>r. ar_owner r \<notin> fst ` set (filter (\<lambda>e. er_span (snd e) \<le> c) (t_events t))) (t_event_attrs t)"
  by (simp_all add: drop_through_def prune_script_def not_le)

lemma span_ids_drop: "span_ids (drop_through c t) = filter (\<lambda>i. c < i) (span_ids t)"
  by (simp add: span_ids_def drop_through_tables filter_map comp_def)

lemma drop_through_refs:
  assumes "refs_ok t"
  shows "refs_ok (drop_through c t)"
  unfolding refs_ok_def
proof (intro conjI ballI)
  show "distinct (span_ids (drop_through c t))"
    using assms by (simp add: refs_ok_def span_ids_drop)
  show "distinct (event_ids (drop_through c t))"
    using assms by (auto simp: refs_ok_def event_ids_def drop_through_tables intro: distinct_map_filter)
  fix r assume "r \<in> set (t_attrs (drop_through c t))"
  then show "ar_owner r \<in> set (span_ids (drop_through c t))"
    using assms by (auto simp: refs_ok_def span_ids_drop drop_through_tables)
next
  fix e assume "e \<in> set (t_events (drop_through c t))"
  then show "er_span (snd e) \<in> set (span_ids (drop_through c t))"
    using assms by (auto simp: refs_ok_def span_ids_drop drop_through_tables)
next
  fix r assume r: "r \<in> set (t_event_attrs (drop_through c t))"
  then obtain ev where ev: "(ar_owner r, ev) \<in> set (t_events t)"
    using assms by (force simp: refs_ok_def drop_through_tables event_ids_def)
  then have "\<not> er_span ev \<le> c"
    using r by (auto simp: drop_through_tables image_iff)
  then show "ar_owner r \<in> set (event_ids (drop_through c t))"
    using ev by (force simp: event_ids_def drop_through_tables)
qed

lemma retain_refs: "refs_ok t \<Longrightarrow> refs_ok (retain n t)"
  by (simp add: retain_def drop_through_refs)

lemma settled_refs: "refs_ok t \<Longrightarrow> refs_ok (settled S t)"
  by (simp add: settled_def retain_refs)

lemma prune_cutoff_small:
  assumes "sint w = uint w" and "0 \<le> k" and "k < 2 ^ 63"
  shows "prune_cutoff k w = Some (k - uint w)"
proof -
  have "uint w < 2 ^ 63"
    using assms(1) sint_lt[of w] by simp
  moreover have "0 \<le> uint w" by simp
  ultimately have "- (2 ^ 63) \<le> k - uint w" "k - uint w < 2 ^ 63"
    using assms(2,3) by linarith+
  then show ?thesis
    using assms(1) by (simp add: prune_cutoff_def Let_def)
qed

subsection \<open>The callbacks under the library contract\<close>

context sqlite_store begin

text \<open>The handle is open, a transaction is open or not, and these are the visible and the
  committed tables.\<close>

definition holds :: "'db sqlite_state \<Rightarrow> bool \<Rightarrow> tables \<Rightarrow> tables \<Rightarrow> bool" where
  "holds S b t sv \<longleftrightarrow> (\<exists>db. sl_db S = Some db \<and> txn db = b \<and> work db = t \<and> saved db = sv)"

lemma holds_fields [simp]:
  "holds (S\<lparr>sl_cur_span := c\<rparr>) b t sv = holds S b t sv" "holds (S\<lparr>sl_in_txn := i\<rparr>) b t sv = holds S b t sv"
  "holds (S\<lparr>sl_commits := n\<rparr>) b t sv = holds S b t sv"
  by (simp_all add: holds_def)

lemma no_fault_step: "no_faults lib txn \<Longrightarrow> q \<noteq> QBegin \<Longrightarrow> lib_step lib db q = (db', b) \<Longrightarrow> b"
  unfolding no_faults_def by (metis snd_conv)

lemma write_step:
  assumes "no_faults lib txn" and "is_write q" and "holds S b t sv"
  shows "\<exists>db. sl_step lib q S = (S\<lparr>sl_db := Some db\<rparr>, True) \<and> txn db = b \<and>
    work db = apply_stmt (lib_rowid lib db) q t \<and> saved db = (if b then sv else work db)"
proof -
  obtain db0 where db0: "sl_db S = Some db0" "txn db0 = b" "work db0 = t" "saved db0 = sv"
    using assms(3) by (auto simp: holds_def)
  obtain db ok where st: "lib_step lib db0 q = (db, ok)" by fastforce
  have "q \<noteq> QBegin"
    using assms(2) by auto
  then have "ok"
    by (rule no_fault_step[OF assms(1) _ st])
  then show ?thesis
    using write_ok[OF assms(2), of db0 db] st db0 by (auto simp: sl_step_def)
qed

lemma write_holds:
  assumes "no_faults lib txn" and "is_write q" and "holds S b t sv" and "\<And>i. apply_stmt i q t = t'"
  shows "\<exists>db. sl_step lib q S = (S\<lparr>sl_db := Some db\<rparr>, True) \<and> holds (S\<lparr>sl_db := Some db\<rparr>) b t' (if b then sv else t')"
  using write_step[OF assms(1-3)] assms(4) by (auto simp: holds_def)

lemma attrs_step:
  assumes nf: "no_faults lib txn"
    and ins: "\<And>r. is_write (ins r)" "\<And>i r t. apply_stmt i (ins r) t = app [r] t" "\<And>t. app [] t = t"
      "\<And>xs ys t. app ys (app xs t) = app (xs @ ys) t"
  shows "holds S True t sv \<Longrightarrow> \<exists>db. insert_attrs lib ins owner s as S = S\<lparr>sl_db := Some db\<rparr> \<and>
    holds (S\<lparr>sl_db := Some db\<rparr>) True (app (map (attr_row_of s owner) as) t) sv"
proof (induction as arbitrary: S t)
  case Nil
  then show ?case
    using ins(3) by (auto simp: insert_attrs_def holds_def intro!: exI[of _ "the (sl_db S)"])
next
  case (Cons a as)
  from write_holds[OF nf ins(1) Cons.prems ins(2), of "attr_row_of s owner a"] obtain db where
    1: "sl_step lib (ins (attr_row_of s owner a)) S = (S\<lparr>sl_db := Some db\<rparr>, True)"
    "holds (S\<lparr>sl_db := Some db\<rparr>) True (app [attr_row_of s owner a] t) sv" by auto
  from Cons.IH[OF 1(2)] obtain db' where "insert_attrs lib ins owner s as (S\<lparr>sl_db := Some db\<rparr>) = S\<lparr>sl_db := Some db'\<rparr>"
    "holds (S\<lparr>sl_db := Some db'\<rparr>) True (app (map (attr_row_of s owner) as) (app [attr_row_of s owner a] t)) sv"
    by (auto simp: holds_def)
  then show ?case
    using 1(1) ins(4) by (auto simp: insert_attrs_def otel_sqlite_insert_attr_def)
qed

lemma span_attrs_step:
  assumes "no_faults lib txn" and "holds S True t sv"
  shows "\<exists>db. insert_attrs lib QInsAttr owner s as S = S\<lparr>sl_db := Some db\<rparr> \<and>
    holds (S\<lparr>sl_db := Some db\<rparr>) True (t\<lparr>t_attrs := t_attrs t @ map (attr_row_of s owner) as\<rparr>) sv"
  using attrs_step[OF assms(1), of QInsAttr "\<lambda>rs t. t\<lparr>t_attrs := t_attrs t @ rs\<rparr>"] assms(2) by simp

lemma event_attrs_step:
  assumes "no_faults lib txn" and "holds S True t sv"
  shows "\<exists>db. insert_attrs lib QInsEventAttr owner s as S = S\<lparr>sl_db := Some db\<rparr> \<and>
    holds (S\<lparr>sl_db := Some db\<rparr>) True (t\<lparr>t_event_attrs := t_event_attrs t @ map (attr_row_of s owner) as\<rparr>) sv"
  using attrs_step[OF assms(1), of QInsEventAttr "\<lambda>rs t. t\<lparr>t_event_attrs := t_event_attrs t @ rs\<rparr>"] assms(2) by simp

lemma event_step:
  assumes nf: "no_faults lib txn" and h: "holds S True t sv" and walk: "walk_attrs s (otel_event_attr_first s e) = Some as"
    and fit: "ids_fit (event_ids t)"
    and w: "w = \<lparr>evw_name = otel_event_name s e, evw_time = ev_time_unix_ns (event_at (sp_arena s) e),
       evw_attrs = map (attr_view s) as, evw_dropped = d\<rparr>"
  shows "\<exists>db. insert_event lib s e S = Some (S\<lparr>sl_db := Some db\<rparr>) \<and>
    holds (S\<lparr>sl_db := Some db\<rparr>) True (add_event (sl_cur_span S) w t) sv"
proof -
  define r where "r = event_row_of (sl_cur_span S) w"
  have "is_write (QInsEvent r)" by simp
  from write_step[OF nf this h] obtain db where 1: "sl_step lib (QInsEvent r) S = (S\<lparr>sl_db := Some db\<rparr>, True)"
    "txn db" "work db = t\<lparr>t_events := t_events t @ [(lib_rowid lib db, r)]\<rparr>" "saved db = sv" by auto
  obtain db0 where "sl_db S = Some db0" "work db0 = t"
    using h by (auto simp: holds_def)
  then have "lib_step lib db0 (QInsEvent r) = (db, True)"
    using 1(1) by (auto simp: sl_step_def split: prod.splits dest: arg_cong[where f = sl_db])
  then have rid: "lib_rowid lib db = next_id (event_ids t)"
    using event_rowid fit \<open>work db0 = t\<close> by blast
  define eid where "eid = next_id (event_ids t)"
  have "holds (S\<lparr>sl_db := Some db\<rparr>) True (t\<lparr>t_events := t_events t @ [(eid, r)]\<rparr>) sv"
    using 1 rid by (simp add: holds_def eid_def)
  from event_attrs_step[OF nf this, of eid s as] obtain db' where
    2: "insert_attrs lib QInsEventAttr eid s as (S\<lparr>sl_db := Some db\<rparr>) = S\<lparr>sl_db := Some db'\<rparr>"
    "holds (S\<lparr>sl_db := Some db'\<rparr>) True (t\<lparr>t_events := t_events t @ [(eid, r)],
       t_event_attrs := t_event_attrs t @ map (attr_row_of s eid) as\<rparr>) sv"
    by (auto simp: holds_def)
  have "insert_event lib s e S = Some (S\<lparr>sl_db := Some db'\<rparr>)"
    using 1(1) 2(1) walk rid by (simp add: insert_event_def r_def event_row_of_def w sl_rowid_def eid_def)
  moreover have "add_event (sl_cur_span S) w t = t\<lparr>t_events := t_events t @ [(eid, r)],
       t_event_attrs := t_event_attrs t @ map (attr_row_of s eid) as\<rparr>"
    by (simp add: add_event_def eid_def r_def w attr_row_view Let_def)
  ultimately show ?thesis
    using 2(2) by auto
qed

lemma events_step:
  assumes nf: "no_faults lib txn" and walk: "\<And>e. e \<in> set es \<Longrightarrow> walk_attrs s (otel_event_attr_first s e) = Some (f e)"
  shows "holds S True t sv \<Longrightarrow> rows_fit (fold (add_event (sl_cur_span S)) (map (\<lambda>e. \<lparr>evw_name = otel_event_name s e,
       evw_time = ev_time_unix_ns (event_at (sp_arena s) e), evw_attrs = map (attr_view s) (f e), evw_dropped = d e\<rparr>) es) t) \<Longrightarrow>
    \<exists>db. insert_events lib s es S = Some (S\<lparr>sl_db := Some db\<rparr>) \<and>
    holds (S\<lparr>sl_db := Some db\<rparr>) True (fold (add_event (sl_cur_span S)) (map (\<lambda>e. \<lparr>evw_name = otel_event_name s e,
       evw_time = ev_time_unix_ns (event_at (sp_arena s) e), evw_attrs = map (attr_view s) (f e), evw_dropped = d e\<rparr>) es) t) sv"
  using walk
proof (induction es arbitrary: S t)
  case Nil
  then show ?case
    by (auto simp: holds_def intro!: exI[of _ "the (sl_db S)"])
next
  case (Cons e es)
  let ?w = "\<lambda>e. \<lparr>evw_name = otel_event_name s e, evw_time = ev_time_unix_ns (event_at (sp_arena s) e),
    evw_attrs = map (attr_view s) (f e), evw_dropped = d e\<rparr>"
  have "rows_fit t"
    using add_events_fit[OF Cons.prems(2)] .
  then have "ids_fit (event_ids t)"
    by (simp add: rows_fit_def)
  from event_step[OF nf Cons.prems(1) _ this refl, of s e "f e" "d e"] Cons.prems(3) obtain db where
    1: "insert_event lib s e S = Some (S\<lparr>sl_db := Some db\<rparr>)"
    "holds (S\<lparr>sl_db := Some db\<rparr>) True (add_event (sl_cur_span S) (?w e) t) sv" by auto
  from Cons.IH[OF 1(2)] Cons.prems(2,3) obtain db' where
    "insert_events lib s es (S\<lparr>sl_db := Some db\<rparr>) = Some (S\<lparr>sl_db := Some db'\<rparr>)"
    "holds (S\<lparr>sl_db := Some db'\<rparr>) True (fold (add_event (sl_cur_span S)) (map ?w es) (add_event (sl_cur_span S) (?w e) t)) sv"
    by (auto simp: holds_def)
  then show ?case
    using 1(1) by auto
qed

lemma span_step:
  assumes nf: "no_faults lib txn" and h: "holds S True t sv" and i: "sl_in_txn S" and v: "span_view_of s = Some v"
    and fit: "rows_fit (add_span service s t)"
  shows "\<exists>db c. otel_sqlite_span lib service s S = Some (S\<lparr>sl_db := Some db, sl_cur_span := c\<rparr>) \<and>
    holds (S\<lparr>sl_db := Some db\<rparr>) True (add_span service s t) sv"
proof -
  from view_walks[OF v] obtain as es f where w: "walk_attrs s (otel_attr_first s) = Some as"
    "map (attr_view s) as = vw_attrs v" "walk_events s (otel_event_first s) = Some es"
    "\<And>e. e \<in> set es \<Longrightarrow> walk_attrs s (otel_event_attr_first s e) = Some (f e)"
    "vw_events v = map (\<lambda>e. \<lparr>evw_name = otel_event_name s e, evw_time = ev_time_unix_ns (event_at (sp_arena s) e),
       evw_attrs = map (attr_view s) (f e), evw_dropped = unat (ev_dropped_attrs (event_at (sp_arena s) e))\<rparr>) es"
    by blast
  define r where "r = span_row_of service s"
  define rid where "rid = next_id (span_ids t)"
  have "is_write (QInsSpan r)" by simp
  from write_step[OF nf this h] obtain db where 1: "sl_step lib (QInsSpan r) S = (S\<lparr>sl_db := Some db\<rparr>, True)"
    "txn db" "work db = t\<lparr>t_spans := t_spans t @ [(lib_rowid lib db, r)]\<rparr>" "saved db = sv" by auto
  obtain db0 where "sl_db S = Some db0" "work db0 = t"
    using h by (auto simp: holds_def)
  then have "lib_step lib db0 (QInsSpan r) = (db, True)"
    using 1(1) by (auto simp: sl_step_def split: prod.splits dest: arg_cong[where f = sl_db])
  then have row: "lib_rowid lib db = rid"
    using span_rowid add_span_fits[OF fit] \<open>work db0 = t\<close> by (simp add: rows_fit_def rid_def)
  define S1 where "S1 = S\<lparr>sl_db := Some db, sl_cur_span := rid\<rparr>"
  have rows: "map (attr_row_of s rid) as = map (kv_row rid) (vw_attrs v)"
    by (simp add: attr_row_view flip: w(2))
  have "holds S1 True (t\<lparr>t_spans := t_spans t @ [(rid, r)]\<rparr>) sv"
    using 1 row by (simp add: holds_def S1_def)
  from span_attrs_step[OF nf this, of rid s as] obtain db1 where
    2: "insert_attrs lib QInsAttr rid s as S1 = S1\<lparr>sl_db := Some db1\<rparr>"
    "holds (S1\<lparr>sl_db := Some db1\<rparr>) True (t\<lparr>t_spans := t_spans t @ [(rid, r)], t_attrs := t_attrs t @ map (kv_row rid) (vw_attrs v)\<rparr>) sv"
    by (auto simp: rows)
  have "rows_fit (fold (add_event (sl_cur_span (S1\<lparr>sl_db := Some db1\<rparr>))) (vw_events v)
      (t\<lparr>t_spans := t_spans t @ [(rid, r)], t_attrs := t_attrs t @ map (kv_row rid) (vw_attrs v)\<rparr>))"
    using fit v by (simp add: add_span_def Let_def S1_def rid_def r_def)
  from events_step[OF nf w(4) 2(2) this[unfolded w(5)]] obtain db2 where
    3: "insert_events lib s es (S1\<lparr>sl_db := Some db1\<rparr>) = Some (S1\<lparr>sl_db := Some db2\<rparr>)"
    "holds (S1\<lparr>sl_db := Some db2\<rparr>) True (add_span service s t) sv"
    using v by (auto simp: add_span_def Let_def S1_def rid_def r_def w(5))
  have "otel_sqlite_span lib service s S = Some (S1\<lparr>sl_db := Some db2\<rparr>)"
    using i 1(1) row 2(1) 3(1) w(1,3) by (simp add: otel_sqlite_span_def r_def sl_rowid_def S1_def)
  then show ?thesis
    using 3(2) by (intro exI[of _ db2] exI[of _ rid]) (simp add: S1_def holds_def)
qed


lemma prune_writes: "q \<in> set (prune_script c) \<Longrightarrow> is_write q" "q \<in> set (prune_script c) \<Longrightarrow> apply_stmt i q u = apply_stmt 0 q u"
  by (auto simp: prune_script_def)

lemma exec_deletes:
  assumes nf: "no_faults lib txn"
  shows "holds S False t t \<Longrightarrow> set qs \<subseteq> set (prune_script c) \<Longrightarrow>
    \<exists>db. otel_sqlite_exec lib qs S = (S\<lparr>sl_db := Some db\<rparr>, True) \<and>
      holds (S\<lparr>sl_db := Some db\<rparr>) False (fold (apply_stmt 0) qs t) (fold (apply_stmt 0) qs t)"
proof (induction qs arbitrary: S t)
  case Nil
  then show ?case
    by (auto simp: holds_def intro!: exI[of _ "the (sl_db S)"])
next
  case (Cons q qs)
  have q: "q \<in> set (prune_script c)" and qs: "set qs \<subseteq> set (prune_script c)"
    using Cons.prems(2) by auto
  from write_holds[OF nf prune_writes(1)[OF q] Cons.prems(1) prune_writes(2)[OF q]] obtain db where
    1: "sl_step lib q S = (S\<lparr>sl_db := Some db\<rparr>, True)"
    "holds (S\<lparr>sl_db := Some db\<rparr>) False (apply_stmt 0 q t) (apply_stmt 0 q t)" by auto
  from Cons.IH[OF 1(2) qs] 1(1) show ?case
    by (auto simp: holds_def)
qed

lemma exec_prune:
  assumes "no_faults lib txn" and "holds S False t t"
  shows "\<exists>db. otel_sqlite_exec lib (prune_script c) S = (S\<lparr>sl_db := Some db\<rparr>, True) \<and>
      holds (S\<lparr>sl_db := Some db\<rparr>) False (drop_through c t) (drop_through c t)"
  unfolding drop_through_def by (rule exec_deletes[OF assms order.refl])

lemma prune_step:
  assumes nf: "no_faults lib txn" and h: "holds S False t t" and fit: "ids_fit (span_ids t)"
    and cap: "sint (sl_max_spans S) = uint (sl_max_spans S)"
  shows "\<exists>db. otel_sqlite_prune lib S = Some (S\<lparr>sl_db := Some db\<rparr>) \<and>
    holds (S\<lparr>sl_db := Some db\<rparr>) False (retain (sl_max_spans S) t) (retain (sl_max_spans S) t)"
proof -
  obtain db0 where db0: "sl_db S = Some db0" "work db0 = t"
    using h by (auto simp: holds_def)
  then have self: "S\<lparr>sl_db := Some db0\<rparr> = S" by simp
  have h0: "holds (S\<lparr>sl_db := Some db0\<rparr>) False t t"
    unfolding self by (rule h)
  show ?thesis
  proof (cases "sl_max_spans S = 0")
    case True
    then show ?thesis
      using True by (intro exI[of _ db0] conjI) (simp_all add: otel_sqlite_prune_def retain_def self h)
  next
    case False
    have m: "lib_max lib db0 = NullRow \<or> (\<exists>m. lib_max lib db0 = ValueRow m)"
      using nf by (cases "lib_max lib db0") (auto simp: no_faults_def)
    show ?thesis
    proof (cases "lib_max lib db0 = NullRow")
      case True
      then have "span_ids t = []"
        using max_null[of db0] db0(2) by simp
      moreover have "prune_cutoff 0 (sl_max_spans S) = Some (- uint (sl_max_spans S))"
        using prune_cutoff_small[OF cap, of 0] by simp
      ultimately show ?thesis
        using False True db0(1) by (intro exI[of _ db0] conjI) (simp_all add: otel_sqlite_prune_def retain_def self h)
    next
      case nn: False
      then obtain k where k: "lib_max lib db0 = ValueRow k" using m by blast
      then have mx: "span_ids t \<noteq> []" "k = Max (set (span_ids t))"
        using max_value[of db0] db0(2) by auto
      then have "k \<in> set (span_ids t)" by simp
      then have k0: "0 < k" "k < 2 ^ 63 - 1"
        using fit by (auto simp: ids_fit_def)
      then have cut: "prune_cutoff k (sl_max_spans S) = Some (k - uint (sl_max_spans S))"
        using prune_cutoff_small[OF cap] k0 by simp
      show ?thesis
      proof (cases "k - uint (sl_max_spans S) \<le> 0")
        case True
        then show ?thesis
          using False k cut db0(1) mx by (intro exI[of _ db0] conjI) (simp_all add: otel_sqlite_prune_def retain_def self h)
      next
        case pos: False
        from exec_prune[OF nf h, of "k - uint (sl_max_spans S)"] obtain db where
          "otel_sqlite_exec lib (prune_script (k - uint (sl_max_spans S))) S = (S\<lparr>sl_db := Some db\<rparr>, True)"
          "holds (S\<lparr>sl_db := Some db\<rparr>) False (drop_through (k - uint (sl_max_spans S)) t) (drop_through (k - uint (sl_max_spans S)) t)"
          by blast
        moreover have "retain (sl_max_spans S) t = drop_through (k - uint (sl_max_spans S)) t"
          using False mx(1) pos unfolding retain_def mx(2) by (simp only: if_False simp_thms)
        moreover have "otel_sqlite_prune lib S =
            Some (fst (otel_sqlite_exec lib (prune_script (k - uint (sl_max_spans S))) S))"
          using False k cut db0(1) pos by (simp add: otel_sqlite_prune_def)
        ultimately show ?thesis
          by (intro exI[of _ db]) simp
      qed
    qed
  qed
qed

lemma commit_step:
  assumes nf: "no_faults lib txn" and h: "holds S True t sv"
  shows "\<exists>db. sl_step lib QCommit S = (S\<lparr>sl_db := Some db\<rparr>, True) \<and> holds (S\<lparr>sl_db := Some db\<rparr>) False t t"
proof -
  obtain db0 where db0: "sl_db S = Some db0" "work db0 = t"
    using h by (auto simp: holds_def)
  obtain db ok where st: "lib_step lib db0 QCommit = (db, ok)" by fastforce
  have "ok"
    by (rule no_fault_step[OF nf _ st]) simp
  then have "\<not> txn db" "saved db = t"
    using commit_ok st db0(2) by auto
  then show ?thesis
    using st \<open>ok\<close> db0(1) autocommit[of db] by (auto simp: sl_step_def holds_def intro!: exI[of _ db])
qed

lemma checkpoint_step:
  assumes "holds S b t sv"
  shows "\<exists>db. fst (sl_step lib QCheckpoint S) = S\<lparr>sl_db := Some db\<rparr> \<and> holds (S\<lparr>sl_db := Some db\<rparr>) b t sv"
proof -
  obtain db0 where "sl_db S = Some db0"
    using assms by (auto simp: holds_def)
  then show ?thesis
    using assms checkpoint by (cases "lib_step lib db0 QCheckpoint") (auto simp: holds_def sl_step_def)
qed

lemma end_step:
  assumes nf: "no_faults lib txn" and h: "holds S True t sv" and i: "sl_in_txn S" and fit: "rows_fit t"
    and cap: "sint (sl_max_spans S) = uint (sl_max_spans S)"
  shows "\<exists>db. otel_sqlite_end lib S = Some (S\<lparr>sl_db := Some db, sl_in_txn := False, sl_commits := sl_commits S + 1\<rparr>) \<and>
    holds (S\<lparr>sl_db := Some db\<rparr>) False (settled S t) (settled S t)"
proof -
  from commit_step[OF nf h] obtain db1 where 1: "sl_step lib QCommit S = (S\<lparr>sl_db := Some db1\<rparr>, True)"
    "holds (S\<lparr>sl_db := Some db1\<rparr>) False t t" by blast
  define S1 where "S1 = S\<lparr>sl_db := Some db1, sl_in_txn := False, sl_commits := sl_commits S + 1\<rparr>"
  have h1: "holds S1 False t t" and c1: "sint (sl_max_spans S1) = uint (sl_max_spans S1)"
    using 1(2) cap by (simp_all add: S1_def holds_def)
  show ?thesis
  proof (cases "(sl_commits S + 1) mod 64 = 0")
    case False
    then have "otel_sqlite_end lib S = Some S1"
      using i 1(1) by (simp add: otel_sqlite_end_def S1_def)
    then show ?thesis
      using 1(2) False by (intro exI[of _ db1]) (simp add: S1_def settled_def)
  next
    case True
    have "ids_fit (span_ids t)"
      using fit by (simp add: rows_fit_def)
    from prune_step[OF nf h1 this c1] obtain db2 where 2: "otel_sqlite_prune lib S1 = Some (S1\<lparr>sl_db := Some db2\<rparr>)"
      "holds (S1\<lparr>sl_db := Some db2\<rparr>) False (settled S t) (settled S t)"
      using True by (auto simp: settled_def S1_def)
    from checkpoint_step[OF 2(2)] obtain db3 where "fst (sl_step lib QCheckpoint (S1\<lparr>sl_db := Some db2\<rparr>)) = S1\<lparr>sl_db := Some db3\<rparr>"
      "holds (S1\<lparr>sl_db := Some db3\<rparr>) False (settled S t) (settled S t)" by (auto simp: holds_def)
    moreover have "otel_sqlite_end lib S = Some (fst (sl_step lib QCheckpoint (S1\<lparr>sl_db := Some db2\<rparr>)))"
      using i 1(1) True 2(1) by (simp add: otel_sqlite_end_def S1_def)
    ultimately show ?thesis
      by (intro exI[of _ db3]) (simp add: S1_def holds_def)
  qed
qed

lemma begin_step:
  assumes nf: "no_faults lib txn" and h: "holds S False t sv"
  shows "\<exists>db. otel_sqlite_begin lib S = S\<lparr>sl_db := Some db, sl_in_txn := True\<rparr> \<and> holds (S\<lparr>sl_db := Some db\<rparr>) True t t \<and> sv = t"
proof -
  obtain db0 where db0: "sl_db S = Some db0" "\<not> txn db0" "work db0 = t" "saved db0 = sv"
    using h by (auto simp: holds_def)
  obtain db ok where st: "lib_step lib db0 QBegin = (db, ok)" by fastforce
  have "ok"
    using nf st db0(2) unfolding no_faults_def by (metis snd_conv)
  then show ?thesis
    using begin_ok[of db0 db] st db0 autocommit[of db0] by (auto simp: sl_step_def holds_def otel_sqlite_begin_def)
qed

subsection \<open>A transactional sink\<close>

definition sl_idle :: "'db sqlite_state \<Rightarrow> bool" where
  "sl_idle S \<longleftrightarrow> (\<exists>t sv. holds S False t sv) \<and> sint (sl_max_spans S) = uint (sl_max_spans S)"

definition sl_opened :: "'db sqlite_state \<Rightarrow> bool" where
  "sl_opened S \<longleftrightarrow> (\<exists>t sv. holds S True t sv) \<and> sl_in_txn S \<and> sint (sl_max_spans S) = uint (sl_max_spans S)"

definition sl_durable :: "'db sqlite_state \<Rightarrow> tables" where
  "sl_durable S = saved (the (sl_db S))"

definition sl_pending :: "'db sqlite_state \<Rightarrow> tables" where
  "sl_pending S = work (the (sl_db S))"

lemma holds_views: "holds S b t sv \<Longrightarrow> sl_pending S = t \<and> sl_durable S = sv"
  by (auto simp: holds_def sl_pending_def sl_durable_def)

lemma settled_cong: "sl_commits S' = sl_commits S \<Longrightarrow> sl_max_spans S' = sl_max_spans S \<Longrightarrow> settled S' = settled S"
  by (simp add: settled_def fun_eq_iff)

lemma sqlite_sink:
  assumes nf: "no_faults lib txn"
  shows "transactional_sink (otel_sqlite_begin lib) (otel_sqlite_span lib service) (otel_sqlite_end lib)
    sl_idle sl_opened sl_durable sl_pending (add_span service) settled rows_fit"
proof
  fix S :: "'db sqlite_state" and x t
  {
    assume "sl_idle S"
    then obtain t sv where h: "holds S False t sv" and cap: "sint (sl_max_spans S) = uint (sl_max_spans S)"
      by (auto simp: sl_idle_def)
    from begin_step[OF nf h] obtain db where b: "otel_sqlite_begin lib S = S\<lparr>sl_db := Some db, sl_in_txn := True\<rparr>"
      "holds (S\<lparr>sl_db := Some db\<rparr>) True t t" "sv = t" by blast
    then have h': "holds (otel_sqlite_begin lib S) True t t"
      by (simp add: holds_def)
    show "sl_opened (otel_sqlite_begin lib S)"
      using h' b(1) cap by (auto simp: sl_opened_def)
    show "sl_pending (otel_sqlite_begin lib S) = sl_durable S" "sl_durable (otel_sqlite_begin lib S) = sl_durable S"
      using holds_views[OF h] holds_views[OF h'] b(3) by simp_all
    show "settled (otel_sqlite_begin lib S) = settled S"
      by (rule settled_cong) (simp_all add: b(1))
  }
  {
    assume "sl_opened S" and x: "exportable_span x" and fit: "rows_fit (add_span service x (sl_pending S))"
    then obtain t sv where h: "holds S True t sv" and i: "sl_in_txn S" "sint (sl_max_spans S) = uint (sl_max_spans S)"
      by (auto simp: sl_opened_def)
    obtain v where v: "span_view_of x = Some v"
      using x by (auto simp: exportable_span_def exportable_def)
    have "rows_fit (add_span service x t)"
      using fit holds_views[OF h] by simp
    from span_step[OF nf h i(1) v this] obtain db c where r: "otel_sqlite_span lib service x S = Some (S\<lparr>sl_db := Some db, sl_cur_span := c\<rparr>)"
      "holds (S\<lparr>sl_db := Some db\<rparr>) True (add_span service x t) sv" by blast
    then have h': "holds (S\<lparr>sl_db := Some db, sl_cur_span := c\<rparr>) True (add_span service x t) sv"
      by (simp add: holds_def)
    have "sl_opened (S\<lparr>sl_db := Some db, sl_cur_span := c\<rparr>)"
      unfolding sl_opened_def using h' i by fastforce
    then show "\<exists>S'. otel_sqlite_span lib service x S = Some S' \<and> sl_opened S' \<and> sl_pending S' = add_span service x (sl_pending S) \<and>
        sl_durable S' = sl_durable S \<and> settled S' = settled S"
      using r(1) holds_views[OF h] holds_views[OF h'] by (auto intro!: settled_cong)
  }
  {
    assume "sl_opened S" and fit: "rows_fit (sl_pending S)"
    then obtain t sv where h: "holds S True t sv" and i: "sl_in_txn S" "sint (sl_max_spans S) = uint (sl_max_spans S)"
      by (auto simp: sl_opened_def)
    have "rows_fit t"
      using fit holds_views[OF h] by simp
    from end_step[OF nf h i(1) this i(2)] obtain db where
      r: "otel_sqlite_end lib S = Some (S\<lparr>sl_db := Some db, sl_in_txn := False, sl_commits := sl_commits S + 1\<rparr>)"
      "holds (S\<lparr>sl_db := Some db\<rparr>) False (settled S t) (settled S t)" by blast
    then have h': "holds (S\<lparr>sl_db := Some db, sl_in_txn := False, sl_commits := sl_commits S + 1\<rparr>) False (settled S t) (settled S t)"
      by (simp add: holds_def)
    have "sl_idle (S\<lparr>sl_db := Some db, sl_in_txn := False, sl_commits := sl_commits S + 1\<rparr>)"
      unfolding sl_idle_def using h' i by fastforce
    then show "\<exists>S'. otel_sqlite_end lib S = Some S' \<and> sl_idle S' \<and> sl_durable S' = settled S (sl_pending S)"
      using r(1) holds_views[OF h] holds_views[OF h'] by auto
  }
qed (rule add_span_fits)

end

end
