(* ===== verification/Otel_Tracer_Theorems.thy ===== *)
theory Otel_Tracer_Theorems
  imports Otel_Tracer_Props
begin

text \<open>
  The properties of the tracer: its invariant over whole runs, the delivery of a drain and of
  a leaving thread, the conservation of spans, the path of one request from start to the
  collector, and what the code does with spans when it is torn down while disabled or
  while a thread is still registered.
\<close>

subsection \<open>A concrete tracer\<close>

text \<open>The static storage at program start.\<close>

definition tracer_zero :: otel_global where
  "tracer_zero = \<lparr>g_initialized = False, g_service = [], g_hostname = [], g_transport = False,
     g_transport_present = False, g_sink = None, g_sink_present = False,
     g_sampler = \<lparr>sample_always = False, sample_threshold = 0\<rparr>, g_runtime_on = False, g_threads = [],
     g_export = \<lparr>ex_otlp = otlp_init\<lparr>ot_buf := False\<rparr>, ex_frames = []\<rparr>, g_dropped_spans = 0, g_enabled = False,
     g_ring_capacity = 2048, g_tls = (\<lambda>_. None), g_ctx = (\<lambda>_. None), g_next = 0, g_sink_log = []\<rparr>"

definition full_sink :: span_sink where
  "full_sink = \<lparr>sk_addr = 1, sk_begin = True, sk_span = True, sk_end = True\<rparr>"

text \<open>Initialised, with a transport and a sink, and thread 0 registered; then with one ended span.\<close>

definition live_tracer :: otel_global where
  "live_tracer = otel_thread_register 0 \<lparr>rs_lo = 1, rs_hi = 0\<rparr> 7
     (otel_set_span_sink (Some full_sink) (otel_set_transport True (fst (otel_init (Some [115, 118, 99]) None True tracer_zero))))"

definition busy_tracer :: otel_global where
  "busy_tracer = fst (the (otel_span_end 0 120 sample_span live_tracer))"

lemma pow_2048: "(2048 :: u32) = 2 ^ 11"
  by simp

lemma tracer_ok_zero: "tracer_ok tracer_zero"
  using otlp_init_ok by (auto simp: tracer_ok_def threads_ok_def tracer_zero_def intro!: exI[of _ 11])

lemma tracer_ok_live: "tracer_ok live_tracer"
proof -
  have "tracer_ok (fst (otel_init (Some [115, 118, 99]) None True tracer_zero))"
    by (rule tracer_ok_init[OF tracer_ok_zero]) (simp add: tracer_zero_def)
  then show ?thesis
    unfolding live_tracer_def by (intro tracer_ok_register tracer_ok_config)
qed

lemma live_fields [simp]:
  "g_enabled live_tracer" "g_transport live_tracer" "g_initialized live_tracer" "g_sink live_tracer = Some full_sink"
  "g_tls live_tracer 0 = Some 0" "g_threads live_tracer = [0]" "g_sink_present live_tracer"
  "g_sampler live_tracer = \<lparr>sample_always = True, sample_threshold = NOT 0\<rparr>"
  "g_dropped_spans live_tracer = 0" "g_sink_log live_tracer = []"
  by (simp_all add: live_tracer_def tracer_zero_def otel_thread_register_def otel_set_span_sink_def
      otel_set_transport_def otel_recompute_enabled_def otel_init_def Let_def)

lemma live_ctx: "g_ctx live_tracer 0 = Some (ctx_new (2 ^ 11) \<lparr>rs_lo = 1, rs_hi = 0\<rparr>)"
  by (simp add: live_tracer_def tracer_zero_def otel_thread_register_def otel_set_span_sink_def
      otel_set_transport_def otel_recompute_enabled_def otel_init_def Let_def)

lemma live_sink [simp]: "sink_spans live_tracer"
  by (simp add: sink_spans_def full_sink_def)

lemma live_queued: "queued live_tracer 0 = []"
  using live_ctx ctx_new_ok(2)[of 11] by (simp add: queued_def)

lemma sample_exportable: "exportable_span (sample_span\<lparr>sp_end_unix_ns := t\<rparr>)"
proof -
  have "recorded_span (sample_span\<lparr>sp_end_unix_ns := t\<rparr>) sample_view"
    unfolding recorded_span_def sample_span_def sample_view_def
    by (intro exI[of _ zero_span] exI[of _ sample_name] exI[of _ 2] exI[of _ 99] exI[of _ sample_calls] exI[of _ t])
      simp
  then show ?thesis
    using recorded_exportable by (auto simp: exportable_span_def)
qed

lemma sample_recording: "otel_span_recording sample_span"
proof -
  have "sp_flags (fst (span_run (otel_span_init zero_span sample_name 2 99) sample_calls)) = 1"
    using span_run_meta[of "otel_span_init zero_span sample_name 2 99" sample_calls]
    by (simp add: span_meta_def)
  then show ?thesis
    by (simp add: otel_span_recording_def sample_span_def)
qed

lemma sample_end [simp]: "sample_span\<lparr>sp_end_unix_ns := 120\<rparr> = sample_span"
  by (simp add: sample_span_def)

lemma busy_tracer:
  shows "otel_span_end 0 120 sample_span live_tracer = Some (busy_tracer, sample_span)" "tracer_ok busy_tracer"
    "queued busy_tracer 0 = [sample_span]" "g_dropped_spans busy_tracer = 0"
    "busy_tracer = live_tracer\<lparr>g_ctx := g_ctx busy_tracer\<rparr>"
proof -
  obtain ctx where ctx: "g_ctx live_tracer 0 = Some ctx" "ring_ok ctx" "ring_contents ctx = []" "unat (cx_capacity ctx) = 2048"
    using live_ctx ctx_new_ok[of 11] unat_pow2[of 11] by (simp add: ctx_new_def)
  obtain ctx' where enq: "ring_enqueue ctx sample_span = (ctx', True)"
    using ring.put_accepts[OF ctx(2)] ctx(3,4) by (metis (mono_tags) length_0_conv list.size(3) prod.collapse zero_less_numeral)
  have run: "otel_span_end 0 120 sample_span live_tracer = Some (live_tracer\<lparr>g_ctx := (g_ctx live_tracer)(0 \<mapsto> ctx')\<rparr>, sample_span)"
    using sample_recording ctx(1) enq by (simp add: otel_span_end_def)
  then have b: "busy_tracer = live_tracer\<lparr>g_ctx := (g_ctx live_tracer)(0 \<mapsto> ctx')\<rparr>"
    by (simp add: busy_tracer_def)
  show "otel_span_end 0 120 sample_span live_tracer = Some (busy_tracer, sample_span)"
    using run b by simp
  show "busy_tracer = live_tracer\<lparr>g_ctx := g_ctx busy_tracer\<rparr>" "g_dropped_spans busy_tracer = 0"
    by (simp_all add: b)
  show "queued busy_tracer 0 = [sample_span]"
    using ring.put_contents[OF ctx(2), of sample_span] ctx(3) enq by (simp add: b queued_def)
  show "tracer_ok busy_tracer"
    using span_end_ok[OF tracer_ok_live sample_exportable sample_recording, of 0 120] run b by auto
qed

lemma busy_fields [simp]:
  "g_enabled busy_tracer" "g_transport busy_tracer" "g_initialized busy_tracer" "g_sink busy_tracer = Some full_sink"
  "g_tls busy_tracer 0 = Some 0" "g_threads busy_tracer = [0]" "g_sink_present busy_tracer" "sink_spans busy_tracer"
  "g_sink_log busy_tracer = []"
  by (subst busy_tracer(5), simp)+

lemma busy_queued: "all_queued busy_tracer = [sample_span]"
  by (simp add: all_queued_def busy_tracer(3))


lemma live_run:
  "tracer_run pack tracer_zero [OInit (Some [115, 118, 99]) None True, OTransport True, OSink (Some full_sink),
     ORegister 0 \<lparr>rs_lo = 1, rs_hi = 0\<rparr> 7] = Some live_tracer"
  by (simp add: live_tracer_def)

lemma booted: "g_initialized (otel_set_span_sink sk (otel_set_transport fn (fst (otel_init n host b tracer_zero))))"
  by (simp add: otel_set_span_sink_def otel_set_transport_def otel_recompute_enabled_def otel_init_def tracer_zero_def)

lemma live_client:
  "client_keeps pack tracer_zero ([OInit (Some [115, 118, 99]) None True, OTransport True, OSink (Some full_sink),
     ORegister 0 \<lparr>rs_lo = 1, rs_hi = 0\<rparr> 7] @ ops) \<longleftrightarrow> client_keeps pack live_tracer ops"
proof -
  have "g_threads tracer_zero = []"
    by (simp add: tracer_zero_def)
  then show ?thesis
    by (simp add: booted flip: live_tracer_def)
qed

subsection \<open>Delivery\<close>

lemma drained_all:
  assumes "threads_ok g" and "h = g\<lparr>g_export := ex, g_sink_log := l, g_ctx := drained_ctx g\<rparr>"
  shows "all_queued h = []"
  using drained_queued[OF assms(1), where ex = ex and l = l] by (simp add: all_queued_def assms(2))

text \<open>C2: from the state of a fresh process no sequence of library calls that keeps the rules for
  clients makes any call fail (follow a freed context, overrun a batch, pack through a null or
  freed buffer), and the invariant of the tracer holds at the end: every registered thread has a
  live context of its own whose queued spans can be exported, the batch is empty between calls
  and has its buffer, and the inline flag is on exactly when the library is initialised, enabled
  and has a transport or a sink.  One of the rules is that the client does not go on after an
  \<^verbatim>\<open>otel_init\<close> that returned -1 for want of a buffer: \<open>drain_without_buffer\<close> shows why.\<close>

theorem tracer_never_fails:
  assumes "client_keeps pack tracer_zero ops"
  shows "\<exists>h. tracer_run pack tracer_zero ops = Some h \<and> tracer_ok h"
  using tracer_run_ok[OF tracer_ok_zero assms] .

lemma tracer_never_fails_witness:
  "\<exists>h. tracer_run (\<lambda>ms. [of_nat (length ms)]) tracer_zero ([OInit (Some [115, 118, 99]) None True, OTransport True,
     OSink (Some full_sink), ORegister 0 \<lparr>rs_lo = 1, rs_hi = 0\<rparr> 7] @ [OEnd 0 120 sample_span, ODrain]) = Some h \<and> tracer_ok h"
proof (rule tracer_never_fails)
  show "client_keeps (\<lambda>ms. [of_nat (length ms)]) tracer_zero ([OInit (Some [115, 118, 99]) None True, OTransport True,
     OSink (Some full_sink), ORegister 0 \<lparr>rs_lo = 1, rs_hi = 0\<rparr> 7] @ [OEnd 0 120 sample_span, ODrain])"
    unfolding live_client using sample_exportable[of 120] by (simp split: option.splits)
qed

text \<open>After an \<^verbatim>\<open>otel_init\<close> that returned -1 the library is initialised and has no buffer.  With a
  transport set, a drain that finds a span, or the leaving of a thread with one, packs it through
  the null pointer.\<close>

definition no_buffer :: "otel_global \<Rightarrow> bool" where
  "no_buffer g \<longleftrightarrow> g_transport_present g \<and> \<not> ot_buf (ex_otlp (g_export g))"

lemma failed_init:
  "\<not> g_initialized g \<Longrightarrow> snd (otel_init service host False g) = -1"
  "\<not> g_initialized g \<Longrightarrow> no_buffer (otel_set_transport True (fst (otel_init service host False g)))"
  "\<not> g_initialized g \<Longrightarrow> g_enabled (otel_set_transport True (fst (otel_init service host False g)))"
  by (simp_all add: otel_init_def no_buffer_def otel_set_transport_def otel_recompute_enabled_def)

lemma add_attrs_buf: "otlp_add_attrs ob s as = Some ob' \<Longrightarrow> ot_buf ob' = ot_buf ob"
  by (induction as arbitrary: ob) (auto simp: otlp_add_attr_def Let_def split: bind_splits if_splits)

lemma add_events_buf: "otlp_add_events ob s es = Some ob' \<Longrightarrow> ot_buf ob' = ot_buf ob"
  by (induction es arbitrary: ob)
    (auto simp: otlp_add_event_def Let_def split: bind_splits if_splits dest!: add_attrs_buf)

lemma flush_no_buf: "otlp_flush pack tp ex = Some ex' \<Longrightarrow> \<not> ot_buf (ex_otlp ex) \<Longrightarrow> ex' = ex"
  by (auto simp: otlp_flush_def Let_def split: if_splits)

lemma add_span_no_buf:
  "otlp_add_span pack tp s ex = Some ex' \<Longrightarrow> \<not> ot_buf (ex_otlp ex) \<Longrightarrow> \<not> ot_buf (ex_otlp ex') \<and> 0 < ot_n_spans (ex_otlp ex')"
  by (auto simp: otlp_add_span_def Let_def split: bind_splits if_splits dest!: add_attrs_buf add_events_buf flush_no_buf)

lemma emit_no_buf:
  "otel_emit_span pack s g = Some h \<Longrightarrow> no_buffer g \<Longrightarrow> no_buffer h \<and> 0 < ot_n_spans (ex_otlp (g_export h))"
  by (auto simp: otel_emit_span_def no_buffer_def split: bind_splits option.splits if_splits dest!: add_span_no_buf)

lemma emit_ctx: "otel_emit_span pack s g = Some h \<Longrightarrow> g_ctx h = g_ctx g"
  by (auto simp: otel_emit_span_def split: bind_splits option.splits if_splits)

lemma emit_all_no_buf:
  "fold (\<lambda>s st. do { g \<leftarrow> st; otel_emit_span pack s g }) ss (Some g) = Some h \<Longrightarrow> no_buffer g \<Longrightarrow>
   no_buffer h \<and> g_ctx h = g_ctx g \<and> (ss \<noteq> [] \<or> 0 < ot_n_spans (ex_otlp (g_export g)) \<longrightarrow> 0 < ot_n_spans (ex_otlp (g_export h)))"
proof (induction ss arbitrary: g)
  case (Cons s ss)
  have none: "fold (\<lambda>s st. do { g \<leftarrow> st; otel_emit_span pack s g }) ss None = None"
    by (induction ss) simp_all
  then show ?case
    using Cons emit_no_buf[of pack s g] emit_ctx[of pack s g] by (cases "otel_emit_span pack s g") auto
qed simp

lemma drain_one_no_buf:
  assumes "drain_one pack a g = Some (h, n)" and "no_buffer g"
  shows "no_buffer h" "b \<noteq> a \<Longrightarrow> queued h b = queued g b"
    "queued g a \<noteq> [] \<or> 0 < ot_n_spans (ex_otlp (g_export g)) \<Longrightarrow> 0 < ot_n_spans (ex_otlp (g_export h))"
proof -
  obtain ctx g' where "g_ctx g a = Some ctx" "fold (\<lambda>s st. do { g \<leftarrow> st; otel_emit_span pack s g }) (ring_contents ctx) (Some g) = Some g'"
    "h = g'\<lparr>g_ctx := (g_ctx g')(a \<mapsto> ctx\<lparr>cx_tail := cx_head ctx\<rparr>)\<rparr>"
    using assms(1) by (auto simp: drain_one_def otel_drain_ctx_eq split: bind_splits)
  with emit_all_no_buf[OF this(2) assms(2)] show "no_buffer h" "b \<noteq> a \<Longrightarrow> queued h b = queued g b"
    "queued g a \<noteq> [] \<or> 0 < ot_n_spans (ex_otlp (g_export g)) \<Longrightarrow> 0 < ot_n_spans (ex_otlp (g_export h))"
    by (auto simp: queued_def no_buffer_def)
qed

lemma drain_all_no_buf:
  "drain_all pack as n g = Some (h, m) \<Longrightarrow> no_buffer g \<Longrightarrow> distinct as \<Longrightarrow>
   no_buffer h \<and> ((\<exists>b \<in> set as. queued g b \<noteq> []) \<or> 0 < ot_n_spans (ex_otlp (g_export g)) \<longrightarrow> 0 < ot_n_spans (ex_otlp (g_export h)))"
proof (induction as arbitrary: g n)
  case (Cons b as)
  from Cons.prems(1) obtain g1 k where 1: "drain_one pack b g = Some (g1, k)" "drain_all pack as (n + k) g1 = Some (h, m)"
    by (auto split: bind_splits)
  note d = drain_one_no_buf[OF 1(1) Cons.prems(2)]
  have "queued g1 c = queued g c" if "c \<in> set as" for c
    using d(2)[of c] that Cons.prems(3) by auto
  then show ?case
    using Cons.IH[OF 1(2) d(1)] d(3) Cons.prems(3) by auto
qed simp

lemma drain_without_buffer:
  assumes "g_enabled g" and "no_buffer g" and "queued g a \<noteq> []"
  shows "a \<in> set (g_threads g) \<Longrightarrow> distinct (g_threads g) \<Longrightarrow> otel_drain pack g = None"
    and "g_tls g t = Some a \<Longrightarrow> otel_thread_unregister pack t g = None"
proof -
  have flush: "otlp_flush_g pack h = None" if "no_buffer h" "0 < ot_n_spans (ex_otlp (g_export h))" for h
    using that by (simp add: otlp_flush_g_def otlp_flush_def no_buffer_def Let_def)
  have b: "no_buffer (sink_begin g)" "queued (sink_begin g) = queued g" "g_threads (sink_begin g) = g_threads g"
    using assms(2) by (subst sink_begin_fields(1), simp add: no_buffer_def queued_def fun_eq_iff)+
  show "otel_drain pack g = None" if a: "a \<in> set (g_threads g)" "distinct (g_threads g)"
  proof (cases "drain_all pack (g_threads g) 0 (sink_begin g)")
    case (Some x)
    obtain h m where h: "x = (h, m)" by fastforce
    from drain_all_no_buf[of pack "g_threads g" 0 "sink_begin g" h m] have "no_buffer h" "0 < ot_n_spans (ex_otlp (g_export h))"
      using Some h b(1,2) a assms(3) by auto
    then show ?thesis
      using Some h b(3) assms(1) flush by (simp add: otel_drain_def)
  qed (use b(3) assms(1) in \<open>simp add: otel_drain_def\<close>)
  show "otel_thread_unregister pack t g = None" if "g_tls g t = Some a"
  proof (cases "drain_one pack a (sink_begin g)")
    case (Some x)
    obtain h m where h: "x = (h, m)" by fastforce
    from drain_one_no_buf[of pack a "sink_begin g" h m] have "no_buffer h" "0 < ot_n_spans (ex_otlp (g_export h))"
      using Some h b(1,2) assms(3) by auto
    then show ?thesis
      using Some h that assms(1) flush by (cases "g_ctx g a") (simp_all add: otel_thread_unregister_def)
  qed (use that assms(1) in \<open>cases "g_ctx g a"; simp add: otel_thread_unregister_def\<close>)
qed

text \<open>C10: a drain of a live tracer returns the number of spans that were waiting and delivers all of
  them, thread by thread and oldest first: the sink sees them between one begin and one end,
  the transport gets them in frames of at most 256; no ring keeps a span, no thread is
  unregistered and no span is counted as dropped.\<close>

theorem drain_delivers_everything:
  assumes "tracer_ok g" and "g_enabled g"
  shows "\<exists>h. otel_drain pack g = Some (h, int (length (all_queued g))) \<and> all_queued h = [] \<and>
    g_sink_log h = g_sink_log g @ sink_brackets g (if sink_spans g then map SSpan (all_queued g) else []) \<and>
    (\<not> g_transport g \<or> sent_frames pack (ex_frames (g_export g)) (ex_frames (g_export h)) (map msg_of (all_queued g))) \<and>
    g_threads h = g_threads g \<and> g_tls h = g_tls g \<and> g_dropped_spans h = g_dropped_spans g"
proof -
  from drain_ok[OF assms, of pack] obtain h where h: "otel_drain pack g = Some (h, int (length (all_queued g)))"
    "h = g\<lparr>g_export := g_export h, g_sink_log := g_sink_log h, g_ctx := drained_ctx g\<rparr>"
    "g_sink_log h = g_sink_log g @ sink_brackets g (if sink_spans g then map SSpan (all_queued g) else [])"
    "g_transport g \<longrightarrow> sent_frames pack (ex_frames (g_export g)) (ex_frames (g_export h)) (map msg_of (all_queued g))"
    by blast
  have "all_queued h = []"
    using assms(1) h(2) by (auto simp: tracer_ok_def intro: drained_all)
  moreover have "g_threads h = g_threads g" "g_tls h = g_tls g" "g_dropped_spans h = g_dropped_spans g"
    by (subst h(2), simp)+
  ultimately show ?thesis
    using h(1,3,4) by blast
qed

lemma drain_delivers_everything_witness:
  "\<exists>h. otel_drain (\<lambda>ms. [of_nat (length ms)]) busy_tracer = Some (h, 1) \<and>
     g_sink_log h = [SBegin, SSpan sample_span, SEnd]"
  using drain_delivers_everything[OF busy_tracer(2), of "\<lambda>ms. [of_nat (length ms)]"]
  by (auto simp: busy_queued sink_brackets_def full_sink_def)

text \<open>a thread that unregisters while tracing is live delivers what it still had queued, as a drain
  does, before its context is freed; the other threads and their queues are untouched.\<close>

theorem unregister_delivers_own_spans:
  assumes "tracer_ok g" and "g_enabled g" and "g_tls g t = Some a"
  shows "\<exists>h. otel_thread_unregister pack t g = Some h \<and> tracer_ok h \<and>
    g_sink_log h = g_sink_log g @ sink_brackets g (if sink_spans g then map SSpan (queued g a) else []) \<and>
    (\<not> g_transport g \<or> sent_frames pack (ex_frames (g_export g)) (ex_frames (g_export h)) (map msg_of (queued g a))) \<and>
    g_tls h t = None \<and> g_ctx h a = None \<and> a \<notin> set (g_threads h) \<and>
    (\<forall>b. b = a \<or> queued h b = queued g b) \<and> g_dropped_spans h = g_dropped_spans g"
proof -
  from unregister_ok[OF assms(1,3), of pack] assms(2) obtain h where h: "otel_thread_unregister pack t g = Some h"
    "tracer_ok h" "h = g\<lparr>g_export := g_export h, g_sink_log := g_sink_log h, g_threads := remove1 a (g_threads g),
      g_ctx := (g_ctx g)(a := None), g_tls := (g_tls g)(t := None)\<rparr>"
    "g_sink_log h = g_sink_log g @ sink_brackets g (if sink_spans g then map SSpan (queued g a) else [])"
    "g_transport g \<longrightarrow> sent_frames pack (ex_frames (g_export g)) (ex_frames (g_export h)) (map msg_of (queued g a))"
    by auto
  have f: "g_tls h = (g_tls g)(t := None)" "g_ctx h = (g_ctx g)(a := None)" "g_threads h = remove1 a (g_threads g)"
    "g_dropped_spans h = g_dropped_spans g"
    by (subst h(3), simp)+
  moreover have "a \<notin> set (remove1 a (g_threads g))"
    using assms(1) threads_okD(1) by (simp add: tracer_ok_def)
  ultimately show ?thesis
    using h(1,2,4,5) by (intro exI[of _ h]) (auto simp: queued_def)
qed

lemma unregister_delivers_own_spans_witness:
  "\<exists>h. otel_thread_unregister (\<lambda>ms. []) 0 busy_tracer = Some h \<and>
     g_sink_log h = [SBegin, SSpan sample_span, SEnd] \<and> g_ctx h 0 = None"
  using unregister_delivers_own_spans[OF busy_tracer(2), of 0 0 "\<lambda>ms. []"]
  by (auto simp: busy_tracer(3) sink_brackets_def full_sink_def)

text \<open>C37: while tracing is disabled, leaving threads and shutdown discard what is still queued: the
  contexts are freed with their rings, nothing reaches the sink or the transport (shutdown frees
  the frame buffer and leaves the batch as it was), and the dropped-span counter does not move.\<close>

theorem disabled_teardown_discards:
  assumes "tracer_ok g" and "g_initialized g" and "\<not> g_enabled g" and "g_tls g t = Some a"
  shows "(\<exists>h. otel_thread_unregister pack t g = Some h \<and> g_ctx h a = None \<and> g_sink_log h = g_sink_log g \<and>
       g_export h = g_export g \<and> g_dropped_spans h = g_dropped_spans g) \<and>
    (\<exists>h. otel_shutdown pack g = Some h \<and> g_ctx h a = None \<and> g_sink_log h = g_sink_log g \<and>
       g_export h = (g_export g)\<lparr>ex_otlp := (ex_otlp (g_export g))\<lparr>ot_buf := False\<rparr>\<rparr> \<and> g_dropped_spans h = g_dropped_spans g)"
proof -
  have th: "threads_ok g"
    using assms(1) by (simp add: tracer_ok_def)
  obtain ctx where "g_ctx g a = Some ctx" "a \<in> set (g_threads g)"
    using threads_okD(2,3)[OF th] assms(4) by blast
  then show ?thesis
    using assms(2-4) by (simp add: otel_thread_unregister_def otel_shutdown_def)
qed

lemma disabled_teardown_discards_witness:
  "\<exists>h. queued (otel_set_enabled False busy_tracer) 0 = [sample_span] \<and>
     otel_thread_unregister (\<lambda>ms. []) 0 (otel_set_enabled False busy_tracer) = Some h \<and>
     g_ctx h 0 = None \<and> g_sink_log h = [] \<and> g_dropped_spans h = 0"
proof -
  define g where "g = otel_set_enabled False busy_tracer"
  have "tracer_ok g"
    using tracer_ok_config(3)[OF busy_tracer(2)] by (simp add: g_def)
  moreover have "g_initialized g" "\<not> g_enabled g" "g_tls g 0 = Some 0" "g_sink_log g = []" "g_dropped_spans g = 0"
    "queued g 0 = [sample_span]"
    using busy_tracer(3,4) by (simp_all add: g_def otel_set_enabled_def otel_recompute_enabled_def queued_def)
  ultimately show ?thesis
    using disabled_teardown_discards[of g 0 0 "\<lambda>ms. []"] unfolding g_def by auto
qed

text \<open>while tracing is live with a sink, no span disappears: whatever threads come and go and
  however drains and spans interleave, the spans the sink was given, those still queued and
  those lost add up to the recorded spans that were ended, and the drop counter moves by exactly
  the number of lost spans (modulo its 64 bits).\<close>

theorem spans_are_conserved:
  assumes "steady g" and "client_keeps pack g ops" and "list_all steady_op ops"
  shows "\<exists>h lost. tracer_run pack g ops = Some h \<and>
    span_total h + lost = span_total g + sum_list (map ends_span ops) \<and>
    g_dropped_spans h = g_dropped_spans g + of_nat lost"
  using conserve_run[OF assms] unfolding accounted_def by blast

lemma spans_are_conserved_witness:
  "\<exists>h lost. tracer_run (\<lambda>ms. []) live_tracer [OEnd 0 120 sample_span, ODrain] = Some h \<and>
     span_total h + lost = 1"
proof -
  have "client_keeps (\<lambda>ms. []) live_tracer [OEnd 0 120 sample_span, ODrain]"
    using sample_exportable[of 120] by (simp split: option.splits)
  moreover have "steady live_tracer"
    using tracer_ok_live by (simp add: steady_def)
  moreover have "span_total live_tracer = 0"
    by (simp add: span_total_def all_queued_def live_queued)
  ultimately show ?thesis
    using spans_are_conserved[of live_tracer "\<lambda>ms. []" "[OEnd 0 120 sample_span, ODrain]"] sample_recording
    by auto
qed

text \<open>C36: shutting down while a thread is still registered frees its context but not its
  thread-local pointer: after the library is initialised again that thread cannot register
  (the call returns at once) and the next recorded span it ends follows the freed pointer.\<close>

theorem shutdown_leaves_dangling_context:
  assumes "tracer_ok g" and "g_initialized g" and "g_tls g t = Some a" and "otel_span_recording s"
  shows "\<exists>h. otel_shutdown pack g = Some h \<and>
    otel_thread_register t seed now (fst (otel_init service host True h)) = fst (otel_init service host True h) \<and>
    otel_span_end t now s (fst (otel_init service host True h)) = None"
proof -
  have th: "threads_ok g"
    using assms(1) by (simp add: tracer_ok_def)
  have a: "a \<in> set (g_threads g)"
    using threads_okD(3)[OF th assms(3)] .
  obtain g' n where g': "(if g_enabled g then map_option fst (otel_drain pack g) else Some g) = Some g'"
    "g_threads g' = g_threads g" "g_tls g' = g_tls g"
  proof (cases "g_enabled g")
    case True
    from drain_ok[OF assms(1) True, of pack] obtain h where h: "otel_drain pack g = Some (h, int (length (all_queued g)))"
      "h = g\<lparr>g_export := g_export h, g_sink_log := g_sink_log h, g_ctx := drained_ctx g\<rparr>" by blast
    have "g_threads h = g_threads g" "g_tls h = g_tls g"
      by (subst h(2), simp)+
    then show ?thesis
      using that[of h] h(1) True by simp
  qed (use that[of g] in simp)
  define h where "h = g'\<lparr>g_ctx := (\<lambda>a. if a \<in> set (g_threads g') then None else g_ctx g' a), g_threads := [],
    g_export := (g_export g')\<lparr>ex_otlp := (ex_otlp (g_export g'))\<lparr>ot_buf := False\<rparr>\<rparr>, g_initialized := False, g_enabled := False\<rparr>"
  define r where "r = fst (otel_init service host True h)"
  have "otel_shutdown pack g = Some h"
    using assms(2) g'(1) unfolding otel_shutdown_def h_def by simp
  moreover have r: "g_tls r t = Some a" "g_ctx r a = None"
    using g'(2,3) a assms(3) by (simp_all add: r_def otel_init_def h_def)
  moreover have "otel_thread_register t seed now r = r" "otel_span_end t now s r = None"
    using r assms(4) by (simp_all add: otel_thread_register_def otel_span_end_def)
  ultimately show ?thesis
    unfolding r_def by blast
qed

lemma shutdown_leaves_dangling_context_witness:
  "\<exists>h. otel_shutdown (\<lambda>ms. []) busy_tracer = Some h \<and>
     otel_span_end 0 200 sample_span (fst (otel_init None None True h)) = None"
  using shutdown_leaves_dangling_context[OF busy_tracer(2), where t = 0 and a = 0 and s = sample_span and pack = "\<lambda>ms. []"
      and now = 200 and service = None and host = None] sample_recording by auto


subsection \<open>One request\<close>

lemma root_start_form:
  assumes "sample_always sm"
  shows "\<exists>s1. snd (otel_span_start True sm (Some ctx) s0 name kind now) = otel_span_init s1 name kind now \<and> sp_parent_id s1 = 0"
  using assms by (simp add: otel_span_start_def otel_span_start_root_slow_def otel_rand_unfold Let_def)
    (rule exI[of _ "s0\<lparr>sp_trace_id := tr, sp_span_id := sid, sp_parent_id := 0\<rparr>" for tr sid], simp)

lemma span_end_room:
  assumes ok: "tracer_ok g" and tls: "g_tls g t = Some a" and ctx: "g_ctx g a = Some ctx"
    and room: "length (queued g a) < unat (cx_capacity ctx)" and rec: "otel_span_recording s"
  shows "\<exists>h. otel_span_end t now s g = Some (h, s\<lparr>sp_end_unix_ns := now\<rparr>) \<and> h = g\<lparr>g_ctx := g_ctx h\<rparr> \<and>
    queued h a = queued g a @ [s\<lparr>sp_end_unix_ns := now\<rparr>]"
proof -
  let ?s = "s\<lparr>sp_end_unix_ns := now\<rparr>"
  have th: "threads_ok g"
    using ok by (simp add: tracer_ok_def)
  have wf: "ring_ok ctx"
    using threads_okD(2,3)[OF th] tls ctx by (fastforce simp: ctx_wf_def)
  obtain ctx' b where enq: "ring_enqueue ctx ?s = (ctx', b)" by fastforce
  have b: "b"
    using ring.put_accepts[OF wf, of ?s] enq room ctx by (simp add: queued_def)
  have "otel_span_end t now s g = Some (g\<lparr>g_ctx := (g_ctx g)(a \<mapsto> ctx')\<rparr>, ?s)"
    using rec tls ctx enq b by (simp add: otel_span_end_def)
  moreover have "ring_contents ctx' = ring_contents ctx @ [?s]"
    using ring.put_contents[OF wf, of ?s] enq b by simp
  ultimately show ?thesis
    using ctx by (simp add: queued_def)
qed

lemma queued_in_all: "a \<in> set (g_threads g) \<Longrightarrow> s \<in> set (queued g a) \<Longrightarrow> s \<in> set (all_queued g)"
  by (auto simp: all_queued_def)

lemma start_root_ok:
  assumes ok: "tracer_ok g" and live: "g_enabled g" "sample_always (g_sampler g)" and tls: "g_tls g t = Some a" "g_ctx g a = Some ctx"
  shows "\<exists>g1 s1 ctx1. start_span t s0 name kind now g = Some (g1, otel_span_init s1 name kind now) \<and> sp_parent_id s1 = 0 \<and>
    tracer_ok g1 \<and> g1 = g\<lparr>g_ctx := g_ctx g1\<rparr> \<and> queued g1 = queued g \<and>
    g_ctx g1 a = Some ctx1 \<and> cx_capacity ctx1 = cx_capacity ctx"
proof -
  let ?start = "otel_span_start (g_enabled g) (g_sampler g) (Some ctx) s0 name kind now"
  obtain s1 where s1: "snd ?start = otel_span_init s1 name kind now" "sp_parent_id s1 = 0"
    using root_start_form[OF live(2), of ctx s0 name kind now] live(1) by auto
  from tls_call_ok[OF ok draws_ids_start(1), of t "g_enabled g" "g_sampler g" s0 name kind now] obtain g1 where
    1: "start_span t s0 name kind now g = Some (g1, otel_span_init s1 name kind now)" "tracer_ok g1" "g1 = g\<lparr>g_ctx := g_ctx g1\<rparr>"
    "queued g1 = queued g"
    using tls s1 by (auto simp: start_span_def)
  have "g1 = g\<lparr>g_ctx := (g_ctx g)(a := fst ?start)\<rparr>"
    using 1(1) tls by (auto simp: start_span_def tls_call_def split: prod.splits)
  moreover obtain rs where "fst ?start = Some (ctx\<lparr>cx_randstate := rs\<rparr>)"
    using draws_ids_start(1)[of "g_enabled g" "g_sampler g" s0 name kind now] by (auto simp: draws_ids_def)
  ultimately have "g_ctx g1 a = Some (ctx\<lparr>cx_randstate := rs\<rparr>)" by simp
  then show ?thesis
    using 1 s1(2) by (intro exI[of _ g1] exI[of _ s1]) auto
qed

lemma queued_span_delivered:
  assumes "tracer_ok g" and "g_enabled g" and "s \<in> set (all_queued g)"
  shows "\<exists>h n. otel_drain pack g = Some (h, n) \<and> (sink_spans g \<longrightarrow> SSpan s \<in> set (g_sink_log h)) \<and>
    (g_transport g \<longrightarrow> (\<exists>msgs. sent_frames pack (ex_frames (g_export g)) (ex_frames (g_export h)) msgs \<and> msg_of s \<in> set msgs))"
proof -
  from drain_ok[OF assms(1,2), of pack] obtain h where h: "otel_drain pack g = Some (h, int (length (all_queued g)))"
    "g_sink_log h = g_sink_log g @ sink_brackets g (if sink_spans g then map SSpan (all_queued g) else [])"
    "g_transport g \<longrightarrow> sent_frames pack (ex_frames (g_export g)) (ex_frames (g_export h)) (map msg_of (all_queued g))"
    by blast
  have "SSpan s \<in> set (g_sink_log h)" if "sink_spans g"
    using that h(2) assms(3) by (auto simp: sink_brackets_def sink_spans_def split: option.splits)
  moreover have "msg_of s \<in> set (map msg_of (all_queued g))"
    using assms(3) by simp
  ultimately show ?thesis
    using h(1,3) by blast
qed

text \<open>C1: a request that is traced from start to end reaches the collector: when every trace is
  sampled, the thread is registered and its ring has room, the span started, filled by any
  calls and ended is in a frame of the next drain, as a message that carries exactly what the
  specification says was recorded, with its kind, start and end time and no parent; the sink
  is given the same span.\<close>

theorem request_reaches_collector:
  assumes ok: "tracer_ok g" and live: "g_enabled g" "g_transport g" "sample_always (g_sampler g)"
    and tls: "g_tls g t = Some a" "g_ctx g a = Some ctx" "length (queued g a) < unat (cx_capacity ctx)"
    and args: "str_arg_ok name" "list_all call_ok calls"
  shows "\<exists>g1 s g2 s' g3 n msgs. start_span t s0 name kind now g = Some (g1, s) \<and>
    otel_span_end t fin (fst (span_run s calls)) g1 = Some (g2, s') \<and> otel_drain pack g2 = Some (g3, n) \<and>
    sent_frames pack (ex_frames (g_export g)) (ex_frames (g_export g3)) msgs \<and>
    span_to_msg s' (fst (spec_run (spec_init name) calls)) \<in> set msgs \<and>
    sp_kind s' = kind \<and> sp_start_unix_ns s' = now \<and> sp_end_unix_ns s' = fin \<and> sp_parent_id s' = 0 \<and>
    (\<not> sink_spans g \<or> SSpan s' \<in> set (g_sink_log g3))"
proof -
  from start_root_ok[OF ok live(1,3) tls(1,2), of s0 name kind now] obtain g1 s1 ctx1 where
    1: "start_span t s0 name kind now g = Some (g1, otel_span_init s1 name kind now)" "sp_parent_id s1 = 0" "tracer_ok g1"
    "g1 = g\<lparr>g_ctx := g_ctx g1\<rparr>" "queued g1 = queued g" "g_ctx g1 a = Some ctx1" "cx_capacity ctx1 = cx_capacity ctx"
    by blast
  define r where "r = fst (span_run (otel_span_init s1 name kind now) calls)"
  define s' where "s' = r\<lparr>sp_end_unix_ns := fin\<rparr>"
  have "span_meta r = span_meta (otel_span_init s1 name kind now)"
    by (simp add: r_def span_run_meta)
  then have fields: "sp_flags r = 1" "sp_kind r = kind" "sp_start_unix_ns r = now" "sp_parent_id r = 0"
    using 1(2) by (simp_all add: span_meta_def)
  have rec: "recorded_span s' (fst (spec_run (spec_init name) calls))"
    unfolding recorded_span_def s'_def r_def using args by blast
  have exp: "exportable_span s'" and msg: "msg_of s' = span_to_msg s' (fst (spec_run (spec_init name) calls))"
    using recorded_exportable[OF rec] by (auto simp: exportable_span_def msg_of_def exportable_def)
  have rr: "otel_span_recording r"
    using fields(1) by (simp add: otel_span_recording_def)
  have f1: "g_tls g1 t = Some a"
    by (subst 1(4)) (simp add: tls(1))
  from span_end_room[OF 1(3) f1 1(6) _ rr, of fin] tls(3) 1(5,7) obtain g2 where
    2: "otel_span_end t fin r g1 = Some (g2, s')" "g2 = g1\<lparr>g_ctx := g_ctx g2\<rparr>" "queued g2 a = queued g1 a @ [s']"
    by (auto simp: s'_def)
  have same: "g2 = g\<lparr>g_ctx := g_ctx g2\<rparr>"
    by (subst 2(2), subst 1(4)) simp
  have ok2: "tracer_ok g2"
    using span_end_ok[OF 1(3), where s = r and now = fin and t = t] exp 2(1) rr by (auto simp: s'_def)
  have f2: "g_enabled g2 = g_enabled g" "g_transport g2 = g_transport g" "g_threads g2 = g_threads g" "g_export g2 = g_export g"
    "sink_spans g2 = sink_spans g"
    by (subst same, simp)+
  have "a \<in> set (g_threads g)"
    using ok tls(1) threads_okD(3) by (simp add: tracer_ok_def)
  then have "s' \<in> set (all_queued g2)"
    using queued_in_all[of a g2 s'] 2(3) f2(3) by simp
  from queued_span_delivered[OF ok2 _ this, of pack] show ?thesis
    using 1(1) 2(1) fields f2 live msg unfolding r_def s'_def by fastforce
qed

lemma request_reaches_collector_witness:
  "\<exists>g1 s g2 s' g3 n. start_span 0 zero_span sample_name 2 99 live_tracer = Some (g1, s) \<and>
    otel_span_end 0 120 (fst (span_run s sample_calls)) g1 = Some (g2, s') \<and>
    otel_drain (\<lambda>ms. [of_nat (length ms)]) g2 = Some (g3, n) \<and> SSpan s' \<in> set (g_sink_log g3)"
  using request_reaches_collector[OF tracer_ok_live, of 0 0 _ sample_name sample_calls zero_span 2 99 120 "\<lambda>ms. [of_nat (length ms)]"]
    live_ctx live_queued unat_pow2[of 11] by (fastforce simp: ctx_new_def)

text \<open>switching tracing off stops new root traces at once, but a request in flight still
  completes: its span is queued when it ends, drains leave it alone, and the first drain
  after tracing is switched on again delivers it.\<close>

theorem disable_keeps_spans_in_flight:
  assumes ok: "tracer_ok g" and live: "g_enabled g" "sink_spans g"
    and tls: "g_tls g t = Some a" "g_ctx g a = Some ctx" "length (queued g a) < unat (cx_capacity ctx)"
    and s: "otel_span_recording s" "exportable_span (s\<lparr>sp_end_unix_ns := now\<rparr>)"
  shows "\<exists>h g3 n. \<not> otel_span_recording (snd (otel_span_start (g_enabled (otel_set_enabled False g)) sm (Some ctx) s0 name kind later)) \<and>
    otel_span_end t now s (otel_set_enabled False g) = Some (h, s\<lparr>sp_end_unix_ns := now\<rparr>) \<and>
    otel_drain pack h = Some (h, 0) \<and>
    otel_drain pack (otel_set_enabled True h) = Some (g3, n) \<and> SSpan (s\<lparr>sp_end_unix_ns := now\<rparr>) \<in> set (g_sink_log g3)"
proof -
  define d where "d = otel_set_enabled False g"
  have dok: "tracer_ok d"
    unfolding d_def by (rule tracer_ok_config(3)[OF ok])
  have d: "g_tls d t = Some a" "g_ctx d a = Some ctx" "queued d = queued g" "\<not> g_enabled d" "sink_spans d"
    "g_threads d = g_threads g"
    using tls live(2)
    by (simp_all add: d_def otel_set_enabled_def otel_recompute_enabled_def queued_def sink_spans_def fun_eq_iff
        split: option.splits)
  from span_end_room[OF dok d(1,2) _ s(1), of now] tls(3) d(3) obtain h where
    h: "otel_span_end t now s d = Some (h, s\<lparr>sp_end_unix_ns := now\<rparr>)" "h = d\<lparr>g_ctx := g_ctx h\<rparr>"
    "queued h a = queued d a @ [s\<lparr>sp_end_unix_ns := now\<rparr>]" by auto
  have okh: "tracer_ok h"
    using span_end_ok[OF dok s(2,1), where t = t] h(1) by auto
  have fh: "\<not> g_enabled h" "g_threads h = g_threads g" "g_initialized h = g_initialized g" "g_sink_present h = g_sink_present g"
    using d by (subst h(2), simp add: d_def otel_set_enabled_def otel_recompute_enabled_def)+
  have skh: "sink_spans h"
    using d(5) by (subst h(2)) simp
  define e where "e = otel_set_enabled True h"
  have "g_initialized g" "g_sink_present g"
    using ok live by (auto simp: tracer_ok_def sink_spans_def split: option.splits)
  have eok: "tracer_ok e"
    unfolding e_def by (rule tracer_ok_config(3)[OF okh])
  have e: "g_enabled e" "sink_spans e" "all_queued e = all_queued h"
    using fh skh \<open>g_initialized g\<close> \<open>g_sink_present g\<close>
    by (simp_all add: e_def otel_set_enabled_def otel_recompute_enabled_def sink_spans_def all_queued_def queued_def
        cong: map_cong split: option.splits)
  have "a \<in> set (g_threads g)"
    using ok tls(1) threads_okD(3) by (simp add: tracer_ok_def)
  then have "s\<lparr>sp_end_unix_ns := now\<rparr> \<in> set (all_queued e)"
    using queued_in_all[of a h] h(3) fh(2) e(3) by simp
  from queued_span_delivered[OF eok e(1) this, of pack] e(2) obtain g3 n where
    3: "otel_drain pack e = Some (g3, n)" "SSpan (s\<lparr>sp_end_unix_ns := now\<rparr>) \<in> set (g_sink_log g3)"
    by blast
  moreover have "\<not> otel_span_recording (snd (otel_span_start (g_enabled d) sm (Some ctx) s0 name kind later))"
    using d(4) by (simp add: otel_span_start_def)
  moreover have "otel_drain pack h = Some (h, 0)"
    using fh(1) by (simp add: otel_drain_def)
  ultimately show ?thesis
    using h(1) 3 unfolding d_def e_def by blast
qed

lemma disable_keeps_spans_in_flight_witness:
  "\<exists>h g3 n. otel_span_end 0 120 sample_span (otel_set_enabled False live_tracer) = Some (h, sample_span) \<and>
    otel_drain (\<lambda>ms. []) (otel_set_enabled True h) = Some (g3, n) \<and> SSpan sample_span \<in> set (g_sink_log g3)"
  using disable_keeps_spans_in_flight[OF tracer_ok_live, of 0 0 _ sample_span 120 _ zero_span None 0 0 "\<lambda>ms. []"]
    live_ctx live_queued unat_pow2[of 11] sample_recording sample_exportable[of 120] by (fastforce simp: ctx_new_def)

end
