(* ===== verification/Otel_Sqlite_Theorems.thy ===== *)
theory Otel_Sqlite_Theorems
  imports Otel_Sqlite_Refine Otel_Tracer_Theorems
begin

text \<open>
  The properties of the SQLite sink.  Each takes the library as a parameter with its contract
  \<open>sqlite_store\<close> (and \<open>no_faults\<close> where no statement fails); the witnesses use the in-memory
  store.
\<close>

subsection \<open>A concrete sink\<close>

definition fresh_sink :: "u64 \<Rightarrow> table_db \<Rightarrow> table_db sqlite_state" where
  "fresh_sink cap db = \<lparr>sl_db = Some db, sl_stmts = 4, sl_cur_span = 0, sl_in_txn = False, sl_commits = 0,
     sl_max_spans = cap, sl_have_thread = True, sl_running = True, sl_interval_ms = 250\<rparr>"

abbreviation sound_lib :: "table_db sqlite_lib" where
  "sound_lib \<equiv> table_lib (\<lambda>_. False)"

lemma sound_store: "sqlite_store (table_lib f) table_work td_saved table_txn"
  by (rule table.sqlite_store_axioms)

definition opened_db :: table_db where
  "opened_db = fst (table_step (\<lambda>_. False) empty_db QBegin)"

lemma opened_db [simp]: "table_txn opened_db" "table_work opened_db = no_tables" "td_saved opened_db = no_tables"
  by (simp_all add: opened_db_def table_step_def empty_db_def table_txn_def table_work_def)

lemma empty_db [simp]: "\<not> table_txn empty_db" "table_work empty_db = no_tables" "td_saved empty_db = no_tables"
  by (simp_all add: empty_db_def table_txn_def table_work_def)

lemma no_tables [simp]: "refs_ok no_tables" "span_ids no_tables = []" "event_ids no_tables = []"
  by (simp_all add: refs_ok_def span_ids_def event_ids_def no_tables_def)

lemma sample_views: "span_view_of sample_span = Some sample_view"
  using recorded_exportable[OF sample_recorded] by (simp add: exportable_def)

lemma sample_view_value: "sample_view = \<lparr>vw_name = [71, 69, 84], vw_status = 0, vw_message = [], vw_attrs = [([107], VI64 7)],
       vw_events = [\<lparr>evw_name = [101], evw_time = 5, evw_attrs = [([120], VStr [121])], evw_dropped = 0\<rparr>],
       vw_dropped_attrs = 0, vw_dropped_events = 0, vw_used = 96\<rparr>"
  by (simp add: sample_view_def sample_eval)

lemma sample_fits: "rows_fit (add_span service sample_span no_tables)"
  using sample_views by (simp add: sample_view_value add_span_def add_event_def rows_fit_def ids_fit_def Let_def next_id_def
      span_ids_def event_ids_def no_tables_def)

subsection \<open>Reading back\<close>

lemma add_event_read_other:
  assumes "refs_ok t" and "i \<noteq> sid"
  shows "read_events (add_event sid w t) i = read_events t i"
proof -
  define eid where "eid = next_id (event_ids t)"
  have "eid \<notin> set (event_ids t)"
    unfolding eid_def by (rule next_id_fresh)
  then have "e \<noteq> eid" if "(e, r) \<in> set (t_events t)" for e r
    using that by (force simp: event_ids_def)
  then show ?thesis
    using assms(2) unfolding read_events_def add_event_def Let_def eid_def[symmetric]
    by (auto simp: event_row_of_def read_attrs_other intro!: map_cong)
qed

lemma add_events_read_other:
  "refs_ok t \<Longrightarrow> sid \<in> set (span_ids t) \<Longrightarrow> i \<noteq> sid \<Longrightarrow> read_events (fold (add_event sid) ws t) i = read_events t i"
proof (induction ws arbitrary: t)
  case (Cons w ws)
  then show ?case
    using add_event_refs[of t sid w] add_event_read_other[of t i sid w] by simp
qed simp

lemma add_span_read_other:
  assumes "refs_ok t" and "i \<in> set (span_ids t)"
  shows "read_attrs i (t_attrs (add_span service s t)) = read_attrs i (t_attrs t)"
    and "read_events (add_span service s t) i = read_events t i"
proof -
  have ne: "i \<noteq> next_id (span_ids t)"
    using assms(2) next_id_fresh(1) by metis
  then show "read_attrs i (t_attrs (add_span service s t)) = read_attrs i (t_attrs t)"
    by (simp add: read_attrs_other)
  define t1 where "t1 = t\<lparr>t_spans := t_spans t @ [(next_id (span_ids t), span_row_of service s)],
    t_attrs := t_attrs t @ map (kv_row (next_id (span_ids t))) (vw_attrs (the (span_view_of s)))\<rparr>"
  have "refs_ok t1" "next_id (span_ids t) \<in> set (span_ids t1)"
    using add_span_row_refs[OF assms(1)] by (simp_all add: t1_def span_ids_def)
  then have "read_events (add_span service s t) i = read_events t1 i"
    using add_events_read_other ne by (simp add: add_span_def Let_def t1_def)
  then show "read_events (add_span service s t) i = read_events t i"
    by (simp add: read_events_def t1_def)
qed

text \<open>C11: storing a recorded span and selecting its rows gives back what was recorded: the ids
  (through their hexadecimal form), name and status, every attribute with its type and value
  and every event with its time and attributes, in order; spans stored before read as before,
  and nothing is committed yet.\<close>

theorem stored_span_reads_back:
  assumes store: "sqlite_store lib work saved txn" "no_faults lib txn"
    and S: "sl_db S = Some db" "txn db" "sl_in_txn S"
    and t: "refs_ok (work db)" "rows_fit (add_span service s (work db))"
    and v: "span_view_of s = Some v"
  shows "\<exists>S' db' sid row. otel_sqlite_span lib service s S = Some S' \<and> sl_db S' = Some db' \<and>
    map_of (t_spans (work db')) sid = Some row \<and> sid \<notin> set (span_ids (work db)) \<and>
    unhex (sr_trace_id row) = Some (sp_trace_id s) \<and> unhex (sr_span_id row) = Some (le_bytes 8 (sp_span_id s)) \<and>
    sr_name row = vw_name v \<and> sr_status_code row = uint (vw_status v) \<and> sr_status_message row = vw_message v \<and>
    read_attrs sid (t_attrs (work db')) = map plain_kv (vw_attrs v) \<and>
    read_events (work db') sid = map (\<lambda>w. (evw_name w, evw_time w, map plain_kv (evw_attrs w))) (vw_events v) \<and>
    (\<forall>i \<in> set (span_ids (work db)). read_attrs i (t_attrs (work db')) = read_attrs i (t_attrs (work db)) \<and>
       read_events (work db') i = read_events (work db) i) \<and>
    refs_ok (work db') \<and> saved db' = saved db"
proof -
  have h: "sqlite_store.holds work saved txn S True (work db) (saved db)"
    using S by (simp add: sqlite_store.holds_def[OF store(1)])
  from sqlite_store.span_step[OF store h S(3) v t(2)] obtain db' c where
    r: "otel_sqlite_span lib service s S = Some (S\<lparr>sl_db := Some db', sl_cur_span := c\<rparr>)"
    "sqlite_store.holds work saved txn (S\<lparr>sl_db := Some db'\<rparr>) True (add_span service s (work db)) (saved db)" by blast
  then have w: "work db' = add_span service s (work db)" "saved db' = saved db"
    by (simp_all add: sqlite_store.holds_def[OF store(1)])
  have f: "otel_span_name s = vw_name v" "sp_status s = vw_status v" "otel_span_status_message s = vw_message v"
    using v by (auto simp: span_view_of_def split: bind_splits)
  show ?thesis
    using r(1) add_span_read[OF t(1) v] add_span_read_other[OF t(1)] add_span_refs[OF t(1)] next_id_fresh(1)[of "span_ids (work db)"]
    by (intro exI[of _ "S\<lparr>sl_db := Some db', sl_cur_span := c\<rparr>"] exI[of _ db'] exI[of _ "next_id (span_ids (work db))"]
        exI[of _ "span_row_of service s"]) (simp add: w unhex_hex span_row_of_def f)
qed


lemma stored_span_reads_back_witness:
  "\<exists>S' db' sid. otel_sqlite_span sound_lib [115] sample_span ((fresh_sink 0 opened_db)\<lparr>sl_in_txn := True\<rparr>) = Some S' \<and>
    sl_db S' = Some db' \<and> read_attrs sid (t_attrs (table_work db')) = [([107], VI64 7)] \<and>
    read_events (table_work db') sid = [([101], 5, [([120], VStr [121])])]"
  using stored_span_reads_back[OF sound_store table_no_faults, of "(fresh_sink 0 opened_db)\<lparr>sl_in_txn := True\<rparr>" opened_db
      "[115]" sample_span sample_view] sample_fits sample_views
  by (auto simp: fresh_sink_def sample_view_value plain_kv_def)

subsection \<open>Drains as transactions\<close>

lemma sink_of_store:
  assumes "sqlite_store lib work saved txn" and "no_faults lib txn"
  shows "transactional_sink (otel_sqlite_begin lib) (otel_sqlite_span lib service) (otel_sqlite_end lib)
    (sqlite_store.sl_idle work saved txn) (sqlite_store.sl_opened work saved txn)
    (sqlite_store.sl_durable saved) (sqlite_store.sl_pending work) (add_span service) settled rows_fit"
  using sqlite_store.sqlite_sink[OF assms] .

interpretation table_sink: transactional_sink "otel_sqlite_begin sound_lib" "otel_sqlite_span sound_lib service" "otel_sqlite_end sound_lib"
    "table.sl_idle" "table.sl_opened" "table.sl_durable" "table.sl_pending" "add_span service" settled rows_fit
  for service :: "byte list"
  by (rule sink_of_store[OF sound_store table_no_faults])

lemma idle_iff:
  assumes "sqlite_store lib work saved txn"
  shows "sqlite_store.sl_idle work saved txn S \<longleftrightarrow>
    (\<exists>db. sl_db S = Some db \<and> \<not> txn db) \<and> sint (sl_max_spans S) = uint (sl_max_spans S)"
  by (auto simp: sqlite_store.sl_idle_def[OF assms] sqlite_store.holds_def[OF assms])

lemma durable_eq: "sqlite_store lib work saved txn \<Longrightarrow> sl_db S = Some db \<Longrightarrow> sqlite_store.sl_durable saved S = saved db"
  by (simp add: sqlite_store.sl_durable_def)

lemma cap_small:
  assumes "(w :: u64) < 2 ^ 63"
  shows "sint w = uint w"
proof -
  have "uint w < 2 ^ 63"
    using assms by (simp add: word_less_def)
  moreover have "- (2 ^ 63) \<le> uint w"
    by (rule order.trans[of _ 0]) simp_all
  ultimately show ?thesis
    by (simp add: sint_uint signed_take_bit_int_eq_self)
qed

lemma queued_exportable: "tracer_ok g \<Longrightarrow> \<forall>s \<in> set (all_queued g). exportable_span s"
  by (fastforce simp: tracer_ok_def threads_ok_def all_queued_def queued_def ctx_wf_def)

text \<open>C12: with the sink attached to the tracer, a drain is one transaction: up to the end callback
  other connections see the database as it was before the drain, and after it they see the
  rows of all drained spans, in the order they were drained, with retention applied on every
  64th commit.\<close>

theorem drain_is_one_transaction:
  assumes store: "sqlite_store lib work saved txn" "no_faults lib txn"
    and S: "sl_db S = Some db" "\<not> txn db" "sl_max_spans S < 2 ^ 63"
    and g: "tracer_ok g" "g_enabled g" "g_sink g = Some sk" "sk_begin sk" "sk_span sk" "sk_end sk"
    and fit: "rows_fit (fold (add_span service) (all_queued g) (saved db))"
  shows "\<exists>h n S1 db1 S2 db2. otel_drain pack g = Some (h, n) \<and>
    g_sink_log h = g_sink_log g @ (SBegin # map SSpan (all_queued g)) @ [SEnd] \<and>
    sink_run (otel_sqlite_begin lib) (otel_sqlite_span lib service) (otel_sqlite_end lib)
      (SBegin # map SSpan (all_queued g)) S = Some S1 \<and> sl_db S1 = Some db1 \<and> saved db1 = saved db \<and>
    otel_sqlite_end lib S1 = Some S2 \<and> sl_db S2 = Some db2 \<and> \<not> txn db2 \<and>
    saved db2 = settled S (fold (add_span service) (all_queued g) (saved db))"
proof -
  note cap = cap_small[OF S(3)]
  note ts = sink_of_store[OF store, where service = service]
  have "g_sink_present g"
    using g(1,3) by (simp add: tracer_ok_def)
  then have sk: "sink_spans g" "sink_brackets g (map SSpan (all_queued g)) = pass (all_queued g)"
    using g sink_brackets_pass[of g sk] by (simp_all add: sink_spans_def)
  from drain_ok[OF g(1,2), of pack] sk obtain h where
    1: "otel_drain pack g = Some (h, int (length (all_queued g)))" "g_sink_log h = g_sink_log g @ pass (all_queued g)"
    by auto
  have idle: "sqlite_store.sl_idle work saved txn S"
    using S cap by (simp add: idle_iff[OF store(1)])
  have d: "sqlite_store.sl_durable saved S = saved db"
    by (rule durable_eq[OF store(1) S(1)])
  have ok: "rows_fit (fold (add_span service) (all_queued g) (sqlite_store.sl_durable saved S))"
    using fit d by simp
  from transactional_sink.pass_not_durable_before_end[OF ts idle queued_exportable[OF g(1)] ok] obtain S1 where
    2: "sink_run (otel_sqlite_begin lib) (otel_sqlite_span lib service) (otel_sqlite_end lib)
      (SBegin # map SSpan (all_queued g)) S = Some S1" "sqlite_store.sl_opened work saved txn S1"
    "sqlite_store.sl_durable saved S1 = saved db" using d by metis
  obtain db1 where db1: "sl_db S1 = Some db1"
    using 2(2) by (auto simp: sqlite_store.sl_opened_def[OF store(1)] sqlite_store.holds_def[OF store(1)])
  from transactional_sink.pass_atomic[OF ts idle queued_exportable[OF g(1)] ok] obtain S2 where
    3: "sink_run (otel_sqlite_begin lib) (otel_sqlite_span lib service) (otel_sqlite_end lib) (pass (all_queued g)) S = Some S2"
    "sqlite_store.sl_idle work saved txn S2"
    "sqlite_store.sl_durable saved S2 = settled S (fold (add_span service) (all_queued g) (saved db))" using d by metis
  have p: "pass (all_queued g) = (SBegin # map SSpan (all_queued g)) @ [SEnd]"
    by (simp add: pass_def)
  have "otel_sqlite_end lib S1 = Some S2"
    using 3(1) 2(1) unfolding p sink_run_append by (auto split: bind_splits)
  moreover obtain db2 where "sl_db S2 = Some db2" "\<not> txn db2"
    using 3(2) by (auto simp: idle_iff[OF store(1)])
  ultimately show ?thesis
    using 1 2(1,3) 3(3) db1 durable_eq[OF store(1)] p by metis
qed

lemma drain_is_one_transaction_witness:
  "\<exists>h n S1 S2 db2. otel_drain (\<lambda>ms. []) busy_tracer = Some (h, n) \<and>
    sink_run (otel_sqlite_begin sound_lib) (otel_sqlite_span sound_lib [115]) (otel_sqlite_end sound_lib)
      [SBegin, SSpan sample_span] (fresh_sink 0 empty_db) = Some S1 \<and>
    otel_sqlite_end sound_lib S1 = Some S2 \<and> sl_db S2 = Some db2 \<and> td_saved db2 = add_span [115] sample_span no_tables"
proof -
  have "rows_fit (fold (add_span [115]) (all_queued busy_tracer) (td_saved empty_db))"
    using sample_fits by (simp add: busy_queued)
  from drain_is_one_transaction[OF sound_store table_no_faults _ _ _ busy_tracer(2) _ _ _ _ _ this,
      of "fresh_sink 0 empty_db" full_sink "\<lambda>ms. []"] show ?thesis
    by (auto simp: fresh_sink_def full_sink_def busy_queued settled_def)
qed

subsection \<open>Retention\<close>

lemma prune_store:
  assumes store: "sqlite_store lib work saved txn" "no_faults lib txn"
    and S: "sl_db S = Some db" "\<not> txn db" "sint (sl_max_spans S) = uint (sl_max_spans S)"
    and fit: "ids_fit (span_ids (saved db))"
  shows "\<exists>db'. otel_sqlite_prune lib S = Some (S\<lparr>sl_db := Some db'\<rparr>) \<and> \<not> txn db' \<and>
    saved db' = retain (sl_max_spans S) (saved db)"
proof -
  have "work db = saved db"
    using sqlite_store.autocommit[OF store(1) S(2)] .
  then have h: "sqlite_store.holds work saved txn S False (saved db) (saved db)"
    using S by (simp add: sqlite_store.holds_def[OF store(1)])
  show ?thesis
    using sqlite_store.prune_step[OF store h fit S(3)] by (auto simp: sqlite_store.holds_def[OF store(1)])
qed

lemma card_above:
  fixes ids :: "int list"
  assumes "distinct ids" and "ids \<noteq> []" and "0 \<le> n"
  shows "int (length (filter (\<lambda>i. Max (set ids) - n < i) ids)) \<le> n"
proof -
  have "set (filter (\<lambda>i. Max (set ids) - n < i) ids) \<subseteq> {Max (set ids) - n <.. Max (set ids)}"
    by auto
  then have "card (set (filter (\<lambda>i. Max (set ids) - n < i) ids)) \<le> card {Max (set ids) - n <.. Max (set ids)}"
    by (rule card_mono[rotated]) simp
  moreover have "card (set (filter (\<lambda>i. Max (set ids) - n < i) ids)) = length (filter (\<lambda>i. Max (set ids) - n < i) ids)"
    using assms(1) by (intro distinct_card) simp
  ultimately show ?thesis
    using assms(3) by simp
qed

lemma pos_ids_length:
  assumes "distinct ids" and "ids_fit ids" and "ids \<noteq> []"
  shows "int (length ids) \<le> Max (set ids)"
proof -
  have "set ids \<subseteq> {0 <.. Max (set ids)}"
    using assms(2) by (auto simp: ids_fit_def)
  then have "card (set ids) \<le> card {0 <.. Max (set ids)}"
    by (rule card_mono[rotated]) simp
  moreover have "0 \<le> Max (set ids)"
    using assms(2,3) by (simp add: ids_fit_def Max_ge_iff) (meson less_imp_le list.set_sel(1))
  ultimately show ?thesis
    using assms(1) by (simp add: distinct_card)
qed

lemma drop_through_reads:
  assumes t: "refs_ok t" and i: "i \<in> set (span_ids (drop_through c t))"
  shows "read_attrs i (t_attrs (drop_through c t)) = read_attrs i (t_attrs t)"
    and "read_events (drop_through c t) i = read_events t i"
proof -
  have ci: "c < i"
    using i by (simp add: span_ids_drop)
  then show "read_attrs i (t_attrs (drop_through c t)) = read_attrs i (t_attrs t)"
    unfolding read_attrs_def by (auto simp: drop_through_tables(2) intro!: arg_cong[where f = "map _"] filter_cong)
  have own: "read_attrs e (t_event_attrs (drop_through c t)) = read_attrs e (t_event_attrs t)"
    if e: "(e, r) \<in> set (t_events t)" "er_span r = i" for e r
  proof -
    have "distinct (map fst (t_events t))"
      using t by (simp add: refs_ok_def event_ids_def)
    then have "snd x = r" if "x \<in> set (t_events t)" "fst x = e" for x
      using e(1) that by (metis eq_key_imp_eq_value prod.collapse)
    then have "e \<notin> fst ` set (filter (\<lambda>e. er_span (snd e) \<le> c) (t_events t))"
      using e(2) ci by auto
    then show ?thesis
      unfolding read_attrs_def drop_through_tables by (auto intro!: arg_cong[where f = "map _"] filter_cong)
  qed
  have "filter (\<lambda>x. er_span (snd x) = i) (filter (\<lambda>e. c < er_span (snd e)) (t_events t)) =
      filter (\<lambda>x. er_span (snd x) = i) (t_events t)"
    using ci by (auto intro!: filter_cong)
  then show "read_events (drop_through c t) i = read_events t i"
    unfolding read_events_def using own by (auto simp: drop_through_tables(3) intro!: map_cong)
qed

lemma drop_through_all:
  assumes t: "refs_ok t" and below: "\<And>i. i \<in> set (span_ids t) \<Longrightarrow> i \<le> c"
  shows "drop_through c t = no_tables"
proof (rule tables.equality)
  have ev: "er_span (snd x) \<le> c" if "x \<in> set (t_events t)" for x
    using t that below by (simp add: refs_ok_def)
  show "t_spans (drop_through c t) = t_spans no_tables"
    using below by (auto simp: drop_through_tables no_tables_def span_ids_def filter_empty_conv not_less)
  show "t_attrs (drop_through c t) = t_attrs no_tables"
    using below t by (auto simp: drop_through_tables no_tables_def refs_ok_def filter_empty_conv not_less)
  show "t_events (drop_through c t) = t_events no_tables"
    using ev by (auto simp: drop_through_tables no_tables_def filter_empty_conv not_less)
  have "set (filter (\<lambda>e. er_span (snd e) \<le> c) (t_events t)) = set (t_events t)"
    using ev by auto
  then show "t_event_attrs (drop_through c t) = t_event_attrs no_tables"
    using t by (auto simp: drop_through_tables no_tables_def refs_ok_def event_ids_def filter_empty_conv simp del: set_filter)
qed simp

text \<open>C26: with a cap below \<open>2 ^ 63\<close> the prune leaves at most that many spans, the newest ones; a
  span that stays keeps its attributes and events, and all rows of the others are gone.\<close>

theorem prune_keeps_the_newest:
  assumes store: "sqlite_store lib work saved txn" "no_faults lib txn"
    and S: "sl_db S = Some db" "\<not> txn db" "sl_max_spans S < 2 ^ 63" "sl_max_spans S \<noteq> 0"
    and t: "refs_ok (saved db)" "ids_fit (span_ids (saved db))"
  shows "\<exists>db'. otel_sqlite_prune lib S = Some (S\<lparr>sl_db := Some db'\<rparr>) \<and> refs_ok (saved db') \<and>
    int (length (t_spans (saved db'))) \<le> uint (sl_max_spans S) \<and>
    (\<exists>c. t_spans (saved db') = filter (\<lambda>x. c < fst x) (t_spans (saved db))) \<and>
    (\<forall>i \<in> set (span_ids (saved db')). read_attrs i (t_attrs (saved db')) = read_attrs i (t_attrs (saved db)) \<and>
       read_events (saved db') i = read_events (saved db) i)"
proof -
  note cap = cap_small[OF S(3)]
  define t0 where "t0 = saved db"
  define n where "n = uint (sl_max_spans S)"
  from prune_store[OF store S(1,2) cap t(2)] obtain db' where
    p: "otel_sqlite_prune lib S = Some (S\<lparr>sl_db := Some db'\<rparr>)" "saved db' = retain (sl_max_spans S) t0"
    by (auto simp: t0_def)
  have n: "0 \<le> n" by (simp add: n_def)
  have refs: "refs_ok (saved db')"
    using p(2) retain_refs t(1) by (simp add: t0_def)
  show ?thesis
  proof (cases "span_ids t0 = [] \<or> Max (set (span_ids t0)) - n \<le> 0")
    case True
    then have same: "saved db' = t0"
      using p(2) unfolding retain_def n_def by (simp only: if_True simp_thms)
    have "int (length (span_ids t0)) \<le> n"
    proof (cases "span_ids t0 = []")
      case False
      then have "int (length (span_ids t0)) \<le> Max (set (span_ids t0))"
        using pos_ids_length t by (simp add: t0_def refs_ok_def)
      then show ?thesis
        using True False by linarith
    qed (simp add: n)
    moreover have "t_spans t0 = filter (\<lambda>x. 0 < fst x) (t_spans t0)"
      using t(2) by (auto simp: t0_def ids_fit_def span_ids_def intro!: filter_True[symmetric])
    ultimately show ?thesis
      using p(1) refs same by (intro exI[of _ db']) (auto simp: n_def span_ids_def t0_def)
  next
    case False
    define c where "c = Max (set (span_ids t0)) - n"
    have d: "saved db' = drop_through c t0"
      using p(2) False S(4) unfolding retain_def n_def c_def by (simp only: if_False simp_thms)
    have "int (length (span_ids (drop_through c t0))) \<le> n"
      using card_above[of "span_ids t0" n] False n t(1) by (simp add: span_ids_drop c_def t0_def refs_ok_def)
    then have "int (length (t_spans (saved db'))) \<le> n"
      by (simp add: d span_ids_def)
    moreover have "read_attrs i (t_attrs (drop_through c t0)) = read_attrs i (t_attrs t0) \<and>
        read_events (drop_through c t0) i = read_events t0 i" if "i \<in> set (span_ids (drop_through c t0))" for i
      using drop_through_reads[OF _ that] t(1) by (simp add: t0_def)
    ultimately show ?thesis
      using p(1) refs by (intro exI[of _ db']) (auto simp: d n_def t0_def drop_through_tables(1) span_ids_def)
  qed
qed


definition three_db :: table_db where
  "three_db = empty_db\<lparr>td_saved := fold (add_span []) [sample_span, sample_span, sample_span] no_tables\<rparr>"

lemma three_db [simp]: "\<not> table_txn three_db" "refs_ok (td_saved three_db)" "span_ids (td_saved three_db) = [1, 2, 3]"
  by (simp_all add: three_db_def empty_db_def table_txn_def add_span_refs next_id_def)

lemma prune_keeps_the_newest_witness:
  "\<exists>db'. otel_sqlite_prune sound_lib (fresh_sink 1 three_db) = Some ((fresh_sink 1 three_db)\<lparr>sl_db := Some db'\<rparr>) \<and>
     length (t_spans (td_saved db')) \<le> 1 \<and> refs_ok (td_saved db')"
proof -
  have "ids_fit (span_ids (td_saved three_db))"
    by (simp add: ids_fit_def)
  moreover have "sl_db (fresh_sink 1 three_db) = Some three_db" "sl_max_spans (fresh_sink 1 three_db) = 1"
    by (simp_all add: fresh_sink_def)
  ultimately show ?thesis
    using prune_keeps_the_newest[OF sound_store table_no_faults, of "fresh_sink 1 three_db" three_db] by auto
qed

text \<open>a cap of \<open>2 ^ 63\<close> or more (a caller's way to say \<open>unlimited\<close>) turns negative in the cast
  to \<^verbatim>\<open>sqlite3_int64\<close>: the cutoff then lies above the newest span and the prune deletes every row.\<close>

theorem huge_cap_deletes_everything:
  assumes store: "sqlite_store lib work saved txn" "no_faults lib txn"
    and S: "sl_db S = Some db" "\<not> txn db" "sint (sl_max_spans S) < 0"
    and t: "refs_ok (saved db)" "ids_fit (span_ids (saved db))" "span_ids (saved db) \<noteq> []"
      "Max (set (span_ids (saved db))) - sint (sl_max_spans S) < 2 ^ 63"
  shows "\<exists>db'. otel_sqlite_prune lib S = Some (S\<lparr>sl_db := Some db'\<rparr>) \<and> saved db' = no_tables"
proof -
  define t0 where "t0 = saved db"
  define m where "m = Max (set (span_ids t0))"
  define c where "c = m - sint (sl_max_spans S)"
  have w: "work db = t0"
    using sqlite_store.autocommit[OF store(1) S(2)] by (simp add: t0_def)
  then have h: "sqlite_store.holds work saved txn S False t0 t0"
    using S by (simp add: sqlite_store.holds_def[OF store(1)] t0_def)
  have "lib_max lib db \<noteq> NullRow"
    using sqlite_store.max_null[OF store(1), of db] w t(3) by (auto simp: t0_def)
  then obtain k where k: "lib_max lib db = ValueRow k"
    using store(2) by (cases "lib_max lib db") (auto simp: no_faults_def)
  then have km: "k = m"
    using sqlite_store.max_value[OF store(1) k] w by (simp add: m_def)
  have "m \<in> set (span_ids t0)"
    using t(3) by (simp add: m_def t0_def)
  then have m0: "0 < m"
    using t(2) by (simp add: ids_fit_def t0_def)
  have c0: "m < c" "0 < c" "- (2 ^ 63) \<le> c" "c < 2 ^ 63"
    using S(3) m0 t(4) by (simp_all add: c_def m_def t0_def)
  have cut: "prune_cutoff k (sl_max_spans S) = Some c"
    using c0(3,4) km by (simp add: prune_cutoff_def c_def Let_def)
  have "sl_max_spans S \<noteq> 0"
    using S(3) by auto
  then have run: "otel_sqlite_prune lib S = Some (fst (otel_sqlite_exec lib (prune_script c) S))"
    using S(1) k cut c0(2) by (simp add: otel_sqlite_prune_def)
  from sqlite_store.exec_prune[OF store h, of c] obtain db' where
    e: "otel_sqlite_exec lib (prune_script c) S = (S\<lparr>sl_db := Some db'\<rparr>, True)" "saved db' = drop_through c t0"
    by (auto simp: sqlite_store.holds_def[OF store(1)])
  have "drop_through c t0 = no_tables"
  proof (rule drop_through_all)
    show "i \<le> c" if "i \<in> set (span_ids t0)" for i
      using Max_ge[OF _ that] c0(1) by (simp add: m_def)
  qed (simp add: t(1) t0_def)
  then show ?thesis
    using run e by auto
qed

lemma huge_cap_deletes_everything_witness:
  "\<exists>db'. otel_sqlite_prune sound_lib (fresh_sink (- 1) three_db) = Some ((fresh_sink (- 1) three_db)\<lparr>sl_db := Some db'\<rparr>) \<and>
     td_saved db' = no_tables"
proof -
  have f: "sl_db (fresh_sink (- 1) three_db) = Some three_db" "sint (sl_max_spans (fresh_sink (- 1) three_db)) = - 1"
    by (simp_all add: fresh_sink_def)
  show ?thesis
    by (rule huge_cap_deletes_everything[OF sound_store table_no_faults f(1)]) (simp_all add: f(2) ids_fit_def)
qed

subsection \<open>Errors\<close>

lemma exec_begin_fails:
  "sl_db S = Some db \<Longrightarrow> lib_step lib db QBegin = (db', False) \<Longrightarrow>
   otel_sqlite_begin lib S = S\<lparr>sl_db := Some db', sl_in_txn := False\<rparr>"
  by (simp add: otel_sqlite_begin_def sl_step_def)

text \<open>The connection is inside a transaction the sink does not know of.\<close>

definition stuck :: "('db \<Rightarrow> bool) \<Rightarrow> 'db sqlite_state \<Rightarrow> 'db \<Rightarrow> bool" where
  "stuck txn S db \<longleftrightarrow> sl_db S = Some db \<and> txn db \<and> \<not> sl_in_txn S"

lemma stuck_call:
  assumes store: "sqlite_store lib work saved txn" and S: "stuck txn S db"
  shows "\<exists>S' db'. sink_call (otel_sqlite_begin lib) (otel_sqlite_span lib service) (otel_sqlite_end lib) ev S = Some S' \<and>
    stuck txn S' db' \<and> saved db' = saved db"
proof (cases ev)
  case SBegin
  obtain db' ok where st: "lib_step lib db QBegin = (db', ok)" by fastforce
  have "\<not> ok"
    using sqlite_store.begin_ok[OF store, of db db'] st S by (auto simp: stuck_def)
  then have "lib_step lib db QBegin = (db', False)"
    using st by simp
  from sqlite_store.begin_fail[OF store this] exec_begin_fails[OF _ this, of S] S SBegin show ?thesis
    by (auto simp: stuck_def)
qed (use S in \<open>auto simp: stuck_def otel_sqlite_span_def otel_sqlite_end_def\<close>)

lemma stuck_run:
  assumes store: "sqlite_store lib work saved txn"
  shows "stuck txn S db \<Longrightarrow> \<exists>S' db'. sink_run (otel_sqlite_begin lib) (otel_sqlite_span lib service) (otel_sqlite_end lib) evs S = Some S' \<and>
    stuck txn S' db' \<and> saved db' = saved db"
proof (induction evs arbitrary: S db)
  case (Cons ev evs)
  from stuck_call[OF store Cons.prems, of service ev] obtain S1 db1 where
    1: "sink_call (otel_sqlite_begin lib) (otel_sqlite_span lib service) (otel_sqlite_end lib) ev S = Some S1"
    "stuck txn S1 db1" "saved db1 = saved db" by blast
  from Cons.IH[OF 1(2)] 1(1,3) show ?case by auto
qed auto

text \<open>C38: a commit that fails and leaves its transaction open (\<^verbatim>\<open>SQLITE_BUSY\<close>, a full disk) ends
  storage for good: the code clears its own flag and neither retries nor rolls back, so every
  later \<^verbatim>\<open>BEGIN\<close> is refused and no span of any later pass is stored or committed.\<close>

theorem failed_commit_ends_storage:
  assumes store: "sqlite_store lib work saved txn"
    and S: "sl_db S = Some db" "sl_in_txn S" "(sl_commits S + 1) mod 64 \<noteq> 0"
    and fail: "lib_step lib db QCommit = (db1, False)" "txn db1"
  shows "\<exists>S' db'. sink_run (otel_sqlite_begin lib) (otel_sqlite_span lib service) (otel_sqlite_end lib) (SEnd # evs) S = Some S' \<and>
    sl_db S' = Some db' \<and> saved db' = saved db"
proof -
  have "otel_sqlite_end lib S = Some (S\<lparr>sl_db := Some db1, sl_in_txn := False, sl_commits := sl_commits S + 1\<rparr>)" (is "_ = Some ?S1")
    using S fail(1) by (simp add: otel_sqlite_end_def sl_step_def)
  moreover have "stuck txn ?S1 db1"
    using fail(2) by (simp add: stuck_def)
  moreover have "saved db1 = saved db"
    using sqlite_store.commit_fail[OF store fail(1)] fail(2) by auto
  ultimately show ?thesis
    using stuck_run[OF store, of ?S1 db1 service evs] by (auto simp: stuck_def)
qed

lemma failed_commit_ends_storage_witness:
  "\<exists>S' db'. sink_run (otel_sqlite_begin (table_lib (\<lambda>q. q = QCommit))) (otel_sqlite_span (table_lib (\<lambda>q. q = QCommit)) [])
     (otel_sqlite_end (table_lib (\<lambda>q. q = QCommit))) (SEnd # pass [sample_span]) ((fresh_sink 0 opened_db)\<lparr>sl_in_txn := True\<rparr>) = Some S' \<and>
    sl_db S' = Some db' \<and> td_saved db' = no_tables"
proof -
  define S where "S = (fresh_sink 0 opened_db)\<lparr>sl_in_txn := True\<rparr>"
  have "sl_db S = Some opened_db" "sl_in_txn S" "(sl_commits S + 1) mod 64 \<noteq> 0"
    by (simp_all add: S_def fresh_sink_def)
  moreover have "lib_step (table_lib (\<lambda>q. q = QCommit)) opened_db QCommit = (opened_db, False)"
    by (simp add: table_step_def)
  ultimately show ?thesis
    using failed_commit_ends_storage[OF sound_store, of S opened_db "\<lambda>q. q = QCommit" opened_db "[]" "pass [sample_span]"]
    unfolding S_def by auto
qed

text \<open>when \<^verbatim>\<open>BEGIN\<close> fails (a locked database), the drain that called it still empties the rings:
  its spans are neither stored nor counted as dropped.\<close>

theorem failed_begin_loses_the_drain:
  assumes store: "sqlite_store lib work saved txn"
    and S: "sl_db S = Some db" and fail: "lib_step lib db QBegin = (db1, False)"
    and g: "tracer_ok g" "g_enabled g" "g_sink g = Some sk" "sk_begin sk" "sk_span sk" "sk_end sk"
  shows "\<exists>h n S' db'. otel_drain pack g = Some (h, n) \<and> g_sink_log h = g_sink_log g @ pass (all_queued g) \<and>
    all_queued h = [] \<and> g_dropped_spans h = g_dropped_spans g \<and>
    sink_run (otel_sqlite_begin lib) (otel_sqlite_span lib service) (otel_sqlite_end lib) (pass (all_queued g)) S = Some S' \<and>
    sl_db S' = Some db' \<and> saved db' = saved db"
proof -
  have "g_sink_present g"
    using g(1,3) by (simp add: tracer_ok_def)
  then have sk: "sink_spans g" "sink_brackets g (map SSpan (all_queued g)) = pass (all_queued g)"
    using g sink_brackets_pass[of g sk] by (simp_all add: sink_spans_def)
  from drain_ok[OF g(1,2), of pack] sk obtain h where
    1: "otel_drain pack g = Some (h, int (length (all_queued g)))" "g_sink_log h = g_sink_log g @ pass (all_queued g)"
    "h = g\<lparr>g_export := g_export h, g_sink_log := g_sink_log h, g_ctx := drained_ctx g\<rparr>"
    by auto
  have "threads_ok g"
    using g(1) by (simp add: tracer_ok_def)
  from drained_all[OF this 1(3)] have q: "all_queued h = []" .
  have d: "g_dropped_spans h = g_dropped_spans g"
    by (subst 1(3)) simp
  define S1 where "S1 = S\<lparr>sl_db := Some db1, sl_in_txn := False\<rparr>"
  have "sink_run (otel_sqlite_begin lib) (otel_sqlite_span lib service) (otel_sqlite_end lib) (map SSpan ss @ [SEnd]) S1 = Some S1" for ss
    by (induction ss) (simp_all add: S1_def otel_sqlite_span_def otel_sqlite_end_def)
  then have "sink_run (otel_sqlite_begin lib) (otel_sqlite_span lib service) (otel_sqlite_end lib) (pass (all_queued g)) S = Some S1"
    using exec_begin_fails[OF S fail] by (simp add: pass_def S1_def)
  moreover have "saved db1 = saved db"
    using sqlite_store.begin_fail[OF store fail] by simp
  ultimately show ?thesis
    using 1(1,2) q d by (auto simp: S1_def)
qed

lemma failed_begin_loses_the_drain_witness:
  "\<exists>h n S' db'. otel_drain (\<lambda>ms. []) busy_tracer = Some (h, n) \<and> all_queued h = [] \<and> g_dropped_spans h = 0 \<and>
    sink_run (otel_sqlite_begin (table_lib (\<lambda>q. q = QBegin))) (otel_sqlite_span (table_lib (\<lambda>q. q = QBegin)) [])
     (otel_sqlite_end (table_lib (\<lambda>q. q = QBegin))) (pass [sample_span]) (fresh_sink 0 empty_db) = Some S' \<and>
    sl_db S' = Some db' \<and> td_saved db' = no_tables"
proof -
  have "lib_step (table_lib (\<lambda>q. q = QBegin)) empty_db QBegin = (empty_db, False)"
    by (simp add: table_step_def)
  from failed_begin_loses_the_drain[OF sound_store _ this busy_tracer(2), of "fresh_sink 0 empty_db" full_sink "\<lambda>ms. []" "[]"]
  show ?thesis
    by (auto simp: fresh_sink_def full_sink_def busy_queued busy_tracer(4))
qed

end
