(* ===== verification/Otel_Sqlite_Faults.thy ===== *)
theory Otel_Sqlite_Faults
  imports Otel_Sqlite_Theorems
begin

text \<open>
  The SQLite sink when statements fail.  Whatever sequence of callbacks runs and whichever
  statements the library refuses, the rows keep referring to rows that exist, as long as a
  failing write undoes itself only (\<open>failures_are_local\<close>).  SQLite may also answer a failing
  write by rolling the whole transaction back; \<open>rolled_back_insert_dangles\<close> shows what the sink
  then writes.
\<close>

subsection \<open>What the callbacks leave alone\<close>

definition sl_config :: "'db sqlite_state \<Rightarrow> nat \<times> u64 \<times> bool \<times> bool \<times> u32" where
  "sl_config S = (sl_stmts S, sl_max_spans S, sl_have_thread S, sl_running S, sl_interval_ms S)"

lemma sl_config_upd [simp]:
  "sl_config (S\<lparr>sl_db := db\<rparr>) = sl_config S" "sl_config (S\<lparr>sl_cur_span := c\<rparr>) = sl_config S"
  "sl_config (S\<lparr>sl_in_txn := b\<rparr>) = sl_config S" "sl_config (S\<lparr>sl_commits := n\<rparr>) = sl_config S"
  by (simp_all add: sl_config_def)

lemma sl_config_step [simp]: "sl_config (fst (sl_step lib q S)) = sl_config S"
  by (auto simp: sl_step_def split: option.splits prod.splits)

lemma sl_config_exec [simp]: "sl_config (fst (otel_sqlite_exec lib qs S)) = sl_config S"
proof (induction qs arbitrary: S)
  case (Cons q qs)
  then show ?case
    using sl_config_step[of lib q S] by (auto split: prod.splits simp del: sl_config_step)
qed simp

lemma sl_config_attrs [simp]: "sl_config (insert_attrs lib ins owner s as S) = sl_config S"
  unfolding insert_attrs_def by (induction as arbitrary: S) (simp_all add: otel_sqlite_insert_attr_def)

lemma sl_config_event: "insert_event lib s e S = Some S' \<Longrightarrow> sl_config S' = sl_config S"
  using sl_config_step[of lib _ S] unfolding insert_event_def Let_def
  by (auto split: prod.splits if_splits bind_splits simp del: sl_config_step) (metis fst_conv)+

lemma sl_config_events: "insert_events lib s es S = Some S' \<Longrightarrow> sl_config S' = sl_config S"
  by (induction es arbitrary: S) (auto split: bind_splits dest: sl_config_event)

lemma sl_config_span: "otel_sqlite_span lib service s S = Some S' \<Longrightarrow> sl_config S' = sl_config S"
  using sl_config_step[of lib "QInsSpan (span_row_of service s)" S] unfolding otel_sqlite_span_def Let_def
  by (auto split: prod.splits if_splits bind_splits simp del: sl_config_step dest!: sl_config_events)

lemma sl_config_prune: "otel_sqlite_prune lib S = Some S' \<Longrightarrow> sl_config S' = sl_config S"
  unfolding otel_sqlite_prune_def by (auto split: if_splits option.splits bind_splits)

lemma sl_config_end: "otel_sqlite_end lib S = Some S' \<Longrightarrow> sl_config S' = sl_config S"
  using sl_config_exec[of lib "[QCommit]" S] unfolding otel_sqlite_end_def Let_def
  by (auto split: prod.splits if_splits bind_splits simp del: sl_config_exec dest!: sl_config_prune)

lemma sl_config_begin: "sl_config (otel_sqlite_begin lib S) = sl_config S"
  using sl_config_exec[of lib "[QBegin]" S] unfolding otel_sqlite_begin_def
  by (auto split: prod.splits simp del: sl_config_exec)

lemma sl_config_run:
  "sink_run (otel_sqlite_begin lib) (otel_sqlite_span lib service) (otel_sqlite_end lib) evs S = Some S' \<Longrightarrow>
   sl_config S' = sl_config S"
proof (induction evs arbitrary: S)
  case (Cons ev evs)
  then show ?case
    by (cases ev) (auto simp: sl_config_begin split: bind_splits dest!: sl_config_span sl_config_end)
qed simp

subsection \<open>Room for more rows\<close>

definition ids_below :: "int \<Rightarrow> int list \<Rightarrow> bool" where
  "ids_below b ids \<longleftrightarrow> 0 \<le> b \<and> (\<forall>i \<in> set ids. 0 < i \<and> i \<le> b)"

text \<open>\<open>n\<close> more spans fit, each with the at most 167 events it can have.\<close>

definition room :: "nat \<Rightarrow> tables \<Rightarrow> bool" where
  "room n t \<longleftrightarrow> ids_below (2 ^ 63 - 2 - int n) (span_ids t) \<and> ids_below (2 ^ 63 - 2 - 167 * int n) (event_ids t)"

lemma ids_below_next: "ids_below b ids \<Longrightarrow> ids_below (b + 1) (ids @ [next_id ids])"
proof -
  assume b: "ids_below b ids"
  have "0 < next_id ids \<and> next_id ids \<le> b + 1"
  proof (cases "ids = []")
    case False
    then have "Max (set ids) \<in> set ids" by simp
    with b have "0 < Max (set ids) \<and> Max (set ids) \<le> b"
      by (simp only: ids_below_def)
    then show ?thesis
      using False by (simp only: next_id_def if_False) linarith
  qed (use b in \<open>simp add: ids_below_def next_id_def\<close>)
  then show ?thesis
    using b by (auto simp: ids_below_def)
qed

lemma ids_below_mono: "ids_below b ids \<Longrightarrow> b \<le> c \<Longrightarrow> ids_below c ids"
  by (auto simp: ids_below_def)

lemma ids_below_events:
  "ids_below b (event_ids t) \<Longrightarrow> ids_below (b + int (length ws)) (event_ids (fold (add_event r) ws t))"
proof (induction ws arbitrary: t b)
  case (Cons w ws)
  have "ids_below (b + 1) (event_ids (add_event r w t))"
    using ids_below_next[OF Cons.prems] by simp
  from Cons.IH[OF this] show ?case
    by (simp add: add_ac)
qed simp

lemma room_add:
  assumes "room (Suc n) t" and "exportable_span s"
  shows "room n (add_span service s t)"
proof -
  obtain v where v: "span_view_of s = Some v" "length (vw_events v) \<le> 167"
    using assms(2) by (auto simp: exportable_span_def exportable_def)
  define t1 where "t1 = t\<lparr>t_spans := t_spans t @ [(next_id (span_ids t), span_row_of service s)],
      t_attrs := t_attrs t @ map (kv_row (next_id (span_ids t))) (vw_attrs v)\<rparr>"
  have e: "event_ids (add_span service s t) = event_ids (fold (add_event (next_id (span_ids t))) (vw_events v) t1)"
    using v(1) by (simp add: add_span_def t1_def Let_def)
  have "event_ids t1 = event_ids t"
    by (simp add: t1_def event_ids_def)
  then have "ids_below (2 ^ 63 - 2 - 167 * int (Suc n) + int (length (vw_events v))) (event_ids (add_span service s t))"
    unfolding e using assms(1) by (intro ids_below_events) (simp add: room_def)
  then have "ids_below (2 ^ 63 - 2 - 167 * int n) (event_ids (add_span service s t))"
    by (rule ids_below_mono) (use v(2) in simp)
  moreover have "ids_below (2 ^ 63 - 2 - int (Suc n) + 1) (span_ids (add_span service s t))"
    using assms(1) ids_below_next[of "2 ^ 63 - 2 - int (Suc n)" "span_ids t"] by (simp add: room_def)
  ultimately show ?thesis
    by (simp add: room_def)
qed

lemma room_fold:
  "room (length ss + n) t \<Longrightarrow> \<forall>s \<in> set ss. exportable_span s \<Longrightarrow> room n (fold (add_span service) ss t)"
  by (induction ss arbitrary: t) (auto intro: room_add)

lemma room_mono: "room m t \<Longrightarrow> n \<le> m \<Longrightarrow> room n t"
  by (auto simp: room_def intro: ids_below_mono)

lemma room_fits: "room n t \<Longrightarrow> rows_fit t"
  by (fastforce simp: room_def rows_fit_def ids_fit_def ids_below_def)

subsection \<open>Failing statements\<close>

text \<open>A write that fails undoes itself only: the transaction stays as it was.\<close>

definition failures_are_local :: "'db sqlite_lib \<Rightarrow> ('db \<Rightarrow> tables) \<Rightarrow> ('db \<Rightarrow> bool) \<Rightarrow> bool" where
  "failures_are_local lib work txn \<longleftrightarrow> (\<forall>db q db'. is_write q \<longrightarrow> lib_step lib db q = (db', False) \<longrightarrow>
     txn db' = txn db \<and> work db' = work db)"

text \<open>The rows refer to rows that exist, and the row ids are positive and at most \<open>a\<close> and \<open>b\<close>.\<close>

definition sound :: "int \<Rightarrow> int \<Rightarrow> tables \<Rightarrow> bool" where
  "sound a b t \<longleftrightarrow> refs_ok t \<and> ids_below a (span_ids t) \<and> ids_below b (event_ids t)"

lemma sound_mono: "sound a b t \<Longrightarrow> a \<le> a' \<Longrightarrow> b \<le> b' \<Longrightarrow> sound a' b' t"
  by (auto simp: sound_def intro: ids_below_mono)

lemma below_fits: "ids_below b ids \<Longrightarrow> b < 2 ^ 63 - 1 \<Longrightarrow> ids_fit ids"
  by (fastforce simp: ids_below_def ids_fit_def)

lemma sound_span: "sound a b t \<Longrightarrow> sound (a + 1) b (t\<lparr>t_spans := t_spans t @ [(next_id (span_ids t), r)]\<rparr>)"
  using ids_below_next[of a "span_ids t"] add_span_row_refs[of t "[]" r]
  by (simp add: sound_def span_ids_def event_ids_def)

lemma sound_attr: "sound a b t \<Longrightarrow> ar_owner r \<in> set (span_ids t) \<Longrightarrow> sound a b (t\<lparr>t_attrs := t_attrs t @ [r]\<rparr>)"
  by (auto simp: sound_def refs_ok_def span_ids_def event_ids_def)

lemma sound_event:
  assumes "sound a b t" and "er_span e \<in> set (span_ids t)"
  shows "sound a (b + 1) (t\<lparr>t_events := t_events t @ [(next_id (event_ids t), e)]\<rparr>)"
proof -
  have "next_id (event_ids t) \<notin> set (event_ids t)"
    by (rule next_id_fresh)
  then show ?thesis
    using assms ids_below_next[of b "event_ids t"] by (auto simp: sound_def refs_ok_def span_ids_def event_ids_def)
qed

lemma sound_event_attr:
  "sound a b t \<Longrightarrow> ar_owner r \<in> set (event_ids t) \<Longrightarrow> sound a b (t\<lparr>t_event_attrs := t_event_attrs t @ [r]\<rparr>)"
  by (auto simp: sound_def refs_ok_def span_ids_def event_ids_def)

context sqlite_store begin

text \<open>The handle is open, what this connection and what the others see is sound, and these spans
  and events are visible.\<close>

definition intact :: "int \<Rightarrow> int \<Rightarrow> int set \<Rightarrow> int set \<Rightarrow> 'db sqlite_state \<Rightarrow> bool" where
  "intact a b sids eids S \<longleftrightarrow> (\<exists>db. sl_db S = Some db \<and> sound a b (work db) \<and> sound a b (saved db) \<and>
     sids \<subseteq> set (span_ids (work db)) \<and> eids \<subseteq> set (event_ids (work db)))"

lemma intact_fields [simp]:
  "intact a b X Y (S\<lparr>sl_cur_span := c\<rparr>) = intact a b X Y S" "intact a b X Y (S\<lparr>sl_in_txn := i\<rparr>) = intact a b X Y S"
  "intact a b X Y (S\<lparr>sl_commits := n\<rparr>) = intact a b X Y S"
  by (simp_all add: intact_def)

lemma intact_mono: "intact a b X Y S \<Longrightarrow> a \<le> a' \<Longrightarrow> b \<le> b' \<Longrightarrow> X' \<subseteq> X \<Longrightarrow> Y' \<subseteq> Y \<Longrightarrow> intact a' b' X' Y' S"
  unfolding intact_def by (blast intro: sound_mono)

lemma intact_forget: "intact a b X Y S \<Longrightarrow> intact a b {} {} S"
  by (erule intact_mono) simp_all

text \<open>A write on an intact store: refused, it leaves the store as it was; done, the store is as the
  changed rows are.\<close>

lemma write_intact:
  assumes loc: "failures_are_local lib work txn" and w: "is_write q" and h: "intact a b X Y S"
    and st: "sl_step lib q S = (S', ok)"
  shows "\<not> ok \<Longrightarrow> intact a b X Y S'"
    and "ok \<Longrightarrow> a \<le> a' \<Longrightarrow> b \<le> b' \<Longrightarrow> (\<And>db db'. sl_db S = Some db \<Longrightarrow> lib_step lib db q = (db', True) \<Longrightarrow>
        S' = S\<lparr>sl_db := Some db'\<rparr> \<Longrightarrow> sound a b (work db) \<Longrightarrow> X \<subseteq> set (span_ids (work db)) \<Longrightarrow> Y \<subseteq> set (event_ids (work db)) \<Longrightarrow>
        sound a' b' (apply_stmt (lib_rowid lib db') q (work db)) \<and>
        X' \<subseteq> set (span_ids (apply_stmt (lib_rowid lib db') q (work db))) \<and>
        Y' \<subseteq> set (event_ids (apply_stmt (lib_rowid lib db') q (work db)))) \<Longrightarrow> intact a' b' X' Y' S'"
proof -
  obtain db where db: "sl_db S = Some db" "sound a b (work db)" "sound a b (saved db)"
    "X \<subseteq> set (span_ids (work db))" "Y \<subseteq> set (event_ids (work db))"
    using h by (auto simp: intact_def)
  obtain db' where l: "lib_step lib db q = (db', ok)" "S' = S\<lparr>sl_db := Some db'\<rparr>"
    using st db(1) by (auto simp: sl_step_def split: prod.splits)
  show "intact a b X Y S'" if "\<not> ok"
  proof -
    have l': "lib_step lib db q = (db', False)"
      using l(1) that by simp
    have "txn db' = txn db" "work db' = work db"
      using loc w l' unfolding failures_are_local_def by blast+
    moreover have "saved db' = saved db"
      using write_fail[OF w l'] by auto
    ultimately show ?thesis
      using l(2) db by (simp add: intact_def)
  qed
  show "intact a' b' X' Y' S'" if ok and le: "a \<le> a'" "b \<le> b'" and keep: "\<And>db db'. sl_db S = Some db \<Longrightarrow>
      lib_step lib db q = (db', True) \<Longrightarrow> S' = S\<lparr>sl_db := Some db'\<rparr> \<Longrightarrow> sound a b (work db) \<Longrightarrow> X \<subseteq> set (span_ids (work db)) \<Longrightarrow>
      Y \<subseteq> set (event_ids (work db)) \<Longrightarrow> sound a' b' (apply_stmt (lib_rowid lib db') q (work db)) \<and>
        X' \<subseteq> set (span_ids (apply_stmt (lib_rowid lib db') q (work db))) \<and>
        Y' \<subseteq> set (event_ids (apply_stmt (lib_rowid lib db') q (work db)))"
  proof -
    have l': "lib_step lib db q = (db', True)"
      using l(1) that(1) by simp
    have "work db' = apply_stmt (lib_rowid lib db') q (work db)" "saved db' = (if txn db then saved db else work db')"
      using write_ok[OF w l'] by auto
    then show ?thesis
      using keep[OF db(1) l' l(2) db(2,4,5)] sound_mono[OF db(3) le] l(2) by (auto simp: intact_def)
  qed
qed

subsubsection \<open>Storing a span\<close>

lemma cur_span_step [simp]: "sl_cur_span (fst (sl_step lib q S)) = sl_cur_span S"
  by (auto simp: sl_step_def split: option.splits prod.splits)

lemma cur_span_attrs [simp]: "sl_cur_span (insert_attrs lib ins owner s as S) = sl_cur_span S"
  unfolding insert_attrs_def by (induction as arbitrary: S) (simp_all add: otel_sqlite_insert_attr_def)

lemma span_attrs_intact:
  assumes loc: "failures_are_local lib work txn" and o: "owner \<in> X"
  shows "intact a b X Y S \<Longrightarrow> intact a b X Y (insert_attrs lib QInsAttr owner s as S)"
  unfolding insert_attrs_def
proof (induction as arbitrary: S)
  case (Cons x xs)
  obtain S1 ok where st: "sl_step lib (QInsAttr (attr_row_of s owner x)) S = (S1, ok)" by fastforce
  note wi = write_intact[OF loc _ Cons.prems st]
  have "intact a b X Y S1"
  proof (cases ok)
    case True
    show ?thesis
    proof (rule wi(2)[OF _ True order.refl order.refl], goal_cases)
      case (2 db db')
      have "sound a b (work db\<lparr>t_attrs := t_attrs (work db) @ [attr_row_of s owner x]\<rparr>)"
        using 2 o by (intro sound_attr) (auto simp: attr_row_view)
      then show ?case
        using 2 by (simp add: span_ids_def event_ids_def)
    qed simp
  qed (simp add: wi(1))
  from Cons.IH[OF this] st show ?case
    by (simp add: otel_sqlite_insert_attr_def)
qed simp

lemma event_attrs_intact:
  assumes loc: "failures_are_local lib work txn" and o: "owner \<in> Y"
  shows "intact a b X Y S \<Longrightarrow> intact a b X Y (insert_attrs lib QInsEventAttr owner s as S)"
  unfolding insert_attrs_def
proof (induction as arbitrary: S)
  case (Cons x xs)
  obtain S1 ok where st: "sl_step lib (QInsEventAttr (attr_row_of s owner x)) S = (S1, ok)" by fastforce
  note wi = write_intact[OF loc _ Cons.prems st]
  have "intact a b X Y S1"
  proof (cases ok)
    case True
    show ?thesis
    proof (rule wi(2)[OF _ True order.refl order.refl], goal_cases)
      case (2 db db')
      have "sound a b (work db\<lparr>t_event_attrs := t_event_attrs (work db) @ [attr_row_of s owner x]\<rparr>)"
        using 2 o by (intro sound_event_attr) (auto simp: attr_row_view)
      then show ?case
        using 2 by (simp add: span_ids_def event_ids_def)
    qed simp
  qed (simp add: wi(1))
  from Cons.IH[OF this] st show ?case
    by (simp add: otel_sqlite_insert_attr_def)
qed simp

lemma event_intact:
  assumes loc: "failures_are_local lib work txn" and h: "intact a b X {} S" and c: "sl_cur_span S \<in> X"
    and b: "b < 2 ^ 63 - 1" and walk: "walk_attrs s (otel_event_attr_first s e) = Some as"
  shows "\<exists>S'. insert_event lib s e S = Some S' \<and> intact a (b + 1) X {} S' \<and> sl_cur_span S' = sl_cur_span S"
proof -
  define r where "r = \<lparr>er_span = sl_cur_span S, er_name = otel_event_name s e,
    er_time_unix_ns = sint (ev_time_unix_ns (event_at (sp_arena s) e))\<rparr>"
  obtain S1 ok where st: "sl_step lib (QInsEvent r) S = (S1, ok)" by fastforce
  have c1: "sl_cur_span S1 = sl_cur_span S"
    using cur_span_step[of "QInsEvent r" S] by (simp add: st)
  note wi = write_intact[OF loc _ h st]
  show ?thesis
  proof (cases ok)
    case True
    have "intact a (b + 1) X {sl_rowid lib S1} S1"
    proof (rule wi(2)[OF _ True order.refl], goal_cases)
      case (3 db db')
      have id: "lib_rowid lib db' = next_id (event_ids (work db))"
        using 3 b by (intro event_rowid[of db r]) (auto simp: sound_def intro: below_fits)
      have "sound a (b + 1) (work db\<lparr>t_events := t_events (work db) @ [(next_id (event_ids (work db)), r)]\<rparr>)"
        using 3 c by (intro sound_event) (auto simp: r_def)
      then show ?case
        using 3 id by (auto simp: sl_rowid_def span_ids_def event_ids_def)
    qed simp_all
    then have "intact a (b + 1) X {sl_rowid lib S1} (insert_attrs lib QInsEventAttr (sl_rowid lib S1) s as S1)"
      by (rule event_attrs_intact[OF loc singletonI])
    then have "intact a (b + 1) X {} (insert_attrs lib QInsEventAttr (sl_rowid lib S1) s as S1)"
      by (rule intact_mono) simp_all
    then show ?thesis
      using st True walk c1 by (simp add: insert_event_def r_def)
  next
    case False
    have "intact a b X {} S1"
      using wi(1)[OF _ False] by simp
    then have "intact a (b + 1) X {} S1"
      by (rule intact_mono) simp_all
    then show ?thesis
      using st False c1 by (simp add: insert_event_def r_def)
  qed
qed

lemma events_intact:
  assumes loc: "failures_are_local lib work txn" and walk: "\<And>e. e \<in> set es \<Longrightarrow> walk_attrs s (otel_event_attr_first s e) = Some (f e)"
  shows "intact a b X {} S \<Longrightarrow> sl_cur_span S \<in> X \<Longrightarrow> b + int (length es) < 2 ^ 63 \<Longrightarrow>
    \<exists>S'. insert_events lib s es S = Some S' \<and> intact a (b + int (length es)) X {} S'"
  using walk
proof (induction es arbitrary: S b)
  case (Cons e es)
  have "b < 2 ^ 63 - 1"
    using Cons.prems(3) by simp
  from event_intact[OF loc Cons.prems(1,2) this Cons.prems(4)] obtain S1 where
    1: "insert_event lib s e S = Some S1" "intact a (b + 1) X {} S1" "sl_cur_span S1 = sl_cur_span S" by auto
  from Cons.IH[OF 1(2)] Cons.prems 1(3) obtain S' where
    "insert_events lib s es S1 = Some S'" "intact a (b + 1 + int (length es)) X {} S'" by auto
  then show ?case
    using 1(1) by (simp add: add_ac)
qed simp

lemma span_intact:
  assumes loc: "failures_are_local lib work txn" and ex: "exportable_span s" and h: "intact a b {} {} S"
    and fit: "a < 2 ^ 63 - 1" "b + 167 < 2 ^ 63"
  shows "\<exists>S'. otel_sqlite_span lib service s S = Some S' \<and> intact (a + 1) (b + 167) {} {} S'"
proof (cases "sl_in_txn S")
  case True
  obtain v where v: "span_view_of s = Some v" "length (vw_events v) \<le> 167"
    using ex by (auto simp: exportable_span_def exportable_def)
  from view_walks[OF v(1)] obtain as es f where w: "walk_attrs s (otel_attr_first s) = Some as"
    "walk_events s (otel_event_first s) = Some es"
    "\<And>e. e \<in> set es \<Longrightarrow> walk_attrs s (otel_event_attr_first s e) = Some (f e)" and "length (vw_events v) = length es"
    by (metis (no_types, lifting) length_map)
  then have n: "length es \<le> 167"
    using v(2) by simp
  obtain S1 ok where st: "sl_step lib (QInsSpan (span_row_of service s)) S = (S1, ok)" by fastforce
  note wi = write_intact[OF loc _ h st]
  show ?thesis
  proof (cases ok)
    case ok: True
    let ?o = "sl_rowid lib S1"
    have "intact (a + 1) b {?o} {} S1"
    proof (rule wi(2)[OF _ ok], goal_cases)
      case (4 db db')
      have id: "lib_rowid lib db' = next_id (span_ids (work db))"
        using 4 fit(1) by (intro span_rowid[of db "span_row_of service s"]) (auto simp: sound_def intro: below_fits)
      have "sound (a + 1) b (work db\<lparr>t_spans := t_spans (work db) @ [(next_id (span_ids (work db)), span_row_of service s)]\<rparr>)"
        using 4 by (intro sound_span) simp
      then show ?case
        using 4 id by (auto simp: sl_rowid_def span_ids_def)
    qed simp_all
    then have "intact (a + 1) b {?o} {} (insert_attrs lib QInsAttr ?o s as (S1\<lparr>sl_cur_span := ?o\<rparr>))"
      by (intro span_attrs_intact[OF loc singletonI]) simp
    from events_intact[where es = es, OF loc w(3) this] n fit(2) obtain S' where
      1: "insert_events lib s es (insert_attrs lib QInsAttr ?o s as (S1\<lparr>sl_cur_span := ?o\<rparr>)) = Some S'"
      "intact (a + 1) (b + int (length es)) {?o} {} S'" by auto
    have "intact (a + 1) (b + 167) {} {} S'"
      using 1(2) by (rule intact_mono) (use n in simp_all)
    moreover have "otel_sqlite_span lib service s S = Some S'"
      using st ok True w(1,2) 1(1) by (simp add: otel_sqlite_span_def)
    ultimately show ?thesis by blast
  next
    case False
    have "intact a b {} {} S1"
      using wi(1)[OF _ False] by simp
    then have "intact (a + 1) (b + 167) {} {} S1"
      by (rule intact_mono) simp_all
    then show ?thesis
      using st False True by (simp add: otel_sqlite_span_def)
  qed
next
  case False
  have "intact (a + 1) (b + 167) {} {} S"
    using h by (rule intact_mono) simp_all
  then show ?thesis
    using False by (simp add: otel_sqlite_span_def)
qed

subsubsection \<open>Transactions and retention\<close>

lemma begin_intact:
  assumes h: "intact a b {} {} S"
  shows "intact a b {} {} (otel_sqlite_begin lib S)"
proof -
  obtain db where db: "sl_db S = Some db" "sound a b (work db)" "sound a b (saved db)"
    using h by (auto simp: intact_def)
  obtain db' ok where st: "lib_step lib db QBegin = (db', ok)" by fastforce
  then have "work db' = work db \<and> saved db' = saved db"
    using begin_ok[of db db'] begin_fail[of db db'] by (cases ok) auto
  then show ?thesis
    using st db by (simp add: otel_sqlite_begin_def sl_step_def intact_def)
qed

lemma commit_intact:
  assumes h: "intact a b {} {} S"
  shows "intact a b {} {} (fst (otel_sqlite_exec lib [QCommit] S))"
proof -
  obtain db where db: "sl_db S = Some db" "sound a b (work db)" "sound a b (saved db)"
    using h by (auto simp: intact_def)
  obtain db' ok where st: "lib_step lib db QCommit = (db', ok)" by fastforce
  have "sound a b (work db') \<and> sound a b (saved db')"
  proof (cases ok)
    case True
    then show ?thesis
      using commit_ok[of db db'] autocommit[of db'] st db by simp
  next
    case False
    then have "work db' = work db \<and> saved db' = saved db \<or> \<not> txn db' \<and> saved db' = saved db"
      using commit_fail[of db db'] st by auto
    then show ?thesis
      using autocommit[of db'] db(2,3) by auto
  qed
  then show ?thesis
    using st db(1) by (simp add: sl_step_def intact_def)
qed

lemma checkpoint_intact: "intact a b {} {} S \<Longrightarrow> intact a b {} {} (fst (sl_step lib QCheckpoint S))"
  using checkpoint by (fastforce simp: intact_def sl_step_def split: prod.splits)

text \<open>The prune script stops at the first statement that fails; what it has done by then takes no
  row away that another one refers to.  \<open>k\<close> statements have been done.\<close>

definition pruned :: "int \<Rightarrow> nat \<Rightarrow> tables \<Rightarrow> bool" where
  "pruned c k t \<longleftrightarrow> (1 \<le> k \<longrightarrow> (\<forall>r \<in> set (t_event_attrs t). \<forall>e \<in> set (t_events t). er_span (snd e) \<le> c \<longrightarrow> ar_owner r \<noteq> fst e)) \<and>
     (2 \<le> k \<longrightarrow> (\<forall>r \<in> set (t_attrs t). c < ar_owner r)) \<and> (3 \<le> k \<longrightarrow> (\<forall>e \<in> set (t_events t). c < er_span (snd e)))"

lemma prune_stmt:
  assumes "sound a b t" and "pruned c k t" and "k < 4"
  shows "sound a b (apply_stmt i (prune_script c ! k) t) \<and> pruned c (Suc k) (apply_stmt i (prune_script c ! k) t)"
proof -
  have sub: "distinct (map fst (filter P xs))" if "distinct (map fst xs)" for P and xs :: "(int \<times> 'b) list"
    using that by (rule distinct_map_filter)
  consider "k = 0" | "k = 1" | "k = 2" | "k = 3"
    using assms(3) by linarith
  then show ?thesis
  proof cases
    case 1
    then show ?thesis
      using assms(1,2) by (auto simp: prune_script_def sound_def refs_ok_def pruned_def span_ids_def event_ids_def image_iff)
  next
    case 2
    then show ?thesis
      using assms(1,2) by (auto simp: prune_script_def sound_def refs_ok_def pruned_def span_ids_def event_ids_def)
  next
    case 3
    have "ids_below b (map fst (filter (\<lambda>e. \<not> er_span (snd e) \<le> c) (t_events t)))"
      using assms(1) by (auto simp: sound_def ids_below_def event_ids_def)
    moreover have "ar_owner r \<in> fst ` set (filter (\<lambda>e. \<not> er_span (snd e) \<le> c) (t_events t))" if r: "r \<in> set (t_event_attrs t)" for r
    proof -
      obtain e where e: "e \<in> set (t_events t)" "ar_owner r = fst e"
        using assms(1) r by (auto simp: sound_def refs_ok_def event_ids_def)
      then have "\<not> er_span (snd e) \<le> c"
        using assms(2) r 3 by (auto simp: pruned_def)
      then show ?thesis
        using e by auto
    qed
    ultimately show ?thesis
      using assms(1,2) 3 sub[of "t_events t"] by (auto simp: prune_script_def sound_def refs_ok_def pruned_def span_ids_def event_ids_def)
  next
    case 4
    have "ids_below a (map fst (filter (\<lambda>x. \<not> fst x \<le> c) (t_spans t)))"
      using assms(1) by (auto simp: sound_def ids_below_def span_ids_def)
    moreover have "x \<in> fst ` set (filter (\<lambda>x. \<not> fst x \<le> c) (t_spans t))" if "x \<in> fst ` set (t_spans t)" "c < x" for x
      using that by (auto simp: image_iff)
    ultimately show ?thesis
      using assms(1,2) 4 sub[of "t_spans t"] by (auto simp: prune_script_def sound_def refs_ok_def pruned_def span_ids_def event_ids_def)
  qed
qed

lemma length_script: "length (prune_script c) = 4"
  by (simp add: prune_script_def)

lemma prune_exec:
  assumes loc: "failures_are_local lib work txn"
  shows "sl_db S = Some db \<Longrightarrow> sound a b (work db) \<Longrightarrow> sound a b (saved db) \<Longrightarrow> pruned c k (work db) \<Longrightarrow> k \<le> 4 \<Longrightarrow>
    intact a b {} {} (fst (otel_sqlite_exec lib (drop k (prune_script c)) S))"
proof (induction "4 - k" arbitrary: k S db)
  case 0
  then show ?case
    by (simp add: prune_script_def intact_def)
next
  case (Suc n)
  define q where "q = prune_script c ! k"
  have k: "k < 4"
    using Suc.hyps(2) by simp
  then have "drop k (prune_script c) = q # drop (Suc k) (prune_script c)"
    using k by (simp add: q_def Cons_nth_drop_Suc length_script)
  moreover have w: "is_write q"
  proof -
    have "q \<in> set (prune_script c)"
      unfolding q_def using k by (intro nth_mem) (simp add: prune_script_def)
    then show ?thesis
      by (auto simp: prune_script_def)
  qed
  moreover obtain db' ok where st: "lib_step lib db q = (db', ok)" by fastforce
  moreover have "intact a b {} {} (fst (otel_sqlite_exec lib (drop (Suc k) (prune_script c)) (S\<lparr>sl_db := Some db'\<rparr>)))" if ok
  proof (rule Suc.hyps(1))
    have wk: "work db' = apply_stmt (lib_rowid lib db') q (work db)" "saved db' = (if txn db then saved db else work db')"
      using write_ok[OF w, of db db'] st that by auto
    note p = prune_stmt[OF Suc.prems(2,4) k, of "lib_rowid lib db'"]
    show "sound a b (work db')" "pruned c (Suc k) (work db')"
      using p wk(1) by (simp_all add: q_def)
    then show "sound a b (saved db')"
      using wk(2) Suc.prems(3) by simp
  qed (use k Suc.hyps(2) in simp_all)
  moreover have "intact a b {} {} (S\<lparr>sl_db := Some db'\<rparr>)" if "\<not> ok"
  proof -
    have f: "lib_step lib db q = (db', False)"
      using st that by simp
    have "work db' = work db" "saved db' = saved db"
      using loc w f write_fail[OF w f] unfolding failures_are_local_def by blast+
    then show ?thesis
      using Suc.prems(2,3) by (simp add: intact_def)
  qed
  ultimately show ?case
    using Suc.prems(1) by (cases ok) (simp_all add: sl_step_def)
qed

lemma prune_intact:
  assumes loc: "failures_are_local lib work txn" and h: "intact a b {} {} S"
    and cap: "sl_max_spans S < 2 ^ 63" and a: "a < 2 ^ 63"
  shows "\<exists>S'. otel_sqlite_prune lib S = Some S' \<and> intact a b {} {} S'"
proof (cases "sl_max_spans S = 0 \<or> (\<exists>db. sl_db S = Some db \<and> lib_max lib db = PrepareFailed)")
  case True
  then show ?thesis
    using h by (auto simp: otel_sqlite_prune_def intact_def)
next
  case False
  obtain db where db: "sl_db S = Some db" "sound a b (work db)" "sound a b (saved db)"
    using h by (auto simp: intact_def)
  define m where "m = (case lib_max lib db of ValueRow m \<Rightarrow> m | _ \<Rightarrow> 0)"
  have "0 \<le> m \<and> m < 2 ^ 63"
  proof (cases "lib_max lib db")
    case (ValueRow x)
    then have "span_ids (work db) \<noteq> []" "x = Max (set (span_ids (work db)))"
      using max_value by blast+
    then have "x \<in> set (span_ids (work db))"
      using Max_in[of "set (span_ids (work db))"] by simp
    then have "0 < x" "x \<le> a"
      using db(2) by (simp_all add: sound_def ids_below_def)
    then show ?thesis
      using ValueRow a by (simp add: m_def)
  qed (simp_all add: m_def)
  then have cut: "prune_cutoff m (sl_max_spans S) = Some (m - uint (sl_max_spans S))"
    using cap_small[OF cap] by (intro prune_cutoff_small) simp_all
  have "intact a b {} {} (fst (otel_sqlite_exec lib (prune_script c) S))" for c
    using prune_exec[OF loc db, of c 0] by (simp add: pruned_def)
  then show ?thesis
    using False db(1) cut h by (auto simp: otel_sqlite_prune_def m_def)
qed

lemma end_intact:
  assumes loc: "failures_are_local lib work txn" and h: "intact a b {} {} S"
    and cap: "sl_max_spans S < 2 ^ 63" and a: "a < 2 ^ 63"
  shows "\<exists>S'. otel_sqlite_end lib S = Some S' \<and> intact a b {} {} S'"
proof -
  define S1 where "S1 = (fst (otel_sqlite_exec lib [QCommit] S))\<lparr>sl_in_txn := False\<rparr>"
  define S2 where "S2 = S1\<lparr>sl_commits := sl_commits S1 + 1\<rparr>"
  have S2: "intact a b {} {} S2"
    using commit_intact[OF h] by (simp add: S1_def S2_def)
  have "sl_config S2 = sl_config S"
    by (simp add: S1_def S2_def del: otel_sqlite_exec.simps)
  then have "sl_max_spans S2 < 2 ^ 63"
    using cap by (simp add: sl_config_def)
  from prune_intact[OF loc S2 this a] obtain S3 where 3: "otel_sqlite_prune lib S2 = Some S3" "intact a b {} {} S3"
    by blast
  show ?thesis
    using h S2 3 checkpoint_intact[OF 3(2)]
    by (cases "sl_commits S2 mod 64 = 0") (auto simp: otel_sqlite_end_def Let_def S1_def S2_def split: prod.splits)
qed

lemma run_intact:
  assumes loc: "failures_are_local lib work txn"
  shows "intact (2 ^ 63 - 2 - int (length (filter is_span_event evs))) (2 ^ 63 - 2 - 167 * int (length (filter is_span_event evs))) {} {} S \<Longrightarrow>
    sl_max_spans S < 2 ^ 63 \<Longrightarrow> \<forall>s. SSpan s \<in> set evs \<longrightarrow> exportable_span s \<Longrightarrow>
    \<exists>S'. sink_run (otel_sqlite_begin lib) (otel_sqlite_span lib service) (otel_sqlite_end lib) evs S = Some S' \<and>
      intact (2 ^ 63 - 2) (2 ^ 63 - 2) {} {} S'"
proof (induction evs arbitrary: S)
  case (Cons ev evs)
  let ?n = "int (length (filter is_span_event evs))"
  have "\<exists>S1. sink_call (otel_sqlite_begin lib) (otel_sqlite_span lib service) (otel_sqlite_end lib) ev S = Some S1 \<and>
      intact (2 ^ 63 - 2 - ?n) (2 ^ 63 - 2 - 167 * ?n) {} {} S1 \<and> sl_config S1 = sl_config S"
  proof (cases ev)
    case SBegin
    then show ?thesis
      using begin_intact[OF Cons.prems(1)] sl_config_begin[of lib S] by simp
  next
    case (SSpan s)
    from span_intact[OF loc _ Cons.prems(1), of s service] Cons.prems(3) SSpan show ?thesis
      by (fastforce dest: sl_config_span simp: algebra_simps)
  next
    case SEnd
    then show ?thesis
      using end_intact[OF loc Cons.prems(1,2)] by (auto dest: sl_config_end)
  qed
  then obtain S1 where 1: "sink_call (otel_sqlite_begin lib) (otel_sqlite_span lib service) (otel_sqlite_end lib) ev S = Some S1"
    "intact (2 ^ 63 - 2 - ?n) (2 ^ 63 - 2 - 167 * ?n) {} {} S1" "sl_config S1 = sl_config S" by blast
  have "sl_max_spans S1 < 2 ^ 63"
    using 1(3) Cons.prems(2) by (simp add: sl_config_def)
  from Cons.IH[OF 1(2) this] Cons.prems(3) 1(1) show ?case
    by auto
qed auto

end

text \<open>C25: whatever callbacks run, in any order, and whichever statements the library refuses, no
  row refers to one that is not there, for this connection and for the others: attributes and
  events keep their span and event attributes their event, through inserts, commits and
  retention.  It is assumed that a failing write does not roll the transaction back
  (\<open>rolled_back_insert_dangles\<close> shows that the sink does not stand that), that the cap is below
  \<open>2 ^ 63\<close> and that the row ids do not run out.\<close>

theorem pass_keeps_references:
  assumes store: "sqlite_store lib work saved txn" "failures_are_local lib work txn"
    and S: "sl_db S = Some db" "sl_max_spans S < 2 ^ 63"
    and evs: "\<forall>s. SSpan s \<in> set evs \<longrightarrow> exportable_span s"
    and room: "room (length (filter is_span_event evs)) (work db)" "room (length (filter is_span_event evs)) (saved db)"
    and refs: "refs_ok (work db)" "refs_ok (saved db)"
  shows "\<exists>S' db'. sink_run (otel_sqlite_begin lib) (otel_sqlite_span lib service) (otel_sqlite_end lib) evs S = Some S' \<and>
    sl_db S' = Some db' \<and> refs_ok (work db') \<and> refs_ok (saved db')"
proof -
  have "sqlite_store.intact work saved (2 ^ 63 - 2 - int (length (filter is_span_event evs)))
      (2 ^ 63 - 2 - 167 * int (length (filter is_span_event evs))) {} {} S"
    using S(1) room refs by (simp add: sqlite_store.intact_def[OF store(1)] sound_def room_def)
  from sqlite_store.run_intact[OF store this S(2) evs, of service] show ?thesis
    by (auto simp: sqlite_store.intact_def[OF store(1)] sound_def)
qed

definition refuses_events :: "sql_stmt \<Rightarrow> bool" where
  "refuses_events q = (case q of QInsEvent e \<Rightarrow> True | _ \<Rightarrow> False)"

lemma table_local: "failures_are_local (table_lib f) table_work table_txn"
  by (auto simp: failures_are_local_def table_step_def Let_def split: if_splits)

lemma pass_keeps_references_witness:
  "\<exists>S' db'. sink_run (otel_sqlite_begin (table_lib refuses_events)) (otel_sqlite_span (table_lib refuses_events) [])
     (otel_sqlite_end (table_lib refuses_events)) (pass [sample_span] @ [SSpan sample_span, SEnd]) (fresh_sink 0 empty_db) = Some S' \<and>
    sl_db S' = Some db' \<and> refs_ok (table_work db') \<and> refs_ok (td_saved db')"
proof -
  have e: "\<forall>s. SSpan s \<in> set (pass [sample_span] @ [SSpan sample_span, SEnd]) \<longrightarrow> exportable_span s"
    using sample_exportable[of 120] by (simp add: pass_def)
  have r: "room (length (filter is_span_event (pass [sample_span] @ [SSpan sample_span, SEnd]))) no_tables"
    by (simp add: pass_def room_def ids_below_def)
  have S: "sl_db (fresh_sink 0 empty_db) = Some empty_db" "sl_max_spans (fresh_sink 0 empty_db) < 2 ^ 63"
    by (simp_all add: fresh_sink_def)
  show ?thesis
    by (rule pass_keeps_references[OF sound_store table_local S e]) (use r in simp_all)
qed

subsection \<open>A failing insert that rolls back\<close>

text \<open>A library that keeps the contract and answers every attribute insert with a rollback, as
  SQLite may on a full disk or when it is out of memory.\<close>

definition rolling_lib :: "table_db sqlite_lib" where
  "rolling_lib = (table_lib (\<lambda>_. False))\<lparr>lib_step := \<lambda>db q.
     case q of QInsAttr r \<Rightarrow> (db\<lparr>td_open := None\<rparr>, False) | _ \<Rightarrow> table_step (\<lambda>_. False) db q\<rparr>"

lemma rolling_store: "sqlite_store rolling_lib table_work td_saved table_txn"
proof -
  have same: "lib_step rolling_lib db q = lib_step (table_lib (\<lambda>_. False)) db q" if "\<And>r. q \<noteq> QInsAttr r" for db q
    using that by (cases q) (auto simp: rolling_lib_def)
  have max: "lib_max rolling_lib = lib_max (table_lib (\<lambda>_. False))" "lib_rowid rolling_lib = lib_rowid (table_lib (\<lambda>_. False))"
    by (simp_all add: rolling_lib_def)
  have attr: "lib_step rolling_lib db (QInsAttr r) = (db\<lparr>td_open := None\<rparr>, False)" for db r
    by (simp add: rolling_lib_def)
  show ?thesis
  proof
    fix db db' q
    show "is_write q \<Longrightarrow> lib_step rolling_lib db q = (db', True) \<Longrightarrow>
      table_work db' = apply_stmt (lib_rowid rolling_lib db') q (table_work db) \<and>
      table_txn db' = table_txn db \<and> td_saved db' = (if table_txn db then td_saved db else table_work db')"
      using table.write_ok[of q "\<lambda>_. False" db db'] same[of q db] attr[of db]
      by (cases "\<exists>r. q = QInsAttr r") (auto simp: max simp del: table_lib_simps)
    show "is_write q \<Longrightarrow> lib_step rolling_lib db q = (db', False) \<Longrightarrow>
      table_txn db' = table_txn db \<and> table_work db' = table_work db \<and> td_saved db' = td_saved db \<or>
      \<not> table_txn db' \<and> td_saved db' = td_saved db"
      using table.write_fail[of q "\<lambda>_. False" db db'] same[of q db] attr[of db]
      by (cases "\<exists>r. q = QInsAttr r") (auto simp: table_txn_def simp del: table_lib_simps)
  qed (use table.autocommit table.begin_ok table.begin_fail table.commit_ok table.commit_fail table.span_rowid table.event_rowid
      table.max_value table.max_null table.checkpoint in \<open>simp_all only: same sql_stmt.distinct max not_False_eq_True simp_thms, (blast+)?\<close>)
qed

text \<open>The sink does not look at the result of an attribute insert and goes on: the span's event,
  inserted outside the transaction, is committed for a span that is gone.\<close>

lemma rolled_back_insert_dangles:
  "\<exists>S' db'. sink_run (otel_sqlite_begin rolling_lib) (otel_sqlite_span rolling_lib []) (otel_sqlite_end rolling_lib)
     (pass [sample_span]) (fresh_sink 0 empty_db) = Some S' \<and> sl_db S' = Some db' \<and>
    t_spans (td_saved db') = [] \<and> map (er_span \<circ> snd) (t_events (td_saved db')) = [1]"
proof -
  from view_walks[OF sample_views] obtain as es f where w: "walk_attrs sample_span (otel_attr_first sample_span) = Some as"
    "map (attr_view sample_span) as = vw_attrs sample_view" "walk_events sample_span (otel_event_first sample_span) = Some es"
    "\<And>e. e \<in> set es \<Longrightarrow> walk_attrs sample_span (otel_event_attr_first sample_span e) = Some (f e)"
    "vw_events sample_view = map (\<lambda>e. \<lparr>evw_name = otel_event_name sample_span e,
       evw_time = ev_time_unix_ns (event_at (sp_arena sample_span) e), evw_attrs = map (attr_view sample_span) (f e),
       evw_dropped = unat (ev_dropped_attrs (event_at (sp_arena sample_span) e))\<rparr>) es" by blast
  obtain a where a: "as = [a]"
    using w(2) by (auto simp: sample_view_value)
  obtain e where e: "es = [e]"
    using w(5) by (auto simp: sample_view_value)
  obtain x where x: "f e = [x]"
    using w(5) e by (auto simp: sample_view_value)
  have we: "walk_attrs sample_span (otel_event_attr_first sample_span e) = Some [x]"
    using w(4) e x by simp
  show ?thesis
    by (simp add: pass_def fresh_sink_def otel_sqlite_begin_def otel_sqlite_span_def otel_sqlite_end_def sl_step_def rolling_lib_def
        table_step_def table_txn_def table_work_def empty_db_def no_tables_def span_ids_def event_ids_def next_id_def sl_rowid_def
        w(1,3) a e we insert_attrs_def otel_sqlite_insert_attr_def insert_event_def Let_def)
qed

end
