(* ===== verification/Otel_Sqlite_Life_Props.thy ===== *)
theory Otel_Sqlite_Life_Props
  imports Otel_Sqlite_Life Otel_Sqlite_Faults
begin

text \<open>
  Properties of the SQLite sink over its life: what a session from open to close stores, what a
  failed open leaves behind.  The locale \<open>sqlite_file\<close> adds to the library's contract that
  pragmas and the \<^verbatim>\<open>CREATE ... IF NOT EXISTS\<close> schema leave the rows alone.
\<close>

subsection \<open>The files behind the library\<close>



subsection \<open>A whole session\<close>



text \<open>The state of a session: tracing is live with the sink attached, and the database holds \<open>t\<close>, all
  of it committed.\<close>

definition session :: "('db \<Rightarrow> tables) \<Rightarrow> ('db \<Rightarrow> bool) \<Rightarrow> 'db system \<Rightarrow> tables \<Rightarrow> bool" where
  "session saved txn sys t \<longleftrightarrow> (case sys of (g, S) \<Rightarrow> steady g \<and> g_sink g = Some S_sink \<and> sl_max_spans S = 0 \<and>
     (\<exists>db. sl_db S = Some db \<and> \<not> txn db \<and> saved db = t))"











lemma session_upd [simp]:
  "session saved txn (g, S\<lparr>sl_running := b\<rparr>) t = session saved txn (g, S) t"
  "session saved txn (g, S\<lparr>sl_have_thread := b\<rparr>) t = session saved txn (g, S) t"
  by (simp_all add: session_def)

lemma set_sink [simp]:
  "all_queued (otel_set_span_sink sk g) = all_queued g" "g_sink (otel_set_span_sink sk g) = sk"
  "g_service (otel_set_span_sink sk g) = g_service g" "g_dropped_spans (otel_set_span_sink sk g) = g_dropped_spans g"
proof -
  have "queued (otel_set_span_sink sk g) = queued g"
    by (simp add: fun_eq_iff queued_def otel_set_span_sink_def otel_recompute_enabled_def)
  then show "all_queued (otel_set_span_sink sk g) = all_queued g"
    by (simp add: all_queued_def) (simp add: otel_set_span_sink_def otel_recompute_enabled_def)
qed (simp_all add: otel_set_span_sink_def otel_recompute_enabled_def)



definition started_tracer :: otel_global where
  "started_tracer = fst (otel_init (Some [115]) None True tracer_zero)"



text \<open>C40: a failed open detaches any sink: \<^verbatim>\<open>otel_sqlite_open\<close> cleans up with \<^verbatim>\<open>otel_sqlite_close\<close>, which
  sets the tracer's sink to null without looking whose it is.  An application with a sink of
  its own and no transport stops tracing when the database cannot be opened.\<close>

theorem failed_open_detaches_other_sink:
  assumes g: "tracer_ok g" "g_sink g = Some sk" "sk \<noteq> S_sink" "\<not> g_transport g"
    and S: "sl_db S = None" "\<not> sl_have_thread S" and env: "\<not> oe_open_ok env"
  shows "\<exists>h. otel_sqlite_open lib pack env ms (g, S) = Some ((h, S_zero), -1) \<and> g_sink h = None \<and> \<not> g_enabled h"
proof -
  obtain h n where h: "otel_drain pack g = Some (h, n)" "g_transport_present h = g_transport_present g"
  proof (cases "g_enabled g")
    case True
    from drain_ok[OF g(1) True, of pack] obtain h where h: "otel_drain pack g = Some (h, int (length (all_queued g)))"
      "h = g\<lparr>g_export := g_export h, g_sink_log := g_sink_log h, g_ctx := drained_ctx g\<rparr>" by blast
    have "g_transport_present h = g_transport_present g"
      by (subst h(2)) simp
    then show ?thesis
      using that h(1) by blast
  qed (use that in \<open>simp add: otel_drain_def\<close>)
  have "\<not> g_transport_present g"
    using g(1,4) by (simp add: tracer_ok_def)
  then have "\<not> g_enabled (otel_set_span_sink None h)"
    using h(2) by (simp add: otel_set_span_sink_def otel_recompute_enabled_def)
  moreover have "system_step lib pack ODrain (g, S\<lparr>sl_db := oe_handle env\<rparr>) = Some (h, S\<lparr>sl_db := oe_handle env\<rparr>)"
    using h(1) g(2,3) by (simp add: system_step_def sink_sees_def)
  then have "otel_sqlite_open lib pack env ms (g, S) = Some ((otel_set_span_sink None h, S_zero), -1)"
    using S env by (simp add: otel_sqlite_open_def open_failed_def otel_sqlite_close_def split: prod.splits)
  ultimately show ?thesis
    by auto
qed

lemma failed_open_detaches_other_sink_witness:
  "\<exists>h. otel_sqlite_open sound_lib (\<lambda>ms. []) \<lparr>oe_handle = None, oe_open_ok = False, oe_prepared = 0, oe_thread_ok = True\<rparr> 0
     (otel_set_span_sink (Some (S_sink\<lparr>sk_addr := 2\<rparr>)) started_tracer, S_zero) = Some ((h, S_zero), -1) \<and> \<not> g_enabled h"
proof -
  have "tracer_ok started_tracer"
    unfolding started_tracer_def by (rule tracer_ok_init[OF tracer_ok_zero]) (simp add: tracer_zero_def)
  then have ok: "tracer_ok (otel_set_span_sink (Some (S_sink\<lparr>sk_addr := 2\<rparr>)) started_tracer)"
    by (rule tracer_ok_config)
  have "\<not> g_transport (otel_set_span_sink (Some (S_sink\<lparr>sk_addr := 2\<rparr>)) started_tracer)"
    by (simp add: started_tracer_def tracer_zero_def otel_init_def otel_set_span_sink_def otel_recompute_enabled_def)
  from failed_open_detaches_other_sink[OF ok _ _ this, where S = S_zero and sk = "S_sink\<lparr>sk_addr := 2\<rparr>"
      and env = "\<lparr>oe_handle = None, oe_open_ok = False, oe_prepared = 0, oe_thread_ok = True\<rparr>"
      and lib = sound_lib and pack = "\<lambda>ms. []" and ms = 0]
  show ?thesis
    by (auto simp: S_sink_def S_zero_def)
qed

end
