(* ===== verification/Otel_Ring_Concurrent.thy ===== *)
theory Otel_Ring_Concurrent
  imports Otel_Ring
begin

text \<open>
  The ring under concurrency: the home thread runs the enqueue of \<^verbatim>\<open>otel_span_end_\<close> while the
  drainer runs \<^verbatim>\<open>otel_drain_ctx\<close>.  A step is one access to shared memory: a load or store of a
  cursor, the copy into a slot, the hand-over of one slot to the exporter.  The release store
  of a cursor and the acquire load by the other side order the slot accesses, so any
  interleaving of these steps is a behaviour and there are no others.  \<open>sc_pushed\<close> and
  \<open>sc_popped\<close> are the history: spans published and spans handed over.  \<open>sc_borrowed\<close> are the
  slots the OTLP batch points into until it is flushed.
\<close>

subsection \<open>States and steps\<close>

datatype 'a producer =
  PIdle
| PHead 'a u64          \<comment> \<open>head loaded\<close>
| PTail 'a u64 u64      \<comment> \<open>tail loaded too\<close>
| PWriting 'a u64       \<comment> \<open>slot copied, head not yet published\<close>

datatype consumer =
  CIdle
| CTail u64             \<comment> \<open>tail loaded\<close>
| CLoop u64 u64         \<comment> \<open>at this cursor, up to this head\<close>
| CDrained              \<comment> \<open>tail published, batch not yet flushed\<close>

record 'a spsc =
  sc_slots :: "nat \<Rightarrow> 'a"
  sc_head :: u64
  sc_tail :: u64
  sc_dropped :: nat
  sc_producer :: "'a producer"
  sc_consumer :: consumer
  sc_pushed :: "'a list"
  sc_popped :: "'a list"
  sc_borrowed :: "(nat \<times> 'a) list"

definition spsc_init :: "(nat \<Rightarrow> 'a) \<Rightarrow> 'a spsc" where
  "spsc_init slots = \<lparr>sc_slots = slots, sc_head = 0, sc_tail = 0, sc_dropped = 0, sc_producer = PIdle,
     sc_consumer = CIdle, sc_pushed = [], sc_popped = [], sc_borrowed = []\<rparr>"

definition slot_of :: "nat \<Rightarrow> u64 \<Rightarrow> nat" where
  "slot_of k c = unat (c AND mask k)"

text \<open>The ring has \<open>2 ^ k\<close> slots.\<close>

inductive spsc_step :: "nat \<Rightarrow> 'a spsc \<Rightarrow> 'a spsc \<Rightarrow> bool" for k :: nat where
  load_head: "sc_producer s = PIdle \<Longrightarrow>
    spsc_step k s (s\<lparr>sc_producer := PHead x (sc_head s)\<rparr>)"
| load_tail: "sc_producer s = PHead x h \<Longrightarrow>
    spsc_step k s (s\<lparr>sc_producer := PTail x h (sc_tail s)\<rparr>)"
| drop_full: "sc_producer s = PTail x h t \<Longrightarrow> h - t \<ge> 2 ^ k \<Longrightarrow>
    spsc_step k s (s\<lparr>sc_producer := PIdle, sc_dropped := sc_dropped s + 1\<rparr>)"
| write_slot: "sc_producer s = PTail x h t \<Longrightarrow> h - t < 2 ^ k \<Longrightarrow>
    spsc_step k s (s\<lparr>sc_producer := PWriting x h, sc_slots := (sc_slots s)(slot_of k h := x)\<rparr>)"
| publish_head: "sc_producer s = PWriting x h \<Longrightarrow>
    spsc_step k s (s\<lparr>sc_producer := PIdle, sc_head := h + 1, sc_pushed := sc_pushed s @ [x]\<rparr>)"
| drain_tail: "sc_consumer s = CIdle \<Longrightarrow>
    spsc_step k s (s\<lparr>sc_consumer := CTail (sc_tail s)\<rparr>)"
| drain_head: "sc_consumer s = CTail t \<Longrightarrow>
    spsc_step k s (s\<lparr>sc_consumer := CLoop t (sc_head s)\<rparr>)"
| emit_slot: "sc_consumer s = CLoop t h \<Longrightarrow> t \<noteq> h \<Longrightarrow>
    spsc_step k s (s\<lparr>sc_consumer := CLoop (t + 1) h, sc_popped := sc_popped s @ [sc_slots s (slot_of k t)],
      sc_borrowed := sc_borrowed s @ [(slot_of k t, sc_slots s (slot_of k t))]\<rparr>)"
| publish_tail: "sc_consumer s = CLoop h h \<Longrightarrow>
    spsc_step k s (s\<lparr>sc_consumer := CDrained, sc_tail := h\<rparr>)"
| flush_batch: "sc_consumer s = CDrained \<Longrightarrow>
    spsc_step k s (s\<lparr>sc_consumer := CIdle, sc_borrowed := []\<rparr>)"

inductive_cases spsc_stepE: "spsc_step k s s'"

lemmas spsc_step_cases = spsc_stepE [consumes 1, case_names load_head load_tail drop_full write_slot
  publish_head drain_tail drain_head emit_slot publish_tail flush_batch]

definition spsc_reachable :: "nat \<Rightarrow> 'a spsc \<Rightarrow> bool" where
  "spsc_reachable k s \<longleftrightarrow> (\<exists>slots. (spsc_step k)\<^sup>*\<^sup>* (spsc_init slots) s)"

subsection \<open>The invariant\<close>

text \<open>\<open>n\<close> is the number of spans whose slots the drainer has given back.\<close>

fun producer_inv :: "nat \<Rightarrow> nat \<Rightarrow> 'a spsc \<Rightarrow> 'a producer \<Rightarrow> bool" where
  "producer_inv k n s PIdle \<longleftrightarrow> True"
| "producer_inv k n s (PHead x h) \<longleftrightarrow> h = sc_head s"
| "producer_inv k n s (PTail x h t) \<longleftrightarrow> h = sc_head s \<and>
     (\<exists>m \<le> n. t = of_nat m \<and> length (sc_pushed s) \<le> m + 2 ^ k)"
| "producer_inv k n s (PWriting x h) \<longleftrightarrow> h = sc_head s \<and> length (sc_pushed s) < n + 2 ^ k \<and>
     sc_slots s (length (sc_pushed s) mod 2 ^ k) = x"

definition borrow_ok :: "nat \<Rightarrow> nat \<Rightarrow> 'a spsc \<Rightarrow> bool" where
  "borrow_ok k n s \<longleftrightarrow> (\<forall>b \<in> set (sc_borrowed s). \<exists>j. n \<le> j \<and> j < length (sc_popped s) \<and>
     b = (j mod 2 ^ k, sc_pushed s ! j))"

fun consumer_inv :: "nat \<Rightarrow> nat \<Rightarrow> 'a spsc \<Rightarrow> consumer \<Rightarrow> bool" where
  "consumer_inv k n s CIdle \<longleftrightarrow> length (sc_popped s) = n \<and> sc_borrowed s = []"
| "consumer_inv k n s (CTail t) \<longleftrightarrow> length (sc_popped s) = n \<and> t = of_nat n \<and> sc_borrowed s = []"
| "consumer_inv k n s (CLoop t h) \<longleftrightarrow> t = of_nat (length (sc_popped s)) \<and> borrow_ok k n s \<and>
     (\<exists>m. h = of_nat m \<and> length (sc_popped s) \<le> m \<and> m \<le> length (sc_pushed s))"
| "consumer_inv k n s CDrained \<longleftrightarrow> length (sc_popped s) = n"

definition spsc_inv :: "nat \<Rightarrow> 'a spsc \<Rightarrow> bool" where
  "spsc_inv k s \<longleftrightarrow> (\<exists>n. sc_head s = of_nat (length (sc_pushed s)) \<and> sc_tail s = of_nat n \<and>
     n \<le> length (sc_popped s) \<and> length (sc_popped s) \<le> length (sc_pushed s) \<and>
     length (sc_pushed s) \<le> n + 2 ^ k \<and>
     prefix (sc_popped s) (sc_pushed s) \<and>
     (\<forall>i. n \<le> i \<and> i < length (sc_pushed s) \<longrightarrow> sc_slots s (i mod 2 ^ k) = sc_pushed s ! i) \<and>
     producer_inv k n s (sc_producer s) \<and> consumer_inv k n s (sc_consumer s))"

lemma slot_of_nat: "k \<le> 64 \<Longrightarrow> slot_of k (of_nat i) = i mod 2 ^ k"
  using unat_and_mask_pow2[of k "of_nat i"] unat_add_nat[of k 0 i] by (simp add: slot_of_def)

lemma spsc_inv_init: "spsc_inv k (spsc_init slots)"
  by (auto simp: spsc_inv_def spsc_init_def intro!: exI[of _ 0])

lemma unat_of_nat_diff:
  "m \<le> n \<Longrightarrow> n - m < 2 ^ 64 \<Longrightarrow> unat ((of_nat n :: u64) - of_nat m) = n - m"
proof -
  assume "m \<le> n" "n - m < 2 ^ 64"
  then have "(of_nat n :: u64) - of_nat m = of_nat (n - m)"
    by simp
  then show ?thesis
    using unat_of_nat_small[of "n - m", where ?'a = 64] \<open>n - m < 2 ^ 64\<close> by simp
qed

lemma of_nat_eq_diff:
  "m \<le> n \<Longrightarrow> n - m < 2 ^ 64 \<Longrightarrow> (of_nat m :: u64) = of_nat n \<longleftrightarrow> m = n"
  using unat_of_nat_diff[of m n] by auto

lemma pow2_64: "k \<le> 31 \<Longrightarrow> unat (2 ^ k :: u64) = 2 ^ k"
proof -
  assume "k \<le> 31"
  then have "(2 :: nat) ^ k < 2 ^ LENGTH(64)"
    by (intro power_strict_increasing) simp_all
  then have "unat (of_nat (2 ^ k) :: u64) = 2 ^ k"
    by (rule unat_of_nat_small)
  then show ?thesis by simp
qed

lemma pow2_k_less: "k \<le> 31 \<Longrightarrow> (2 :: nat) ^ k < 2 ^ 64"
  by (intro power_strict_increasing) simp_all

lemma spsc_inv_step:
  assumes k: "k \<le> 31" and inv: "spsc_inv k s" and step: "spsc_step k s s'"
  shows "spsc_inv k s'"
proof -
  let ?N = "length (sc_pushed s)" and ?P = "length (sc_popped s)"
  obtain n where head: "sc_head s = of_nat ?N" and tail: "sc_tail s = of_nat n" and n: "n \<le> ?P"
    and P: "?P \<le> ?N" and cap: "?N \<le> n + 2 ^ k" and pre: "prefix (sc_popped s) (sc_pushed s)"
    and slots: "\<And>i. n \<le> i \<Longrightarrow> i < ?N \<Longrightarrow> sc_slots s (i mod 2 ^ k) = sc_pushed s ! i"
    and prod: "producer_inv k n s (sc_producer s)" and cons: "consumer_inv k n s (sc_consumer s)"
    using inv unfolding spsc_inv_def by blast
  note small = pow2_k_less[OF k]
  have cons_same: "consumer_inv k n s2 (sc_consumer s)"
    if "sc_popped s2 = sc_popped s" "sc_pushed s2 = sc_pushed s" "sc_borrowed s2 = sc_borrowed s" for s2
    using that cons by (cases "sc_consumer s") (auto simp: borrow_ok_def)
  have prod_same: "producer_inv k n s2 (sc_producer s)"
    if "sc_head s2 = sc_head s" "sc_pushed s2 = sc_pushed s" "sc_slots s2 = sc_slots s" for s2
    using that prod by (cases "sc_producer s") auto
  show ?thesis
    using step
  proof (cases rule: spsc_step_cases)
    case (load_head x)
    then show ?thesis
      unfolding spsc_inv_def using head tail n P cap pre slots cons
      by (intro exI[of _ n]) (simp add: cons_same)
  next
    case (load_tail x h)
    have "\<exists>m \<le> n. sc_tail s = of_nat m \<and> ?N \<le> m + 2 ^ k"
      using tail cap by blast
    then show ?thesis
      unfolding spsc_inv_def using head tail n P cap pre slots cons prod load_tail
      by (intro exI[of _ n]) (simp add: cons_same)
  next
    case (drop_full x h t)
    then show ?thesis
      unfolding spsc_inv_def using head tail n P cap pre slots cons
      by (intro exI[of _ n]) (simp add: cons_same)
  next
    case (write_slot x h t)
    then obtain m where m: "m \<le> n" "t = of_nat m" "?N \<le> m + 2 ^ k" and h: "h = of_nat ?N"
      using prod head by auto
    have "unat (h - t) = ?N - m"
      using m n P small unfolding h m(2) by (intro unat_of_nat_diff) auto
    then have room: "?N < n + 2 ^ k"
      using write_slot(3) m k by (simp add: word_less_nat_alt pow2_64)
    have slot: "slot_of k h = ?N mod 2 ^ k"
      using k unfolding h by (intro slot_of_nat) simp
    have "i mod 2 ^ k \<noteq> ?N mod 2 ^ k" if "n \<le> i" "i < ?N" for i
      using mod_neq[of i ?N "2 ^ k" 0] that room by simp
    then show ?thesis
      unfolding spsc_inv_def using head tail n P cap pre slots cons room slot h write_slot
      by (intro exI[of _ n]) (simp add: cons_same)
  next
    case (publish_head x h)
    then have w: "h = of_nat ?N" "?N < n + 2 ^ k" "sc_slots s (?N mod 2 ^ k) = x"
      using prod head by auto
    have "borrow_ok k n s \<Longrightarrow>
        borrow_ok k n (s\<lparr>sc_producer := PIdle, sc_head := h + 1, sc_pushed := sc_pushed s @ [x]\<rparr>)"
      using P by (fastforce simp: borrow_ok_def nth_append)
    then have "consumer_inv k n (s\<lparr>sc_producer := PIdle, sc_head := h + 1, sc_pushed := sc_pushed s @ [x]\<rparr>) (sc_consumer s)"
      using cons by (cases "sc_consumer s") auto
    then show ?thesis
      unfolding spsc_inv_def using w tail n P cap pre slots publish_head
      by (intro exI[of _ n]) (auto simp: nth_append less_Suc_eq)
  next
    case drain_tail
    then show ?thesis
      unfolding spsc_inv_def using head tail n P cap pre slots cons prod
      by (intro exI[of _ n]) (simp add: prod_same)
  next
    case (drain_head t)
    then have "borrow_ok k n s'"
      using cons by (auto simp: borrow_ok_def)
    then show ?thesis
      unfolding spsc_inv_def using head tail n P cap pre slots cons prod drain_head
      by (intro exI[of _ n]) (auto simp: prod_same)
  next
    case (emit_slot t h)
    then obtain m where m: "t = of_nat ?P" "h = of_nat m" "?P \<le> m" "m \<le> ?N"
      using cons by auto
    have "?P \<noteq> m"
      using emit_slot m by auto
    then have lt: "?P < ?N" "?P < m"
      using m by auto
    have idx: "slot_of k t = ?P mod 2 ^ k"
      using k unfolding m(1) by (intro slot_of_nat) simp
    then have at: "sc_slots s (slot_of k t) = sc_pushed s ! ?P"
      using slots[of ?P] n lt by simp
    have "borrow_ok k n s"
      using cons emit_slot by simp
    then have "\<forall>b \<in> set (sc_borrowed s). \<exists>j. n \<le> j \<and> j < Suc ?P \<and> b = (j mod 2 ^ k, sc_pushed s ! j)"
      unfolding borrow_ok_def by (meson less_SucI)
    then have "borrow_ok k n s'"
      using emit_slot n idx at by (auto simp: borrow_ok_def)
    note borrow = this
    obtain zs where "sc_pushed s = sc_popped s @ zs"
      using pre by (rule prefixE)
    then have "prefix (sc_popped s @ [sc_slots s (slot_of k t)]) (sc_pushed s)"
      using lt(1) at by (cases zs) (auto simp: prefix_def)
    then show ?thesis
      unfolding spsc_inv_def using head tail n P cap slots prod borrow emit_slot m lt
      by (intro exI[of _ n]) (auto simp: prod_same)
  next
    case (publish_tail h)
    then obtain m where m: "h = of_nat ?P" "h = of_nat m" "?P \<le> m" "m \<le> ?N"
      using cons by auto
    have "producer_inv k ?P s (sc_producer s)"
      using prod n by (cases "sc_producer s") (auto intro: le_trans)
    then have "producer_inv k ?P (s\<lparr>sc_consumer := CDrained, sc_tail := h\<rparr>) (sc_producer s)"
      by (cases "sc_producer s") auto
    then show ?thesis
      unfolding spsc_inv_def using head n P cap pre slots publish_tail m
      by (intro exI[of _ ?P]) auto
  next
    case flush_batch
    then show ?thesis
      unfolding spsc_inv_def using head tail n P cap pre slots cons prod
      by (intro exI[of _ n]) (simp add: prod_same)
  qed
qed

lemma spsc_reachable_inv: "k \<le> 31 \<Longrightarrow> spsc_reachable k s \<Longrightarrow> spsc_inv k s"
proof -
  assume k: "k \<le> 31" and "spsc_reachable k s"
  then obtain slots where "(spsc_step k)\<^sup>*\<^sup>* (spsc_init slots) s"
    by (auto simp: spsc_reachable_def)
  then show ?thesis
    by (induction rule: rtranclp_induct) (auto intro: spsc_inv_init spsc_inv_step[OF k])
qed

subsection \<open>Some runs\<close>

lemma enqueue_steps:
  assumes "sc_producer s = PIdle" and "sc_head s - sc_tail s < 2 ^ k"
  shows "(spsc_step k)\<^sup>*\<^sup>* s (s\<lparr>sc_slots := (sc_slots s)(slot_of k (sc_head s) := x), sc_head := sc_head s + 1,
    sc_pushed := sc_pushed s @ [x]\<rparr>)"
proof -
  define s1 where "s1 = s\<lparr>sc_producer := PHead x (sc_head s)\<rparr>"
  define s2 where "s2 = s1\<lparr>sc_producer := PTail x (sc_head s) (sc_tail s)\<rparr>"
  define s3 where "s3 = s2\<lparr>sc_producer := PWriting x (sc_head s), sc_slots := (sc_slots s)(slot_of k (sc_head s) := x)\<rparr>"
  define s4 where "s4 = s3\<lparr>sc_producer := PIdle, sc_head := sc_head s + 1, sc_pushed := sc_pushed s @ [x]\<rparr>"
  have "spsc_step k s s1" "spsc_step k s1 s2" "spsc_step k s2 s3" "spsc_step k s3 s4"
    using load_head[of s k x] load_tail[of s1 x "sc_head s" k] write_slot[of s2 x "sc_head s" "sc_tail s" k]
      publish_head[of s3 x "sc_head s" k] assms
    by (simp_all add: s1_def s2_def s3_def s4_def)
  moreover have "s4 = s\<lparr>sc_slots := (sc_slots s)(slot_of k (sc_head s) := x), sc_head := sc_head s + 1,
      sc_pushed := sc_pushed s @ [x]\<rparr>"
    using assms(1) by (simp add: s1_def s2_def s3_def s4_def)
  ultimately show ?thesis
    by (metis rtranclp.rtrancl_into_rtrancl rtranclp.rtrancl_refl)
qed

lemma drain_one_steps:
  fixes k :: nat
  assumes "sc_consumer s = CIdle" and "sc_tail s + 1 = sc_head s"
  defines "b \<equiv> (slot_of k (sc_tail s), sc_slots s (slot_of k (sc_tail s)))"
  shows "(spsc_step k)\<^sup>*\<^sup>* s (s\<lparr>sc_consumer := CDrained, sc_popped := sc_popped s @ [snd b],
    sc_borrowed := sc_borrowed s @ [b], sc_tail := sc_head s\<rparr>)"
proof -
  define s1 where "s1 = s\<lparr>sc_consumer := CTail (sc_tail s)\<rparr>"
  define s2 where "s2 = s1\<lparr>sc_consumer := CLoop (sc_tail s) (sc_head s)\<rparr>"
  define s3 where "s3 = s2\<lparr>sc_consumer := CLoop (sc_tail s + 1) (sc_head s), sc_popped := sc_popped s @ [snd b],
    sc_borrowed := sc_borrowed s @ [b]\<rparr>"
  define s4 where "s4 = s3\<lparr>sc_consumer := CDrained, sc_tail := sc_head s\<rparr>"
  have ne: "sc_tail s \<noteq> sc_head s"
    using assms(2) by (metis add_cancel_right_right zero_neq_one)
  have "spsc_step k s s1" "spsc_step k s1 s2" "spsc_step k s2 s3" "spsc_step k s3 s4"
    using drain_tail[of s k] drain_head[of s1 "sc_tail s" k] emit_slot[of s2 "sc_tail s" "sc_head s" k]
      publish_tail[of s3 "sc_head s" k] assms ne
    by (simp_all add: s1_def s2_def s3_def s4_def b_def)
  moreover have "s4 = s\<lparr>sc_consumer := CDrained, sc_popped := sc_popped s @ [snd b],
    sc_borrowed := sc_borrowed s @ [b], sc_tail := sc_head s\<rparr>"
    by (simp add: s1_def s2_def s3_def s4_def)
  ultimately show ?thesis
    by (metis rtranclp.rtrancl_into_rtrancl rtranclp.rtrancl_refl)
qed

text \<open>The ring of two slots after \<open>7\<close> was published and drained but not flushed.\<close>

lemma drained_state:
  "\<exists>s. spsc_reachable 1 s \<and> sc_producer s = PIdle \<and> sc_consumer s = CDrained \<and> sc_head s = 1 \<and> sc_tail s = 1 \<and>
     sc_borrowed s = [(0, 7 :: nat)] \<and> sc_pushed s = [7] \<and> sc_popped s = [7]"
proof -
  define s0 where "s0 = spsc_init (\<lambda>_. 0 :: nat)"
  define s1 where "s1 = s0\<lparr>sc_slots := (sc_slots s0)(0 := 7), sc_head := 1, sc_pushed := [7]\<rparr>"
  define s2 where "s2 = s1\<lparr>sc_consumer := CDrained, sc_popped := [7], sc_borrowed := [(0, 7)], sc_tail := 1\<rparr>"
  have slot: "slot_of (Suc 0) 0 = 0"
    by (simp add: slot_of_def)
  have "(spsc_step 1)\<^sup>*\<^sup>* s0 s1"
    using enqueue_steps[of s0 1 7] by (simp add: s0_def s1_def spsc_init_def slot)
  moreover have "(spsc_step 1)\<^sup>*\<^sup>* s1 s2"
    using drain_one_steps[of s1 1] by (simp add: s0_def s1_def s2_def spsc_init_def slot)
  ultimately have "spsc_reachable 1 s2"
    unfolding spsc_reachable_def s0_def by (meson rtranclp_trans)
  then show ?thesis
    by (intro exI[of _ s2]) (simp add: s0_def s1_def s2_def spsc_init_def)
qed

text \<open>A run of the ring of two slots: \<open>7\<close> is published and the drainer is about to hand it over
  while \<open>8\<close> is copied into the other slot.\<close>

lemma race_state:
  "\<exists>s. spsc_reachable 1 s \<and> sc_producer s = PWriting (8 :: nat) 1 \<and> sc_consumer s = CLoop 0 1"
proof -
  define s0 where "s0 = spsc_init (\<lambda>_. 0 :: nat)"
  define s1 where "s1 = s0\<lparr>sc_producer := PHead 7 0\<rparr>"
  define s2 where "s2 = s1\<lparr>sc_producer := PTail 7 0 0\<rparr>"
  define s3 where "s3 = s2\<lparr>sc_producer := PWriting 7 0, sc_slots := (sc_slots s2)(slot_of 1 0 := 7)\<rparr>"
  define s4 where "s4 = s3\<lparr>sc_producer := PIdle, sc_head := 0 + 1, sc_pushed := sc_pushed s3 @ [7]\<rparr>"
  define s5 where "s5 = s4\<lparr>sc_producer := PHead 8 1\<rparr>"
  define s6 where "s6 = s5\<lparr>sc_producer := PTail 8 1 0\<rparr>"
  define s7 where "s7 = s6\<lparr>sc_producer := PWriting 8 1, sc_slots := (sc_slots s6)(slot_of 1 1 := 8)\<rparr>"
  define s8 where "s8 = s7\<lparr>sc_consumer := CTail 0\<rparr>"
  define s9 where "s9 = s8\<lparr>sc_consumer := CLoop 0 1\<rparr>"
  note defs = s0_def s1_def s2_def s3_def s4_def s5_def s6_def s7_def s8_def s9_def spsc_init_def
  have steps: "spsc_step 1 s0 s1" "spsc_step 1 s1 s2" "spsc_step 1 s2 s3" "spsc_step 1 s3 s4"
    "spsc_step 1 s4 s5" "spsc_step 1 s5 s6" "spsc_step 1 s6 s7" "spsc_step 1 s7 s8" "spsc_step 1 s8 s9"
    using load_head[of s0 1 7] load_tail[of s1 7 0 1] write_slot[of s2 7 0 0 1] publish_head[of s3 7 0 1]
      load_head[of s4 1 8] load_tail[of s5 8 1 1] write_slot[of s6 8 1 0 1] drain_tail[of s7 1] drain_head[of s8 0 1]
    by (simp_all add: defs)
  then have "(spsc_step 1)\<^sup>*\<^sup>* s0 s9"
    by (meson rtranclp.rtrancl_into_rtrancl rtranclp.rtrancl_refl)
  then have "spsc_reachable 1 s9"
    unfolding spsc_reachable_def s0_def by blast
  moreover have "sc_producer s9 = PWriting 8 1" "sc_consumer s9 = CLoop 0 1"
    by (simp_all add: defs)
  ultimately show ?thesis by blast
qed

subsection \<open>Properties\<close>

text \<open>C7: under every interleaving the spans handed to the exporter are a prefix of the spans the
  home thread published, in order, and never more than a ring full is outstanding.\<close>

theorem concurrent_ring_is_fifo:
  assumes "k \<le> 31" and "spsc_reachable k s"
  shows "prefix (sc_popped s) (sc_pushed s) \<and> length (sc_pushed s) - length (sc_popped s) \<le> 2 ^ k"
  using spsc_reachable_inv[OF assms] unfolding spsc_inv_def by (auto simp: le_diff_conv)

lemma concurrent_ring_is_fifo_witness:
  "\<exists>s :: nat spsc. spsc_reachable 1 s \<and> sc_popped s = [7] \<and> prefix (sc_popped s) (sc_pushed s)"
proof -
  obtain s where s: "spsc_reachable 1 s" "sc_popped s = [7 :: nat]"
    using drained_state by blast
  then show ?thesis
    using concurrent_ring_is_fifo[OF _ s(1)] by auto
qed

text \<open>C21: up to the release of the slots there is no race on them: while the home thread writes a slot,
  that slot is neither one the drainer has still to read nor one the batch points into, as
  long as the drainer has not published its tail.  A slot of the batch can be written in one
  state of the drainer only, between the publication of the tail and the flush; there it does
  happen (\<open>batch_can_lose_borrowed_span\<close>).\<close>

theorem no_slot_race_before_release:
  assumes "k \<le> 31" and "spsc_reachable k s" and "sc_producer s = PWriting x h"
  shows "(\<forall>t h' i. sc_consumer s = CLoop t h' \<and> i < unat (h' - t) \<longrightarrow> slot_of k h \<noteq> slot_of k (t + of_nat i)) \<and>
    (slot_of k h \<in> fst ` set (sc_borrowed s) \<longrightarrow> sc_consumer s = CDrained)"
proof -
  let ?N = "length (sc_pushed s)" and ?P = "length (sc_popped s)"
  obtain n where head: "sc_head s = of_nat ?N" and n: "n \<le> ?P" and P: "?P \<le> ?N"
    and prod: "producer_inv k n s (sc_producer s)" and cons: "consumer_inv k n s (sc_consumer s)"
    using spsc_reachable_inv[OF assms(1,2)] unfolding spsc_inv_def by blast
  from prod assms(3) have h: "h = of_nat ?N" "?N < n + 2 ^ k"
    using head by auto
  have slot: "slot_of k h = ?N mod 2 ^ k"
    using slot_of_nat[of k] assms(1) h(1) by simp
  have other: "j mod 2 ^ k \<noteq> ?N mod 2 ^ k" if "n \<le> j" "j < ?N" for j
    using mod_neq[of j ?N "2 ^ k" 0] h(2) that by simp
  have "slot_of k h \<noteq> slot_of k (t + of_nat i)" if c: "sc_consumer s = CLoop t h'" and i: "i < unat (h' - t)" for t h' i
  proof -
    obtain m where m: "t = of_nat ?P" "h' = of_nat m" "?P \<le> m" "m \<le> ?N"
      using cons c by auto
    have "unat (h' - t) = m - ?P"
      using m n h(2) pow2_k_less[OF assms(1)] unfolding m(1,2) by (intro unat_of_nat_diff) auto
    then have "?P + i < ?N"
      using i m(4) by simp
    moreover have "slot_of k (t + of_nat i) = (?P + i) mod 2 ^ k"
      using slot_of_nat[of k "?P + i"] assms(1) m(1) by simp
    ultimately show ?thesis
      using slot other[of "?P + i"] n by simp
  qed
  moreover have "slot_of k h \<notin> fst ` set (sc_borrowed s)" if "borrow_ok k n s"
    using that slot other P by (fastforce simp: borrow_ok_def)
  then have "sc_consumer s = CDrained" if "slot_of k h \<in> fst ` set (sc_borrowed s)"
    using cons that by (cases "sc_consumer s") auto
  ultimately show ?thesis by blast
qed

lemma no_slot_race_before_release_witness:
  "\<exists>s :: nat spsc. spsc_reachable 1 s \<and> sc_producer s = PWriting 8 1 \<and> sc_consumer s = CLoop 0 1 \<and> slot_of 1 1 \<noteq> slot_of 1 0"
proof -
  obtain s where s: "spsc_reachable 1 s" "sc_producer s = PWriting (8 :: nat) 1" "sc_consumer s = CLoop 0 1"
    using race_state by blast
  then show ?thesis
    using no_slot_race_before_release[OF _ s(1,2)] by (intro exI[of _ s]) force
qed

text \<open>as long as the drainer has not given the slots back, every slot the batch points into
  still holds the span that was handed over.\<close>

theorem borrowed_slots_intact_before_release:
  assumes "k \<le> 31" and "spsc_reachable k s" and "sc_consumer s = CLoop t h" and "(i, x) \<in> set (sc_borrowed s)"
  shows "sc_slots s i = x"
proof -
  obtain n where P: "length (sc_popped s) \<le> length (sc_pushed s)"
    and slots: "\<And>i. n \<le> i \<Longrightarrow> i < length (sc_pushed s) \<Longrightarrow> sc_slots s (i mod 2 ^ k) = sc_pushed s ! i"
    and cons: "consumer_inv k n s (sc_consumer s)"
    using spsc_reachable_inv[OF assms(1,2)] unfolding spsc_inv_def by blast
  from cons assms(3,4) obtain j where "n \<le> j" "j < length (sc_popped s)" "(i, x) = (j mod 2 ^ k, sc_pushed s ! j)"
    by (auto simp: borrow_ok_def)
  then show ?thesis
    using slots[of j] P by simp
qed

lemma borrowed_slots_intact_before_release_witness:
  "\<exists>s :: nat spsc. spsc_reachable 1 s \<and> (0, 7) \<in> set (sc_borrowed s) \<and> sc_slots s 0 = 7"
proof -
  define s0 where "s0 = spsc_init (\<lambda>_. 0 :: nat)"
  define s1 where "s1 = s0\<lparr>sc_slots := (sc_slots s0)(0 := 7), sc_head := 1, sc_pushed := [7]\<rparr>"
  define s2 where "s2 = s1\<lparr>sc_consumer := CTail 0\<rparr>"
  define s3 where "s3 = s2\<lparr>sc_consumer := CLoop 0 1\<rparr>"
  define s4 where "s4 = s3\<lparr>sc_consumer := CLoop 1 1, sc_popped := [7], sc_borrowed := [(0, 7)]\<rparr>"
  note defs = s0_def s1_def s2_def s3_def s4_def spsc_init_def
  have slot: "slot_of (Suc 0) 0 = 0"
    by (simp add: slot_of_def)
  have "(spsc_step 1)\<^sup>*\<^sup>* s0 s1"
    using enqueue_steps[of s0 1 7] by (simp add: s0_def s1_def spsc_init_def slot)
  moreover have "spsc_step 1 s1 s2" "spsc_step 1 s2 s3" "spsc_step 1 s3 s4"
    using drain_tail[of s1 1] drain_head[of s2 0 1] emit_slot[of s3 0 1 1] by (simp_all add: defs slot)
  ultimately have r: "spsc_reachable 1 s4"
    unfolding spsc_reachable_def s0_def by (meson rtranclp.rtrancl_into_rtrancl)
  have c: "sc_consumer s4 = CLoop 1 1" "(0, 7) \<in> set (sc_borrowed s4)"
    by (simp_all add: defs)
  from borrowed_slots_intact_before_release[OF _ r c] show ?thesis
    using r c by auto
qed

text \<open>C34: the slots are given back before the batch that points into them is flushed, and in
  between the home thread can overwrite a span that is still to be packed: in a ring of two
  slots the batch points at span \<open>7\<close> and finds \<open>9\<close>.\<close>

theorem batch_can_lose_borrowed_span:
  "\<exists>s :: nat spsc. spsc_reachable 1 s \<and> (0, 7) \<in> set (sc_borrowed s) \<and> sc_slots s 0 = 9"
proof -
  obtain s where s: "spsc_reachable 1 s" "sc_producer s = PIdle" "sc_consumer s = CDrained" "sc_head s = 1"
    "sc_tail s = 1" "sc_borrowed s = [(0, 7 :: nat)]"
    using drained_state by blast
  define s1 where "s1 = s\<lparr>sc_slots := (sc_slots s)(1 := 8), sc_head := 2, sc_pushed := sc_pushed s @ [8]\<rparr>"
  define s2 where "s2 = s1\<lparr>sc_slots := (sc_slots s1)(0 := 9), sc_head := 3, sc_pushed := sc_pushed s1 @ [9]\<rparr>"
  have "slot_of (Suc 0) 1 = 1" "slot_of (Suc 0) 2 = 0"
    by (simp_all add: slot_of_def)
  then have "(spsc_step 1)\<^sup>*\<^sup>* s s1" "(spsc_step 1)\<^sup>*\<^sup>* s1 s2"
    using enqueue_steps[of s 1 8] enqueue_steps[of s1 1 9] s by (simp_all add: s1_def s2_def)
  then have "spsc_reachable 1 s2"
    using s(1) unfolding spsc_reachable_def by (meson rtranclp_trans)
  moreover have "(0, 7) \<in> set (sc_borrowed s2)" "sc_slots s2 0 = 9"
    using s(6) by (simp_all add: s1_def s2_def)
  ultimately show ?thesis by blast
qed

end
