(* ===== verification/Otel_Trace_Tool.thy ===== *)
theory Otel_Trace_Tool
  imports Otel_Text "HOL-Library.Word" "HOL-Library.Signed_Division" "HOL-Library.Monad_Syntax"
begin

text \<open>
  The command line tool \<^verbatim>\<open>tools/otel-trace.c\<close>.  Its environment is the parameter \<open>lib\<close>: SQLite
  (opening a file, compiling and running a statement with bound values), the clock, the local
  calendar and the C library's text for doubles.  What a command prints is a list of bytes,
  what it returns an exit code; diagnostics on standard error are left out.  \<open>None\<close> is a signed
  overflow.
\<close>

subsection \<open>The environment\<close>

datatype sql_value = SNull | SInt int | SText "byte list" | SReal u64

record 'db cli_lib =
  cl_open :: "byte list \<Rightarrow> 'db option"
  cl_prepare :: "'db \<Rightarrow> byte list \<Rightarrow> bool"
  cl_rows :: "'db \<Rightarrow> byte list \<Rightarrow> (nat \<times> sql_value) list \<Rightarrow> sql_value list list"
  cl_exec :: "'db \<Rightarrow> byte list \<Rightarrow> (byte list \<times> byte list option) list list \<times> bool"
  cl_int_of_text :: "byte list \<Rightarrow> int"
  cl_int_of_real :: "u64 \<Rightarrow> int"
  cl_text_of_real :: "u64 \<Rightarrow> byte list"
  cl_real_of :: "sql_value \<Rightarrow> u64"
  cl_printf_g :: "u64 \<Rightarrow> byte list"
  cl_strftime :: "int \<Rightarrow> byte list"
  cl_now :: int

subsection \<open>C library formatting and parsing\<close>

fun dec_nat :: "nat \<Rightarrow> byte list" where
  "dec_nat n = (if n < 10 then [48 + of_nat n] else dec_nat (n div 10) @ [48 + of_nat (n mod 10)])"

declare dec_nat.simps [simp del]

definition dec :: "int \<Rightarrow> byte list" where
  "dec i = (if i < 0 then 45 # dec_nat (nat (- i)) else dec_nat (nat i))"

definition zero_padded :: "nat \<Rightarrow> nat \<Rightarrow> byte list" where
  "zero_padded w n = replicate (w - length (dec_nat n)) 48 @ dec_nat n"

definition left_justified :: "nat \<Rightarrow> byte list \<Rightarrow> byte list" where
  "left_justified w s = s @ replicate (w - length s) 32"

definition right_justified :: "nat \<Rightarrow> byte list \<Rightarrow> byte list" where
  "right_justified w s = replicate (w - length s) 32 @ s"

text \<open>Round to nearest, ties to even; the double next to \<open>n / d\<close> as a fraction; \<^verbatim>\<open>printf\<close> with
  \<^verbatim>\<open>%.<p>f\<close> for the double that \<^verbatim>\<open>n / (double) d\<close> computes for \<open>0 < n\<close>.\<close>

definition round_even :: "int \<Rightarrow> int \<Rightarrow> int" where
  "round_even n d = (let q = n div d; r = n mod d in if 2 * r < d \<or> 2 * r = d \<and> even q then q else q + 1)"

fun bit_size :: "nat \<Rightarrow> nat" where
  "bit_size n = (if n = 0 then 0 else Suc (bit_size (n div 2)))"

declare bit_size.simps [simp del]

definition scaled :: "int \<Rightarrow> int \<Rightarrow> int \<Rightarrow> int \<times> int" where
  "scaled s n d = (n * 2 ^ nat s, d * 2 ^ nat (- s))"

definition to_double :: "int \<Rightarrow> int \<Rightarrow> int \<times> int" where
  "to_double n d =
     (let s = 53 + int (bit_size (nat d)) - int (bit_size (nat n));
          (a, b) = scaled s n d;
          s = (if a < b * 2 ^ 53 then s else s - 1);
          (a, b) = scaled s n d
      in (round_even a b * 2 ^ nat (- s), 2 ^ nat s))"

definition printf_fixed :: "nat \<Rightarrow> int \<Rightarrow> int \<Rightarrow> byte list" where
  "printf_fixed p n d =
     (let (a, b) = to_double n 1; (a, b) = to_double a (b * d); v = nat (round_even (a * 10 ^ p) b)
      in dec_nat (v div 10 ^ p) @ 46 # zero_padded p (v mod 10 ^ p))"

definition is_space :: "byte \<Rightarrow> bool" where
  "is_space b \<longleftrightarrow> b = 32 \<or> (9 \<le> b \<and> b \<le> 13)"

fun digits_value :: "nat \<Rightarrow> byte list \<Rightarrow> nat" where
  "digits_value acc [] = acc"
| "digits_value acc (b # bs) = (if 48 \<le> b \<and> b \<le> 57 then digits_value (10 * acc + unat (b - 48)) bs else acc)"

definition strtoll :: "byte list \<Rightarrow> int" where
  "strtoll s =
     (let s = dropWhile is_space s;
          v = (case s of b # bs \<Rightarrow> if b = 45 then - int (digits_value 0 bs)
                                   else if b = 43 then int (digits_value 0 bs) else int (digits_value 0 s)
               | [] \<Rightarrow> 0)
      in max (- (2 ^ 63)) (min (2 ^ 63 - 1) v))"

definition atoi :: "byte list \<Rightarrow> int" where
  "atoi s = sint (word_of_int (strtoll s) :: 32 word)"

subsection \<open>Small renderings\<close>

definition kind_name :: "int \<Rightarrow> byte list" where
  "kind_name k = ascii (if k = 1 then ''server'' else if k = 2 then ''client'' else if k = 3 then ''producer''
     else if k = 4 then ''consumer'' else ''internal'')"

definition status_name :: "int \<Rightarrow> byte list" where
  "status_name s = ascii (if s = 1 then ''ok'' else if s = 2 then ''ERROR'' else ''unset'')"

definition signed_3 :: "int \<Rightarrow> byte list" where
  "signed_3 ms = (if ms < 0 then 45 # zero_padded 2 (nat (- ms)) else zero_padded 3 (nat ms))"

definition fmt_time :: "'db cli_lib \<Rightarrow> int \<Rightarrow> nat \<Rightarrow> byte list" where
  "fmt_time lib unix_ns outlen =
     (let secs = unix_ns sdiv 1000000000; ms = (unix_ns smod 1000000000) sdiv 1000000
      in take (outlen - 1) (take 31 (cl_strftime lib secs) @ 46 # signed_3 ms))"

definition fmt_dur :: "int \<Rightarrow> nat \<Rightarrow> byte list" where
  "fmt_dur ns outlen = take (outlen - 1)
     (if ns < 1000 then dec ns @ ascii ''ns''
      else if ns < 1000000 then printf_fixed 1 ns 1000 @ ascii ''us''
      else if ns < 1000000000 then printf_fixed 2 ns 1000000 @ ascii ''ms''
      else printf_fixed 2 ns 1000000000 @ ascii ''s'')"

definition make_pad :: "int \<Rightarrow> byte list" where
  "make_pad width =
     (let width = (if width > 60 then 60 else width); width = (if width < 0 then 0 else width)
      in replicate (nat width) 32)"

subsection \<open>Columns of a row\<close>

definition col :: "sql_value list \<Rightarrow> nat \<Rightarrow> sql_value" where
  "col row k = (if k < length row then row ! k else SNull)"

text \<open>\<^verbatim>\<open>sqlite3_column_text\<close> (\<open>None\<close> is the null pointer), read as a C string as all its users do, and
  \<^verbatim>\<open>sqlite3_column_int64\<close>.\<close>

definition column_text :: "'db cli_lib \<Rightarrow> sql_value list \<Rightarrow> nat \<Rightarrow> byte list option" where
  "column_text lib row k = (case col row k of
     SNull \<Rightarrow> None | SInt i \<Rightarrow> Some (dec i) | SText t \<Rightarrow> Some (takeWhile (\<lambda>b. b \<noteq> 0) t)
   | SReal r \<Rightarrow> Some (cl_text_of_real lib r))"

definition column_int :: "'db cli_lib \<Rightarrow> sql_value list \<Rightarrow> nat \<Rightarrow> int" where
  "column_int lib row k = (case col row k of
     SNull \<Rightarrow> 0 | SInt i \<Rightarrow> i | SText t \<Rightarrow> cl_int_of_text lib t | SReal r \<Rightarrow> cl_int_of_real lib r)"

definition text_or :: "byte list option \<Rightarrow> string \<Rightarrow> byte list" where
  "text_or t d = (case t of None \<Rightarrow> ascii d | Some x \<Rightarrow> x)"

text \<open>\<^verbatim>\<open>sqlite3_column_int\<close> keeps the low 32 bits.\<close>

definition int32 :: "int \<Rightarrow> int" where
  "int32 i = sint (word_of_int i :: 32 word)"

text \<open>A difference of two \<^verbatim>\<open>long long\<close>.\<close>

definition minus64 :: "int \<Rightarrow> int \<Rightarrow> int option" where
  "minus64 a b = (if - (2 ^ 63) \<le> a - b \<and> a - b < 2 ^ 63 then Some (a - b) else None)"

definition times64 :: "int \<Rightarrow> int \<Rightarrow> int option" where
  "times64 a b = (if - (2 ^ 63) \<le> a * b \<and> a * b < 2 ^ 63 then Some (a * b) else None)"

subsection \<open>Filters\<close>

record filters =
  fi_service :: "byte list option"
  fi_name :: "byte list option"
  fi_status_error :: bool
  fi_since_sec :: int
  fi_min_duration_us :: int
  fi_limit :: int

definition no_filters :: filters where
  "no_filters = \<lparr>fi_service = None, fi_name = None, fi_status_error = False, fi_since_sec = 0, fi_min_duration_us = 0, fi_limit = 0\<rparr>"

text \<open>\<^verbatim>\<open>strncat(sql, s, cap - strlen(sql) - 1)\<close>.\<close>

definition append_sql :: "nat \<Rightarrow> string \<Rightarrow> byte list \<Rightarrow> byte list" where
  "append_sql cap s sql = sql @ take (cap - length sql - 1) (ascii s)"

definition append_filters :: "nat \<Rightarrow> filters \<Rightarrow> byte list \<Rightarrow> byte list" where
  "append_filters cap f sql =
     (let sql = (if fi_service f \<noteq> None then append_sql cap '' AND service = ?'' sql else sql);
          sql = (if fi_name f \<noteq> None then append_sql cap '' AND name = ?'' sql else sql);
          sql = (if fi_status_error f then append_sql cap '' AND status_code = 2'' sql else sql);
          sql = (if fi_since_sec f \<noteq> 0 then append_sql cap '' AND start_unix_ns >= ?'' sql else sql)
      in if fi_min_duration_us f \<noteq> 0 then append_sql cap '' AND duration_ns >= ?'' sql else sql)"

definition bind_filters :: "int \<Rightarrow> nat \<Rightarrow> filters \<Rightarrow> (nat \<times> (nat \<times> sql_value) list) option" where
  "bind_filters now idx f = do {
     let (idx, bs) = (case fi_service f of Some x \<Rightarrow> (idx + 1, [(idx, SText x)]) | None \<Rightarrow> (idx, []));
     let (idx, bs) = (case fi_name f of Some x \<Rightarrow> (idx + 1, bs @ [(idx, SText x)]) | None \<Rightarrow> (idx, bs));
     (idx, bs) \<leftarrow> (if fi_since_sec f \<noteq> 0
        then do { d \<leftarrow> minus64 now (fi_since_sec f); v \<leftarrow> times64 d 1000000000; Some (idx + 1, bs @ [(idx, SInt v)]) }
        else Some (idx, bs));
     if fi_min_duration_us f \<noteq> 0
     then do { v \<leftarrow> times64 (fi_min_duration_us f) 1000; Some (idx + 1, bs @ [(idx, SInt v)]) }
     else Some (idx, bs) }"

text \<open>Prepare a filtered statement with its limit, bind it and run it; the outer \<open>None\<close> is an overflow
  while binding, the inner one a statement that does not compile.\<close>

definition filtered_query :: "'db cli_lib \<Rightarrow> 'db \<Rightarrow> string \<Rightarrow> string \<Rightarrow> filters \<Rightarrow> sql_value list list option option" where
  "filtered_query lib db base tail_sql f =
     (let sql = append_sql 1024 tail_sql (append_filters 1024 f (take 1023 (ascii base)))
      in if \<not> cl_prepare lib db sql then Some None
         else do { (idx, bs) \<leftarrow> bind_filters (cl_now lib) 1 f;
                   Some (Some (cl_rows lib db sql (bs @ [(idx, SInt (if fi_limit f > 0 then fi_limit f else 50))]))) })"

text \<open>Exit code and standard output.\<close>

type_synonym cli_result = "int \<times> byte list"

definition print_rows :: "byte list \<Rightarrow> (sql_value list \<Rightarrow> byte list) \<Rightarrow> sql_value list list option \<Rightarrow> cli_result" where
  "print_rows header line res = (case res of
     None \<Rightarrow> (1, [])
   | Some rows \<Rightarrow> (0, header @ concat (map line rows)))"

subsection \<open>The commands list, spans and stats\<close>

definition list_sql :: string where
  "list_sql = ''SELECT trace_id,       MIN(start_unix_ns),       MAX(end_unix_ns) - MIN(start_unix_ns),       COUNT(*),'' @
     ''       MAX(CASE WHEN status_code=2 THEN 1 ELSE 0 END),       (SELECT name FROM spans r WHERE r.trace_id=s.trace_id '' @
     ''          AND r.parent_id IS NULL LIMIT 1),       (SELECT service FROM spans v WHERE v.trace_id=s.trace_id LIMIT 1)'' @
     '' FROM spans s WHERE 1=1''"

definition list_line :: "'db cli_lib \<Rightarrow> sql_value list \<Rightarrow> byte list" where
  "list_line lib row =
     left_justified 34 (text_or (column_text lib row 0) ''?'') @ 32 #
     left_justified 10 (text_or (column_text lib row 6) ''-'') @ 32 #
     left_justified 23 (fmt_time lib (column_int lib row 1) 40) @ 32 #
     right_justified 10 (fmt_dur (column_int lib row 2) 24) @ 32 #
     right_justified 5 (dec (int32 (column_int lib row 3))) @ 32 #
     text_or (column_text lib row 5) ''(no root)'' @
     (if int32 (column_int lib row 4) \<noteq> 0 then ascii ''  [ERROR]'' else []) @ [10]"

definition cmd_list :: "'db cli_lib \<Rightarrow> 'db \<Rightarrow> filters \<Rightarrow> cli_result option" where
  "cmd_list lib db f = do {
     res \<leftarrow> filtered_query lib db list_sql '' GROUP BY trace_id ORDER BY MIN(start_unix_ns) DESC LIMIT ?'' f;
     Some (print_rows (left_justified 34 (ascii ''TRACE ID'') @ 32 # left_justified 10 (ascii ''SERVICE'') @ 32 #
         left_justified 23 (ascii ''START'') @ 32 # right_justified 10 (ascii ''DURATION'') @ 32 #
         right_justified 5 (ascii ''SPANS'') @ 32 # ascii ''ROOT'' @ [10]) (list_line lib) res) }"

definition spans_sql :: string where
  "spans_sql = ''SELECT start_unix_ns,duration_ns,service,name,kind,status_code,trace_id FROM spans WHERE 1=1''"

definition spans_line :: "'db cli_lib \<Rightarrow> sql_value list \<Rightarrow> byte list" where
  "spans_line lib row =
     left_justified 23 (fmt_time lib (column_int lib row 0) 40) @ 32 #
     right_justified 10 (fmt_dur (column_int lib row 1) 24) @ 32 #
     left_justified 10 (text_or (column_text lib row 2) ''-'') @ 32 #
     left_justified 8 (kind_name (int32 (column_int lib row 4))) @ 32 #
     left_justified 6 (status_name (int32 (column_int lib row 5))) @ 32 #
     left_justified 24 (text_or (column_text lib row 3) ''?'') @ 32 #
     text_or (column_text lib row 6) ''?'' @ [10]"

definition cmd_spans :: "'db cli_lib \<Rightarrow> 'db \<Rightarrow> filters \<Rightarrow> cli_result option" where
  "cmd_spans lib db f = do {
     res \<leftarrow> filtered_query lib db spans_sql '' ORDER BY start_unix_ns DESC LIMIT ?'' f;
     Some (print_rows (left_justified 23 (ascii ''START'') @ 32 # right_justified 10 (ascii ''DURATION'') @ 32 #
         left_justified 10 (ascii ''SERVICE'') @ 32 # left_justified 8 (ascii ''KIND'') @ 32 #
         left_justified 6 (ascii ''STATUS'') @ 32 # left_justified 24 (ascii ''NAME'') @ 32 # ascii ''TRACE'' @ [10])
       (spans_line lib) res) }"

definition stats_sql :: string where
  "stats_sql = ''SELECT name, COUNT(*),        CAST(AVG(duration_ns) AS INTEGER),        MIN(duration_ns), MAX(duration_ns), '' @
     ''       SUM(CASE WHEN status_code=2 THEN 1 ELSE 0 END) FROM spans GROUP BY name ORDER BY COUNT(*) DESC LIMIT 50''"

definition stats_line :: "'db cli_lib \<Rightarrow> sql_value list \<Rightarrow> byte list" where
  "stats_line lib row =
     left_justified 28 (text_or (column_text lib row 0) ''?'') @ 32 #
     right_justified 8 (dec (int32 (column_int lib row 1))) @ 32 #
     right_justified 10 (fmt_dur (column_int lib row 2) 24) @ 32 #
     right_justified 10 (fmt_dur (column_int lib row 3) 24) @ 32 #
     right_justified 10 (fmt_dur (column_int lib row 4) 24) @ 32 #
     right_justified 7 (dec (int32 (column_int lib row 5))) @ [10]"

definition cmd_stats :: "'db cli_lib \<Rightarrow> 'db \<Rightarrow> cli_result" where
  "cmd_stats lib db = print_rows
     (left_justified 28 (ascii ''NAME'') @ 32 # right_justified 8 (ascii ''COUNT'') @ 32 # right_justified 10 (ascii ''AVG'') @ 32 #
      right_justified 10 (ascii ''MIN'') @ 32 # right_justified 10 (ascii ''MAX'') @ 32 # right_justified 7 (ascii ''ERRORS'') @ [10])
     (stats_line lib) (if cl_prepare lib db (ascii stats_sql) then Some (cl_rows lib db (ascii stats_sql) []) else None)"

subsection \<open>The command sql\<close>

fun joined :: "byte list list \<Rightarrow> byte list" where
  "joined [] = []"
| "joined [x] = x"
| "joined (x # xs) = x @ 124 # joined xs"

text \<open>The callback prints the column names before the first row; \<^verbatim>\<open>sqlite3_exec\<close> calls it once per row
  with names and values.\<close>

definition sql_print_row :: "(byte list \<times> byte list option) list \<Rightarrow> bool \<times> byte list \<Rightarrow> bool \<times> byte list" where
  "sql_print_row row st =
     (let (first, out) = st;
          out = (if first then out @ joined (map fst row) @ [10] else out)
      in (False, out @ joined (map (\<lambda>x. text_or (snd x) ''NULL'') row) @ [10]))"

definition cmd_sql :: "'db cli_lib \<Rightarrow> 'db \<Rightarrow> byte list \<Rightarrow> cli_result" where
  "cmd_sql lib db query =
     (let (rows, ok) = cl_exec lib db query
      in (if ok then 0 else 1, snd (fold sql_print_row rows (True, []))))"

end
