(* ===== verification/Otel_Trace_Show.thy ===== *)
theory Otel_Trace_Show
  imports Otel_Trace_Tool
begin

text \<open>
  The command \<^verbatim>\<open>show\<close> of \<^verbatim>\<open>tools/otel-trace.c\<close>: the span tree of one trace.  \<open>print_subtree\<close> is
  the recursive walk; \<open>emit d i\<close> is what it prints for node \<open>i\<close> at depth \<open>d\<close>.  The flags
  \<^verbatim>\<open>printed\<close> of the nodes are a list of their own.  The walk is a nested recursion (the second
  half of the loop starts from the flags the inner call left) and is shown to end.
\<close>

subsection \<open>Attributes and events\<close>

definition print_attr_row :: "'db cli_lib \<Rightarrow> byte list \<Rightarrow> sql_value list \<Rightarrow> byte list" where
  "print_attr_row lib pad row =
     (let t = int32 (column_int lib row 1)
      in pad @ ascii ''- '' @ text_or (column_text lib row 0) ''?'' @ ascii '' = '' @
         (if t = 0 then 34 # text_or (column_text lib row 2) ''(null)'' @ [34]
          else if t = 1 \<or> t = 2 then dec (column_int lib row 3)
          else if t = 3 then cl_printf_g lib (cl_real_of lib (col row 4))
          else if t = 4 then ascii (if column_int lib row 3 \<noteq> 0 then ''true'' else ''false'')
          else ascii ''?'') @ [10])"

definition print_attr_rows :: "'db cli_lib \<Rightarrow> byte list \<Rightarrow> sql_value list list \<Rightarrow> byte list" where
  "print_attr_rows lib pad rows = concat (map (print_attr_row lib pad) rows)"

definition event_attrs_sql :: string where
  "event_attrs_sql = ''SELECT key,type,s_val,i_val,d_val FROM span_event_attrs WHERE event=?''"

definition print_event_attrs :: "'db cli_lib \<Rightarrow> 'db \<Rightarrow> int \<Rightarrow> int \<Rightarrow> byte list" where
  "print_event_attrs lib db event_id width =
     (if cl_prepare lib db (ascii event_attrs_sql)
      then print_attr_rows lib (make_pad width) (cl_rows lib db (ascii event_attrs_sql) [(1, SInt event_id)])
      else [])"

definition attrs_sql :: string where
  "attrs_sql = ''SELECT key,type,s_val,i_val,d_val FROM span_attrs WHERE span=?''"

definition events_sql :: string where
  "events_sql = ''SELECT id,name,time_unix_ns FROM span_events WHERE span=? ORDER BY time_unix_ns''"

definition print_event :: "'db cli_lib \<Rightarrow> 'db \<Rightarrow> byte list \<Rightarrow> int \<Rightarrow> sql_value list \<Rightarrow> byte list" where
  "print_event lib db pad p row =
     pad @ ascii ''* event: '' @ text_or (column_text lib row 1) ''(null)'' @ [10] @
     print_event_attrs lib db (column_int lib row 0) (p + 2)"

definition print_attrs_events :: "'db cli_lib \<Rightarrow> 'db \<Rightarrow> int \<Rightarrow> nat \<Rightarrow> byte list" where
  "print_attrs_events lib db span_id depth =
     (let p = int depth * 2 + 2;
          pad = make_pad p;
          p = (if p > 60 then 60 else p)
      in (if cl_prepare lib db (ascii attrs_sql)
          then print_attr_rows lib pad (cl_rows lib db (ascii attrs_sql) [(1, SInt span_id)]) else []) @
         (if cl_prepare lib db (ascii events_sql)
          then concat (map (print_event lib db pad p) (cl_rows lib db (ascii events_sql) [(1, SInt span_id)])) else []))"

subsection \<open>Nodes\<close>

record snode =
  sn_id :: int
  sn_span_id :: "byte list"
  sn_parent_id :: "byte list"
  sn_name :: "byte list option"
  sn_kind :: int
  sn_status :: int
  sn_status_msg :: "byte list option"
  sn_start :: int
  sn_end :: int

text \<open>The test that decides whether the loop prints node \<open>i\<close>: a child of \<open>parent\<close>, or at the top
  level a node without a parent among the nodes.\<close>

definition shown_here :: "snode list \<Rightarrow> byte list option \<Rightarrow> nat \<Rightarrow> bool" where
  "shown_here nodes parent i =
     (case parent of
        Some p \<Rightarrow> sn_parent_id (nodes ! i) = p
      | None \<Rightarrow> sn_parent_id (nodes ! i) = [] \<or> \<not> list_ex (\<lambda>m. sn_span_id m = sn_parent_id (nodes ! i)) nodes)"

subsection \<open>The tree\<close>

text \<open>The lengths of \<open>nodes\<close> and \<open>printed\<close> never differ in the program, whose flags are fields of the
  nodes.\<close>

function print_subtree :: "(nat \<Rightarrow> nat \<Rightarrow> 'o list) \<Rightarrow> snode list \<Rightarrow> byte list option \<Rightarrow> nat \<Rightarrow> nat \<Rightarrow> bool list \<Rightarrow> bool list \<times> 'o list" where
  "print_subtree emit nodes parent depth i printed =
     (if i \<ge> length nodes \<or> length printed \<noteq> length nodes then (printed, [])
      else if printed ! i \<or> \<not> shown_here nodes parent i then print_subtree emit nodes parent depth (i + 1) printed
      else let (printed, out1) = print_subtree emit nodes (Some (sn_span_id (nodes ! i))) (depth + 1) 0 (printed[i := True]);
               (printed, out2) = print_subtree emit nodes parent depth (i + 1) printed
           in (printed, emit depth i @ out1 @ out2))"
  by pat_completeness auto

text \<open>The flags only ever go up, which is what makes the second recursive call smaller.\<close>

definition flags_up :: "bool list \<Rightarrow> bool list \<Rightarrow> bool" where
  "flags_up p q \<longleftrightarrow> length q = length p \<and> (\<forall>i < length p. p ! i \<longrightarrow> q ! i)"

definition unprinted :: "bool list \<Rightarrow> nat" where
  "unprinted p = length (filter Not p)"

lemma flags_up_refl [simp]: "flags_up p p"
  by (simp add: flags_up_def)

lemma flags_up_trans: "flags_up p q \<Longrightarrow> flags_up q r \<Longrightarrow> flags_up p r"
  by (simp add: flags_up_def)

lemma flags_up_set: "flags_up p (p[i := True])"
  unfolding flags_up_def by (metis length_list_update nth_list_update_eq nth_list_update_neq)

lemma unprinted_up: "flags_up p q \<Longrightarrow> unprinted q \<le> unprinted p"
proof -
  assume "flags_up p q"
  then have l: "length q = length p" and up: "\<And>i. i < length p \<Longrightarrow> p ! i \<Longrightarrow> q ! i"
    by (auto simp: flags_up_def)
  have "{i. i < length q \<and> \<not> q ! i} \<subseteq> {i. i < length p \<and> \<not> p ! i}"
    using l up by auto
  then show ?thesis
    unfolding unprinted_def length_filter_conv_card by (intro card_mono) auto
qed

lemma unprinted_set: "i < length p \<Longrightarrow> \<not> p ! i \<Longrightarrow> unprinted (p[i := True]) < unprinted p"
proof -
  assume i: "i < length p" "\<not> p ! i"
  have "p[i := True] ! j \<longleftrightarrow> j = i \<or> p ! j" if "j < length p" for j
    using that i(1) by (cases "j = i") simp_all
  then have "{j. j < length (p[i := True]) \<and> \<not> p[i := True] ! j} \<subset> {j. j < length p \<and> \<not> p ! j}"
    using i by auto
  then show ?thesis
    unfolding unprinted_def length_filter_conv_card by (intro psubset_card_mono) auto
qed

lemma print_subtree_up:
  "print_subtree_dom (emit, nodes, parent, depth, i, printed) \<Longrightarrow>
   flags_up printed (fst (print_subtree emit nodes parent depth i printed))"
proof (induction rule: print_subtree.pinduct)
  case (1 emit nodes parent depth i printed)
  show ?case
  proof (cases "i \<ge> length nodes \<or> length printed \<noteq> length nodes")
    case True
    then show ?thesis
      by (simp add: print_subtree.psimps[OF 1(1)])
  next
    case go: False
    show ?thesis
    proof (cases "printed ! i \<or> \<not> shown_here nodes parent i")
      case True
      then show ?thesis
        using go 1(2)[OF go True] by (simp add: print_subtree.psimps[OF 1(1)])
    next
      case False
      obtain q out1 where q: "print_subtree emit nodes (Some (sn_span_id (nodes ! i))) (depth + 1) 0 (printed[i := True]) = (q, out1)"
        by fastforce
      have "flags_up (printed[i := True]) q" and "flags_up q (fst (print_subtree emit nodes parent depth (i + 1) q))"
        using 1(3)[OF go False] 1(4)[OF go False] q by auto
      then show ?thesis
        using go False q flags_up_set flags_up_trans by (auto simp: print_subtree.psimps[OF 1(1)] split: prod.splits) (metis fst_conv)
    qed
  qed
qed

termination print_subtree
proof (relation "measures [\<lambda>(emit, nodes, parent, depth, i, printed). unprinted printed,
    \<lambda>(emit, nodes, parent, depth, i, printed). length nodes - i]", goal_cases)
  case (4 emit nodes parent depth i printed x q out1)
  have "flags_up (printed[i := True]) q"
    using print_subtree_up[OF 4(5)] 4(3,4) by (metis fst_conv)
  then have "unprinted q < unprinted printed"
    using unprinted_up unprinted_set[of i printed] 4(1,2) by (metis linorder_not_le order.strict_trans1)
  then show ?case by simp
qed (auto simp: unprinted_set)

declare print_subtree.simps [simp del]

subsection \<open>The command\<close>

definition status_text :: "snode \<Rightarrow> byte list" where
  "status_text s =
     (if sn_status s = 2
      then take 159 (case sn_status_msg s of
             Some m \<Rightarrow> if m \<noteq> [] then ascii ''  status=ERROR: '' @ m else ascii ''  status=ERROR''
           | None \<Rightarrow> ascii ''  status=ERROR'')
      else [])"

text \<open>What the body of the loop prints for a node; \<open>None\<close> is an overflow.\<close>

definition print_span :: "'db cli_lib \<Rightarrow> 'db \<Rightarrow> snode list \<Rightarrow> int \<Rightarrow> nat \<Rightarrow> nat \<Rightarrow> byte list option list" where
  "print_span lib db nodes trace_t0 depth i =
     [do { let s = nodes ! i;
           dur \<leftarrow> minus64 (sn_end s) (sn_start s);
           off \<leftarrow> minus64 (sn_start s) trace_t0;
           Some (replicate (depth * 2) 32 @ text_or (sn_name s) ''?'' @ ascii '' ['' @ kind_name (sn_kind s) @ ascii ''] '' @
             fmt_dur dur 24 @ ascii '' (+'' @ fmt_dur off 24 @ ascii '')'' @ status_text s @ [10] @
             print_attrs_events lib db (sn_id s) depth) }]"

definition show_sql :: string where
  "show_sql = ''SELECT id,span_id,parent_id,name,kind,status_code,status_message,start_unix_ns,end_unix_ns '' @
     ''FROM spans WHERE trace_id=? ORDER BY start_unix_ns''"

definition node_of_row :: "'db cli_lib \<Rightarrow> sql_value list \<Rightarrow> snode" where
  "node_of_row lib row = \<lparr>sn_id = column_int lib row 0,
     sn_span_id = take 19 (text_or (column_text lib row 1) ''''),
     sn_parent_id = take 19 (text_or (column_text lib row 2) ''''),
     sn_name = column_text lib row 3, sn_kind = int32 (column_int lib row 4), sn_status = int32 (column_int lib row 5),
     sn_status_msg = column_text lib row 6, sn_start = column_int lib row 7, sn_end = column_int lib row 8\<rparr>"

text \<open>The earliest start, as the loop over the rows computes it.\<close>

fun earliest :: "snode list \<Rightarrow> int \<Rightarrow> int" where
  "earliest [] t0 = t0"
| "earliest (s # ss) t0 = earliest ss (if sn_start s < t0 then sn_start s else t0)"

definition trace_start :: "snode list \<Rightarrow> int" where
  "trace_start nodes = (case nodes of [] \<Rightarrow> 0 | s # ss \<Rightarrow> earliest ss (sn_start s))"

definition cmd_show :: "'db cli_lib \<Rightarrow> 'db \<Rightarrow> byte list \<Rightarrow> cli_result option" where
  "cmd_show lib db trace_id =
     (if \<not> cl_prepare lib db (ascii show_sql) then Some (1, [])
      else let nodes = map (node_of_row lib) (cl_rows lib db (ascii show_sql) [(1, SText trace_id)]); n = length nodes
           in if n = 0 then Some (1, [])
              else do { lines \<leftarrow> those (snd (print_subtree (print_span lib db nodes (trace_start nodes)) nodes None 0 0 (replicate n False)));
                        Some (0, ascii ''trace '' @ trace_id @ ascii ''  ('' @ dec (int n) @ ascii '' spans)'' @ [10] @ concat lines) })"

end
