(* ===== verification/Otel_Trace_Tree.thy ===== *)
theory Otel_Trace_Tree
  imports Otel_Trace_Show
begin

text \<open>
  The span tree of \<^verbatim>\<open>otel-trace show\<close>: which spans the walk prints, how often and how deep.
\<close>

text \<open>\<open>rooted nodes d i\<close>: node \<open>i\<close> is \<open>d\<close> generations below a node that has no parent in the trace.\<close>

inductive rooted :: "snode list \<Rightarrow> nat \<Rightarrow> nat \<Rightarrow> bool" for nodes where
  root: "i < length nodes \<Longrightarrow> sn_parent_id (nodes ! i) = [] \<or> sn_parent_id (nodes ! i) \<notin> sn_span_id ` set nodes \<Longrightarrow> rooted nodes 0 i"
| child: "rooted nodes d j \<Longrightarrow> i < length nodes \<Longrightarrow> sn_parent_id (nodes ! i) = sn_span_id (nodes ! j) \<Longrightarrow>
    rooted nodes (Suc d) i"

inductive_cases rooted_lengthE: "rooted nodes d i"

lemma shown_root: "shown_here nodes None i \<longleftrightarrow> sn_parent_id (nodes ! i) = [] \<or> sn_parent_id (nodes ! i) \<notin> sn_span_id ` set nodes"
  by (force simp: shown_here_def list_ex_iff)

lemma rooted_less: "rooted nodes d i \<Longrightarrow> i < length nodes"
  by (cases rule: rooted.cases) auto

text \<open>A recursive call is made for the children of a rooted span one generation up.\<close>

definition tree_call :: "snode list \<Rightarrow> byte list option \<Rightarrow> nat \<Rightarrow> bool" where
  "tree_call nodes parent depth \<longleftrightarrow> (case parent of
     None \<Rightarrow> depth = 0
   | Some p \<Rightarrow> (\<exists>d j. depth = Suc d \<and> rooted nodes d j \<and> p = sn_span_id (nodes ! j)))"

lemma call_shown: "tree_call nodes parent depth \<Longrightarrow> i < length nodes \<Longrightarrow> shown_here nodes parent i \<Longrightarrow> rooted nodes depth i"
  by (cases parent) (auto simp: tree_call_def shown_root shown_here_def[of _ "Some _"] intro: rooted.intros)

lemma call_children: "rooted nodes depth i \<Longrightarrow> tree_call nodes (Some (sn_span_id (nodes ! i))) (depth + 1)"
  by (auto simp: tree_call_def)

text \<open>What one call prints, with nodes and depths as output.\<close>

definition walk_order :: "snode list \<Rightarrow> byte list option \<Rightarrow> nat \<Rightarrow> nat \<Rightarrow> bool list \<Rightarrow> bool list \<times> (nat \<times> nat) list" where
  "walk_order = print_subtree (\<lambda>d i. [(d, i)])"

lemma print_by_order:
  "print_subtree emit nodes parent depth i printed =
     (fst (walk_order nodes parent depth i printed), concat (map (\<lambda>(d, j). emit d j) (snd (walk_order nodes parent depth i printed))))"
  unfolding walk_order_def
proof (induction emit nodes parent depth i printed rule: print_subtree.induct)
  case (1 emit nodes parent depth i printed)
  show ?case
    by (subst (1 2 3) print_subtree.simps) (use 1 in \<open>auto split: prod.splits simp: Let_def\<close>)
qed

text \<open>From the printed spans \<open>P\<close> a call goes to \<open>Q\<close>: it prints each span it adds once, adds all spans
  from \<open>i\<close> on that match, and with a span all its children.\<close>

definition flag_set :: "bool list \<Rightarrow> nat set" where
  "flag_set p = {x. x < length p \<and> p ! x}"

definition children :: "snode list \<Rightarrow> nat \<Rightarrow> nat set" where
  "children nodes x = {y. y < length nodes \<and> sn_parent_id (nodes ! y) = sn_span_id (nodes ! x)}"

definition walked :: "snode list \<Rightarrow> byte list option \<Rightarrow> nat \<Rightarrow> nat set \<Rightarrow> nat set \<Rightarrow> (nat \<times> nat) list \<Rightarrow> bool" where
  "walked nodes parent i P Q ord \<longleftrightarrow> P \<subseteq> Q \<and> distinct (map snd ord) \<and> snd ` set ord = Q - P \<and>
     {x. i \<le> x \<and> x < length nodes \<and> shown_here nodes parent x} \<subseteq> Q \<and> (\<forall>x \<in> Q - P. children nodes x \<subseteq> Q)"

lemma flag_set_update: "i < length p \<Longrightarrow> flag_set (p[i := True]) = insert i (flag_set p)"
  by (auto simp: flag_set_def nth_list_update)

lemma walked_end: "length nodes \<le> i \<Longrightarrow> walked nodes parent i P P []"
  by (auto simp: walked_def)

lemma matching_split:
  "{x. i \<le> x \<and> x < n \<and> S x} \<subseteq> {i} \<union> {x. i + 1 \<le> x \<and> x < n \<and> S x}" for i :: nat
  by auto

lemma walked_skip:
  assumes "i \<in> P \<or> \<not> shown_here nodes parent i" and "walked nodes parent (i + 1) P Q ord"
  shows "walked nodes parent i P Q ord"
proof -
  have "{x. i \<le> x \<and> x < length nodes \<and> shown_here nodes parent x} \<subseteq> Q"
  proof (cases "i \<in> P")
    case True
    then show ?thesis
      using assms(2) matching_split[of i "length nodes" "shown_here nodes parent"] by (auto simp: walked_def)
  next
    case False
    then have "{x. i \<le> x \<and> x < length nodes \<and> shown_here nodes parent x} = {x. i + 1 \<le> x \<and> x < length nodes \<and> shown_here nodes parent x}"
      using assms(1) by (intro Collect_cong) (auto simp: Suc_le_eq order_le_less)
    then show ?thesis
      using assms(2) by (simp add: walked_def)
  qed
  then show ?thesis
    using assms(2) by (simp add: walked_def)
qed

lemma walked_step:
  assumes i: "i \<notin> P" and in1: "walked nodes (Some (sn_span_id (nodes ! i))) 0 (insert i P) Q o1"
    and in2: "walked nodes parent (i + 1) Q R o2"
  shows "walked nodes parent i P R ((d, i) # o1 @ o2)"
proof -
  have PQR: "insert i P \<subseteq> Q" "Q \<subseteq> R" and s: "snd ` set o1 = Q - insert i P" "snd ` set o2 = R - Q"
    and d: "distinct (map snd o1)" "distinct (map snd o2)"
    using in1 in2 by (simp_all add: walked_def)
  have im: "snd ` set ((d, i) # o1 @ o2) = insert i (snd ` set o1 \<union> snd ` set o2)"
    by auto
  have "distinct (map snd ((d, i) # o1 @ o2))"
    using s d PQR by (simp only: map_append list.map distinct.simps distinct_append set_append set_map snd_conv) blast
  moreover have "snd ` set ((d, i) # o1 @ o2) = R - P"
    unfolding im s using PQR i by blast
  moreover have "{x. i \<le> x \<and> x < length nodes \<and> shown_here nodes parent x} \<subseteq> R"
    using in2 PQR matching_split[of i "length nodes" "shown_here nodes parent"] unfolding walked_def by blast
  moreover have "\<forall>x \<in> R - P. children nodes x \<subseteq> R"
  proof
    fix x assume x: "x \<in> R - P"
    have c: "children nodes i \<subseteq> Q"
      using in1 by (auto simp: walked_def children_def shown_here_def)
    show "children nodes x \<subseteq> R"
    proof (cases "x \<in> Q - insert i P")
      case True
      then have "children nodes x \<subseteq> Q"
        using in1 by (simp add: walked_def)
      then show ?thesis using PQR(2) by (rule order.trans)
    next
      case False
      with x consider "x = i" | "x \<in> R - Q" by blast
      then show ?thesis
      proof cases
        case 1
        then show ?thesis using c PQR(2) by (simp add: order.trans)
      next
        case 2
        then show ?thesis using in2 by (simp add: walked_def)
      qed
    qed
  qed
  moreover have "P \<subseteq> R"
    using PQR by blast
  ultimately show ?thesis
    unfolding walked_def by (intro conjI)
qed

lemma walk_ok:
  "length printed = length nodes \<Longrightarrow>
   length (fst (walk_order nodes parent depth i printed)) = length nodes \<and>
   walked nodes parent i (flag_set printed) (flag_set (fst (walk_order nodes parent depth i printed))) (snd (walk_order nodes parent depth i printed)) \<and>
   (tree_call nodes parent depth \<longrightarrow> set (snd (walk_order nodes parent depth i printed)) \<subseteq> {(d, x). rooted nodes d x})"
  unfolding walk_order_def
proof (induction "\<lambda>d i. [(d, i)] :: (nat \<times> nat) list" nodes parent depth i printed rule: print_subtree.induct)
  case (1 nodes parent depth i printed)
  let ?em = "\<lambda>d i. [(d, i)] :: (nat \<times> nat) list"
  show ?case
  proof (cases "i \<ge> length nodes")
    case True
    then show ?thesis
      using 1(4) walked_end[OF True] by (simp add: print_subtree.simps[of ?em])
  next
    case False
    then have go: "\<not> (length nodes \<le> i \<or> length printed \<noteq> length nodes)"
      using 1(4) by simp
    show ?thesis
    proof (cases "printed ! i \<or> \<not> shown_here nodes parent i")
      case True
      have eq: "print_subtree ?em nodes parent depth i printed = print_subtree ?em nodes parent depth (i + 1) printed"
        using go True by (simp add: print_subtree.simps[of ?em nodes parent depth i])
      have "i \<in> flag_set printed \<or> \<not> shown_here nodes parent i"
        using True go by (auto simp: flag_set_def)
      then show ?thesis
        using 1(1)[OF go True 1(4)] walked_skip unfolding eq by blast
    next
      case rec: False
      obtain q o1 where q: "print_subtree ?em nodes (Some (sn_span_id (nodes ! i))) (depth + 1) 0 (printed[i := True]) = (q, o1)"
        by fastforce
      obtain r o2 where r: "print_subtree ?em nodes parent depth (i + 1) q = (r, o2)"
        by fastforce
      have eq: "print_subtree ?em nodes parent depth i printed = (r, (depth, i) # o1 @ o2)"
        using go rec q r by (simp add: print_subtree.simps[of ?em nodes parent depth i])
      have in1: "length q = length nodes" "walked nodes (Some (sn_span_id (nodes ! i))) 0 (flag_set (printed[i := True])) (flag_set q) o1"
        "tree_call nodes (Some (sn_span_id (nodes ! i))) (depth + 1) \<longrightarrow> set o1 \<subseteq> {(d, x). rooted nodes d x}"
        using 1(2)[OF go rec] 1(4) q by auto
      have in2: "length r = length nodes" "walked nodes parent (i + 1) (flag_set q) (flag_set r) o2"
        "tree_call nodes parent depth \<longrightarrow> set o2 \<subseteq> {(d, x). rooted nodes d x}"
        using 1(3)[OF go rec] in1(1) q r by auto
      have "flag_set (printed[i := True]) = insert i (flag_set printed)" "i \<notin> flag_set printed"
        using go rec by (auto simp: flag_set_update) (simp add: flag_set_def)
      then have "walked nodes parent i (flag_set printed) (flag_set r) ((depth, i) # o1 @ o2)"
        using walked_step in1(2) in2(2) by simp
      moreover have "set ((depth, i) # o1 @ o2) \<subseteq> {(d, x). rooted nodes d x}" if "tree_call nodes parent depth"
      proof -
        have "rooted nodes depth i"
          using call_shown[OF that] go rec by simp
        then show ?thesis
          using in1(3) in2(3) that call_children by auto
      qed
      ultimately show ?thesis
        using in2(1) unfolding eq by simp
    qed
  qed
qed

text \<open>C15: the span tree: whatever the parent ids, the walk of \<^verbatim>\<open>print_subtree\<close> ends and prints each span
  that has a chain of parents up to a span without a parent in the trace exactly once, at the
  depth of that chain; it prints no other span.\<close>

theorem show_prints_rooted_spans_once:
  "\<exists>ord. snd (print_subtree emit nodes None 0 0 (replicate (length nodes) False)) = concat (map (\<lambda>(d, i). emit d i) ord) \<and>
     distinct (map snd ord) \<and> set ord \<subseteq> {(d, i). rooted nodes d i} \<and> snd ` set ord = {i. \<exists>d. rooted nodes d i}"
proof -
  define w where "w = walk_order nodes None 0 0 (replicate (length nodes) False)"
  have "flag_set (replicate (length nodes) False) = {}"
    by (auto simp: flag_set_def)
  then have w: "walked nodes None 0 {} (flag_set (fst w)) (snd w)" "set (snd w) \<subseteq> {(d, x). rooted nodes d x}"
    using walk_ok[of "replicate (length nodes) False" nodes None 0 0] by (simp_all add: w_def tree_call_def)
  have "i \<in> flag_set (fst w)" if "rooted nodes d i" for d i
    using that by induction (use w(1) in \<open>auto simp: walked_def children_def shown_root\<close>)
  moreover have f: "snd ` set (snd w) = flag_set (fst w)"
    using w(1) by (simp add: walked_def)
  ultimately have "{i. \<exists>d. rooted nodes d i} \<subseteq> snd ` set (snd w)"
    by auto
  then have "snd ` set (snd w) = {i. \<exists>d. rooted nodes d i}"
    using w(2) by fastforce
  then show ?thesis
    using w by (intro exI[of _ "snd w"]) (simp add: print_by_order[of emit] w_def[symmetric] walked_def)
qed

end
