(* ===== verification/Otel_Trace_Query.thy ===== *)
theory Otel_Trace_Query
  imports Otel_Trace_Tool
begin

text \<open>
  The filtered statements of \<^verbatim>\<open>otel-trace list\<close> and \<^verbatim>\<open>spans\<close>: the text that
  \<^verbatim>\<open>append_filters\<close> builds and the values that \<^verbatim>\<open>bind_filters\<close> binds belong together.
\<close>

text \<open>The conditions a filter stands for, each with the value of its placeholder.\<close>

definition clauses :: "int \<Rightarrow> filters \<Rightarrow> (string \<times> sql_value option) list" where
  "clauses now f =
     (case fi_service f of Some x \<Rightarrow> [('' AND service = ?'', Some (SText x))] | None \<Rightarrow> []) @
     (case fi_name f of Some x \<Rightarrow> [('' AND name = ?'', Some (SText x))] | None \<Rightarrow> []) @
     (if fi_status_error f then [('' AND status_code = 2'', None)] else []) @
     (if fi_since_sec f \<noteq> 0 then [('' AND start_unix_ns >= ?'', Some (SInt ((now - fi_since_sec f) * 1000000000)))] else []) @
     (if fi_min_duration_us f \<noteq> 0 then [('' AND duration_ns >= ?'', Some (SInt (fi_min_duration_us f * 1000)))] else [])"

definition clause_text :: "int \<Rightarrow> filters \<Rightarrow> string" where
  "clause_text now f = concat (map fst (clauses now f))"

definition clause_values :: "int \<Rightarrow> filters \<Rightarrow> sql_value list" where
  "clause_values now f = List.map_filter snd (clauses now f)"

text \<open>The ranges in which the arithmetic of \<^verbatim>\<open>bind_filters\<close> does not overflow.\<close>

definition filter_range :: "int \<Rightarrow> filters \<Rightarrow> bool" where
  "filter_range now f \<longleftrightarrow> \<bar>now\<bar> < 2 ^ 32 \<and> \<bar>fi_since_sec f\<bar> < 2 ^ 32 \<and> \<bar>fi_min_duration_us f\<bar> < 2 ^ 53"

lemma append_sql_fits: "length sql + length s < cap \<Longrightarrow> append_sql cap s sql = sql @ ascii s"
  by (simp add: append_sql_def)

lemma appends_fit:
  "length sql + length (concat ss) < cap \<Longrightarrow> fold (append_sql cap) ss sql = sql @ ascii (concat ss)"
  by (induction ss arbitrary: sql) (simp_all add: append_sql_fits)

lemma fold_clause:
  "fold g (map fst (if b then [(s, v)] else [])) x = (if b then g s x else x)"
  "fold g (map fst (case w of Some y \<Rightarrow> [(s, h y)] | None \<Rightarrow> [])) x = (if w \<noteq> None then g s x else x)"
  by (simp_all split: option.split)

lemma filters_fold: "append_filters cap f sql = fold (append_sql cap) (map fst (clauses now f)) sql"
  by (simp only: append_filters_def clauses_def Let_def map_append fold_append comp_apply fold_clause)

lemma length_clause:
  "length (concat (map fst (if b then [(s, v)] else []))) \<le> length s"
  "length (concat (map fst (case w of Some y \<Rightarrow> [(s, h y)] | None \<Rightarrow> []))) \<le> length s"
  by (simp_all split: option.split)

lemma clause_text_length: "length (clause_text now f) \<le> 93"
proof -
  have "length (clause_text now f) \<le> length '' AND service = ?'' + (length '' AND name = ?'' + (length '' AND status_code = 2'' +
      (length '' AND start_unix_ns >= ?'' + length '' AND duration_ns >= ?'')))"
    unfolding clause_text_def clauses_def map_append concat_append length_append by (intro add_mono length_clause)
  then show ?thesis by simp
qed

lemma filters_text:
  assumes "length base + 93 < cap"
  shows "append_filters cap f base = base @ ascii (clause_text now f)"
  unfolding filters_fold[where now = now] clause_text_def
  by (rule appends_fit) (use assms clause_text_length[of now f] in \<open>simp add: clause_text_def\<close>)

lemma filters_values:
  assumes "filter_range now f"
  shows "bind_filters now idx f = Some (idx + length (clause_values now f), zip [idx..<idx + length (clause_values now f)] (clause_values now f))"
proof -
  have s: "minus64 now (fi_since_sec f) = Some (now - fi_since_sec f)"
    "times64 (now - fi_since_sec f) 1000000000 = Some ((now - fi_since_sec f) * 1000000000)"
    and m: "times64 (fi_min_duration_us f) 1000 = Some (fi_min_duration_us f * 1000)"
    using assms by (auto simp: filter_range_def minus64_def times64_def abs_less_iff)
  show ?thesis
    unfolding bind_filters_def clause_values_def clauses_def
    by (cases "fi_service f"; cases "fi_name f") (simp_all add: s m map_filter_simps upt_rec)
qed

lemma placeholders_of_clauses:
  "count_list (clause_text now f) CHR ''?'' = length (clause_values now f)"
  unfolding clause_text_def clause_values_def clauses_def
  by (cases "fi_service f"; cases "fi_name f") (simp_all add: map_filter_simps)

lemma zip_snoc: "length xs = n \<Longrightarrow> zip [i..<i + n] xs @ [(i + n, x)] = zip [i..<i + n + 1] (xs @ [x])"
  by simp

text \<open>C27: filters reach the database: for filters in range the statement of \<^verbatim>\<open>list\<close> and \<^verbatim>\<open>spans\<close> is the
  base text, one condition per filter in use and the tail, uncut by the buffer; it has as many
  placeholders as values are bound, and the values are those of the conditions, in order, with
  the limit last.\<close>

theorem query_binds_every_placeholder:
  assumes fits: "length base + length tail_sql < 900" and marks: "count_list base CHR ''?'' = 0" "count_list tail_sql CHR ''?'' = 1"
    and range: "filter_range (cl_now lib) f"
  shows "let sql = base @ clause_text (cl_now lib) f @ tail_sql;
       vs = clause_values (cl_now lib) f @ [SInt (if fi_limit f > 0 then fi_limit f else 50)]
     in filtered_query lib db base tail_sql f =
          Some (if cl_prepare lib db (ascii sql) then Some (cl_rows lib db (ascii sql) (zip [1..<1 + length vs] vs)) else None) \<and>
        count_list sql CHR ''?'' = length vs"
proof -
  let ?t = "clause_text (cl_now lib) f" and ?v = "clause_values (cl_now lib) f"
  have len: "length base + length ?t + length tail_sql < 1024"
    using fits clause_text_length[of "cl_now lib" f] by linarith
  have "take 1023 (ascii base) = ascii base"
    using len by simp
  then have sql: "append_sql 1024 tail_sql (append_filters 1024 f (take 1023 (ascii base))) = ascii (base @ ?t @ tail_sql)"
    using len fits by (simp add: filters_text[where now = "cl_now lib"] append_sql_fits)
  have z: "zip [1..<1 + length ?v] ?v @ [(1 + length ?v, x)] = zip [1..<1 + length (?v @ [x])] (?v @ [x])" for x
  proof -
    have e: "1 + length (?v @ [x]) = 1 + length ?v + 1" by simp
    show ?thesis
      unfolding e using zip_snoc[OF refl, where xs = ?v and i = 1 and x = x] .
  qed
  have "count_list (base @ ?t @ tail_sql) CHR ''?'' = length (?v @ [x])" for x
    using marks by (simp add: placeholders_of_clauses)
  then show ?thesis
    unfolding filtered_query_def Let_def sql filters_values[OF range] bind.bind_lunit prod.case z
    by (intro conjI) (cases "cl_prepare lib db (ascii (base @ ?t @ tail_sql))", simp_all only: if_True if_False not_True_eq_False not_False_eq_True)
qed

lemma query_binds_every_placeholder_witness:
  "filtered_query \<lparr>cl_open = \<lambda>_. Some (), cl_prepare = \<lambda>_ _. True, cl_rows = \<lambda>_ q bs. map (\<lambda>b. [snd b]) bs,
       cl_exec = \<lambda>_ _. ([], True), cl_int_of_text = \<lambda>_. 0, cl_int_of_real = \<lambda>_. 0, cl_text_of_real = \<lambda>_. [], cl_real_of = \<lambda>_. 0,
       cl_printf_g = \<lambda>_. [], cl_strftime = \<lambda>_. [], cl_now = 1000\<rparr> ()
     spans_sql '' ORDER BY start_unix_ns DESC LIMIT ?'' (no_filters\<lparr>fi_name := Some [97], fi_since_sec := 10\<rparr>) =
   Some (Some [[SText [97]], [SInt 990000000000], [SInt 50]])"
proof -
  have "count_list spans_sql CHR ''?'' = 0" "count_list '' ORDER BY start_unix_ns DESC LIMIT ?'' CHR ''?'' = 1"
    "length spans_sql + length '' ORDER BY start_unix_ns DESC LIMIT ?'' < 900"
    by (simp_all add: spans_sql_def)
  moreover define f where "f = no_filters\<lparr>fi_name := Some [97], fi_since_sec := 10\<rparr>"
  moreover define lib :: "unit cli_lib" where "lib = \<lparr>cl_open = \<lambda>_. Some (), cl_prepare = \<lambda>_ _. True, cl_rows = \<lambda>_ q bs. map (\<lambda>b. [snd b]) bs,
       cl_exec = \<lambda>_ _. ([], True), cl_int_of_text = \<lambda>_. 0, cl_int_of_real = \<lambda>_. 0, cl_text_of_real = \<lambda>_. [], cl_real_of = \<lambda>_. 0,
       cl_printf_g = \<lambda>_. [], cl_strftime = \<lambda>_. [], cl_now = 1000\<rparr>"
  moreover have "filter_range (cl_now lib) f"
    by (simp add: lib_def f_def filter_range_def no_filters_def)
  moreover have "clause_values (cl_now lib) f = [SText [97], SInt 990000000000]"
    by (simp add: lib_def f_def clause_values_def clauses_def no_filters_def map_filter_simps)
  ultimately show ?thesis
    using query_binds_every_placeholder[of spans_sql "'' ORDER BY start_unix_ns DESC LIMIT ?''" lib f "()"]
    by (simp add: lib_def f_def no_filters_def upt_rec)
qed

end
