(* ===== verification/Otel_Trace_Main.thy ===== *)
theory Otel_Trace_Main
  imports Otel_Trace_Show
begin

text \<open>
  The argument parser, the usage text and \<^verbatim>\<open>main\<close> of \<^verbatim>\<open>tools/otel-trace.c\<close>, with what these write
  on standard error.
\<close>

subsection \<open>Messages\<close>

definition usage_lines :: "string list" where
  "usage_lines = [
     ''usage: otel-trace [--db PATH] <command> [args]'',
     '''',
     ''commands:'',
     ''  list                 recent traces (one row per trace)'',
     ''  show <trace_id>      full span tree for one trace'',
     ''  spans                individual spans'',
     ''  stats                per-name span counts and latency'',
     ''  sql \"<query>\"        run a read-only SQL query'',
     '''',
     ''filters (list, spans):'',
     ''  --service S          only this service'',
     ''  --name N             only spans named N'',
     ''  --status error       only traces/spans with an error status'',
     ''  --since SECONDS      only the last SECONDS'',
     ''  --min-duration-us US only spans/traces at least US microseconds'',
     ''  --limit N            cap rows (default 50)'',
     '''',
     ''The database path defaults to $OTEL_TRACE_DB or ./traces.db.'']"

definition usage :: "byte list" where
  "usage = concat (map (\<lambda>l. ascii l @ [10]) usage_lines)"

definition complaint :: "string \<Rightarrow> byte list \<Rightarrow> byte list" where
  "complaint what a = ascii ''otel-trace: '' @ ascii what @ a @ [10]"

subsection \<open>Arguments\<close>

record cli_args =
  ca_db_path :: "byte list"
  ca_filters :: filters
  ca_cmd :: "byte list option"
  ca_arg :: "byte list option"

text \<open>\<open>Exit\<close> is a return from \<^verbatim>\<open>main\<close> inside the loop: the exit code and the message.\<close>

datatype parsed = Exit int "byte list" | Run cli_args

definition set_filters :: "(filters \<Rightarrow> filters) \<Rightarrow> cli_args \<Rightarrow> cli_args" where
  "set_filters f st = st\<lparr>ca_filters := f (ca_filters st)\<rparr>"

text \<open>The loop over \<^verbatim>\<open>argv[1]\<close> and on.\<close>

fun parse_args :: "cli_args \<Rightarrow> byte list list \<Rightarrow> parsed" where
  "parse_args st [] = Run st"
| "parse_args st (a # as) =
     (if a = ascii ''--db'' \<and> as \<noteq> [] then parse_args (st\<lparr>ca_db_path := hd as\<rparr>) (tl as)
      else if a = ascii ''--service'' \<and> as \<noteq> [] then parse_args (set_filters (fi_service_update (\<lambda>_. Some (hd as))) st) (tl as)
      else if a = ascii ''--name'' \<and> as \<noteq> [] then parse_args (set_filters (fi_name_update (\<lambda>_. Some (hd as))) st) (tl as)
      else if a = ascii ''--status'' \<and> as \<noteq> []
        then parse_args (set_filters (fi_status_error_update (\<lambda>_. hd as = ascii ''error'')) st) (tl as)
      else if a = ascii ''--since'' \<and> as \<noteq> [] then parse_args (set_filters (fi_since_sec_update (\<lambda>_. strtoll (hd as))) st) (tl as)
      else if a = ascii ''--min-duration-us'' \<and> as \<noteq> []
        then parse_args (set_filters (fi_min_duration_us_update (\<lambda>_. strtoll (hd as))) st) (tl as)
      else if a = ascii ''--limit'' \<and> as \<noteq> [] then parse_args (set_filters (fi_limit_update (\<lambda>_. atoi (hd as))) st) (tl as)
      else if a = ascii ''-h'' \<or> a = ascii ''--help'' then Exit 0 usage
      else if a \<noteq> [] \<and> hd a = 45 then Exit 2 (complaint ''unknown option '' a @ usage)
      else if ca_cmd st = None then parse_args (st\<lparr>ca_cmd := Some a\<rparr>) as
      else if ca_arg st = None then parse_args (st\<lparr>ca_arg := Some a\<rparr>) as
      else parse_args st as)"

declare parse_args.simps(2) [simp del]

definition no_args :: "byte list option \<Rightarrow> cli_args" where
  "no_args env_db = \<lparr>ca_db_path = text_or env_db ''traces.db'', ca_filters = no_filters, ca_cmd = None, ca_arg = None\<rparr>"

subsection \<open>The program\<close>

definition db_open :: "'db cli_lib \<Rightarrow> byte list \<Rightarrow> 'db option" where
  "db_open lib path = cl_open lib path"

text \<open>Exit code, standard output, and what \<^verbatim>\<open>main\<close> itself writes on standard error.  The messages of
  \<^verbatim>\<open>db_open\<close> and of the commands hold SQLite's error text and are left out.\<close>

type_synonym main_result = "int \<times> byte list \<times> byte list"

definition of_command :: "cli_result \<Rightarrow> main_result" where
  "of_command r = (fst r, snd r, [])"

definition misuse :: "byte list \<Rightarrow> main_result" where
  "misuse message = (2, [], message)"

definition run_command :: "'db cli_lib \<Rightarrow> 'db \<Rightarrow> cli_args \<Rightarrow> byte list \<Rightarrow> main_result option" where
  "run_command lib db st cmd =
     (if cmd = ascii ''list'' then map_option of_command (cmd_list lib db (ca_filters st))
      else if cmd = ascii ''show'' then (case ca_arg st of
          None \<Rightarrow> Some (misuse (complaint ''show needs a trace_id'' []))
        | Some a \<Rightarrow> map_option of_command (cmd_show lib db a))
      else if cmd = ascii ''spans'' then map_option of_command (cmd_spans lib db (ca_filters st))
      else if cmd = ascii ''stats'' then Some (of_command (cmd_stats lib db))
      else if cmd = ascii ''sql'' then Some (case ca_arg st of
          None \<Rightarrow> misuse (complaint ''sql needs a query'' [])
        | Some a \<Rightarrow> of_command (cmd_sql lib db a))
      else Some (misuse (complaint ''unknown command '' cmd @ usage)))"

text \<open>\<open>env_db\<close> is \<^verbatim>\<open>$OTEL_TRACE_DB\<close>, \<open>args\<close> is \<^verbatim>\<open>argv[1]\<close> and on.\<close>

definition trace_main :: "'db cli_lib \<Rightarrow> byte list option \<Rightarrow> byte list list \<Rightarrow> main_result option" where
  "trace_main lib env_db args =
     (case parse_args (no_args env_db) args of
        Exit rc message \<Rightarrow> Some (rc, [], message)
      | Run st \<Rightarrow> (case ca_cmd st of
            None \<Rightarrow> Some (misuse usage)
          | Some cmd \<Rightarrow> (case db_open lib (ca_db_path st) of
                None \<Rightarrow> Some (1, [], [])
              | Some db \<Rightarrow> run_command lib db st cmd)))"

end
