(* ===== verification/Otel_Trace_Args.thy ===== *)
theory Otel_Trace_Args
  imports Otel_Trace_Main
begin

text \<open>
  The arguments of \<^verbatim>\<open>otel-trace\<close>: numbers and option lists are read back as they were written.
\<close>

subsection \<open>Numbers\<close>

definition is_digit :: "byte \<Rightarrow> bool" where
  "is_digit b \<longleftrightarrow> 48 \<le> b \<and> b \<le> 57"

lemma digit_byte: "n < 10 \<Longrightarrow> is_digit (48 + of_nat n) \<and> unat ((48 + of_nat n :: byte) - 48) = n"
proof -
  assume "n < 10"
  then have "n \<in> {0, 1, 2, 3, 4, 5, 6, 7, 8, 9}" by auto
  then show ?thesis
    by (elim insertE emptyE) (simp_all add: is_digit_def)
qed

lemma dec_nat_digits: "\<forall>b \<in> set (dec_nat n). is_digit b"
proof (induction n rule: dec_nat.induct)
  case (1 n)
  then show ?case
    using digit_byte[of n] digit_byte[of "n mod 10"] by (subst dec_nat.simps) auto
qed

lemma dec_nat_nonempty [simp]: "dec_nat n \<noteq> []"
  by (subst dec_nat.simps) simp

lemma digits_value_append:
  "\<forall>b \<in> set xs. is_digit b \<Longrightarrow> digits_value acc (xs @ ys) = digits_value (digits_value acc xs) ys"
  by (induction xs arbitrary: acc) (simp_all add: is_digit_def)

lemma digits_dec: "digits_value 0 (dec_nat n) = n"
proof (induction n rule: dec_nat.induct)
  case (1 n)
  show ?case
  proof (cases "n < 10")
    case True
    then show ?thesis
      using digit_byte[of n] by (subst dec_nat.simps) (simp add: is_digit_def)
  next
    case False
    have "digits_value (n div 10) [48 + of_nat (n mod 10)] = n"
      using digit_byte[of "n mod 10"] by (simp add: is_digit_def)
    then show ?thesis
      using False 1[OF False] dec_nat_digits[of "n div 10"] by (subst dec_nat.simps) (simp add: digits_value_append)
  qed
qed

lemma digit_not_space: "is_digit b \<Longrightarrow> \<not> is_space b \<and> b \<noteq> 45 \<and> b \<noteq> 43"
  by (auto simp: is_digit_def is_space_def word_le_nat_alt)

lemma strtoll_dec:
  assumes "- (2 ^ 63) \<le> i" and "i < 2 ^ 63"
  shows "strtoll (dec i) = i"
proof (cases "i < 0")
  case True
  then have "dropWhile is_space (dec i) = 45 # dec_nat (nat (- i))"
    by (simp add: dec_def is_space_def)
  then show ?thesis
    using assms True by (simp add: strtoll_def digits_dec)
next
  case False
  obtain b bs where b: "dec_nat (nat i) = b # bs"
    using dec_nat_nonempty[of "nat i"] by (meson list.exhaust)
  then have "is_digit b"
    using dec_nat_digits[of "nat i"] by simp
  with b False have "dropWhile is_space (dec i) = b # bs" "b \<noteq> 45" "b \<noteq> 43"
    using digit_not_space[of b] by (simp_all add: dec_def)
  moreover have "digits_value 0 (b # bs) = nat i"
    using digits_dec[of "nat i"] b by simp
  ultimately show ?thesis
    using assms False by (simp add: strtoll_def del: digits_value.simps)
qed

lemma atoi_dec: "- (2 ^ 31) \<le> i \<Longrightarrow> i < 2 ^ 31 \<Longrightarrow> atoi (dec i) = i"
  by (simp add: atoi_def strtoll_dec signed_of_int signed_take_bit_int_eq_self)

subsection \<open>Options\<close>

lemma parse_options:
  "parse_args st (ascii ''--db'' # v # as) = parse_args (st\<lparr>ca_db_path := v\<rparr>) as"
  "parse_args st (ascii ''--service'' # v # as) = parse_args (set_filters (fi_service_update (\<lambda>_. Some v)) st) as"
  "parse_args st (ascii ''--name'' # v # as) = parse_args (set_filters (fi_name_update (\<lambda>_. Some v)) st) as"
  "parse_args st (ascii ''--status'' # v # as) = parse_args (set_filters (fi_status_error_update (\<lambda>_. v = ascii ''error'')) st) as"
  "parse_args st (ascii ''--since'' # v # as) = parse_args (set_filters (fi_since_sec_update (\<lambda>_. strtoll v)) st) as"
  "parse_args st (ascii ''--min-duration-us'' # v # as) = parse_args (set_filters (fi_min_duration_us_update (\<lambda>_. strtoll v)) st) as"
  "parse_args st (ascii ''--limit'' # v # as) = parse_args (set_filters (fi_limit_update (\<lambda>_. atoi v)) st) as"
  by (simp_all add: parse_args.simps(2) del: ascii_simps(2))

definition positional :: "byte list \<Rightarrow> bool" where
  "positional a \<longleftrightarrow> a = [] \<or> hd a \<noteq> 45"

lemma positional_no_option: "positional a \<Longrightarrow> a \<noteq> ascii (CHR ''-'' # s)"
  by (auto simp: positional_def)

lemma parse_positional:
  "positional a \<Longrightarrow> parse_args st (a # as) =
     (if ca_cmd st = None then parse_args (st\<lparr>ca_cmd := Some a\<rparr>) as
      else if ca_arg st = None then parse_args (st\<lparr>ca_arg := Some a\<rparr>) as else parse_args st as)"
  using positional_no_option by (simp add: parse_args.simps(2) del: ascii_simps(2)) (auto simp: positional_def)

text \<open>How a user writes filters.\<close>

definition filter_args :: "filters \<Rightarrow> byte list list" where
  "filter_args f =
     (case fi_service f of Some x \<Rightarrow> [ascii ''--service'', x] | None \<Rightarrow> []) @
     (case fi_name f of Some x \<Rightarrow> [ascii ''--name'', x] | None \<Rightarrow> []) @
     (if fi_status_error f then [ascii ''--status'', ascii ''error''] else []) @
     (if fi_since_sec f \<noteq> 0 then [ascii ''--since'', dec (fi_since_sec f)] else []) @
     (if fi_min_duration_us f \<noteq> 0 then [ascii ''--min-duration-us'', dec (fi_min_duration_us f)] else []) @
     (if fi_limit f \<noteq> 0 then [ascii ''--limit'', dec (fi_limit f)] else [])"

definition filter_ints :: "filters \<Rightarrow> bool" where
  "filter_ints f \<longleftrightarrow> - (2 ^ 63) \<le> fi_since_sec f \<and> fi_since_sec f < 2 ^ 63 \<and>
     - (2 ^ 63) \<le> fi_min_duration_us f \<and> fi_min_duration_us f < 2 ^ 63 \<and> - (2 ^ 31) \<le> fi_limit f \<and> fi_limit f < 2 ^ 31"

lemma parse_clauses:
  "fi_service (ca_filters st) = None \<Longrightarrow>
     parse_args st ((case w of Some x \<Rightarrow> [ascii ''--service'', x] | None \<Rightarrow> []) @ as) = parse_args (set_filters (fi_service_update (\<lambda>_. w)) st) as"
  "fi_name (ca_filters st) = None \<Longrightarrow>
     parse_args st ((case w of Some x \<Rightarrow> [ascii ''--name'', x] | None \<Rightarrow> []) @ as) = parse_args (set_filters (fi_name_update (\<lambda>_. w)) st) as"
  "\<not> fi_status_error (ca_filters st) \<Longrightarrow>
     parse_args st ((if b then [ascii ''--status'', ascii ''error''] else []) @ as) = parse_args (set_filters (fi_status_error_update (\<lambda>_. b)) st) as"
  "fi_since_sec (ca_filters st) = 0 \<Longrightarrow> - (2 ^ 63) \<le> n \<Longrightarrow> n < 2 ^ 63 \<Longrightarrow>
     parse_args st ((if n \<noteq> 0 then [ascii ''--since'', dec n] else []) @ as) = parse_args (set_filters (fi_since_sec_update (\<lambda>_. n)) st) as"
  "fi_min_duration_us (ca_filters st) = 0 \<Longrightarrow> - (2 ^ 63) \<le> n \<Longrightarrow> n < 2 ^ 63 \<Longrightarrow>
     parse_args st ((if n \<noteq> 0 then [ascii ''--min-duration-us'', dec n] else []) @ as) =
       parse_args (set_filters (fi_min_duration_us_update (\<lambda>_. n)) st) as"
  "fi_limit (ca_filters st) = 0 \<Longrightarrow> - (2 ^ 31) \<le> n \<Longrightarrow> n < 2 ^ 31 \<Longrightarrow>
     parse_args st ((if n \<noteq> 0 then [ascii ''--limit'', dec n] else []) @ as) = parse_args (set_filters (fi_limit_update (\<lambda>_. n)) st) as"
  by (auto simp: parse_options strtoll_dec atoi_dec set_filters_def simp del: ascii_simps(2) split: option.split
      intro!: arg_cong[where f = "\<lambda>s. parse_args s as"] cli_args.equality filters.equality)

lemma parse_filters:
  assumes "filter_ints f" and "ca_filters st = no_filters"
  shows "parse_args st (filter_args f @ as) = parse_args (st\<lparr>ca_filters := f\<rparr>) as"
proof -
  have e: "\<lparr>fi_service = fi_service f, fi_name = fi_name f, fi_status_error = fi_status_error f, fi_since_sec = fi_since_sec f,
      fi_min_duration_us = fi_min_duration_us f, fi_limit = fi_limit f\<rparr> = f"
    by (rule filters.equality) simp_all
  have "parse_args st (filter_args f @ as) = parse_args (st\<lparr>ca_filters := \<lparr>fi_service = fi_service f, fi_name = fi_name f,
      fi_status_error = fi_status_error f, fi_since_sec = fi_since_sec f,
      fi_min_duration_us = fi_min_duration_us f, fi_limit = fi_limit f\<rparr>\<rparr>) as"
    using assms unfolding filter_args_def append_assoc
    by (simp add: parse_clauses no_filters_def set_filters_def filter_ints_def del: ascii_simps(2))
  then show ?thesis
    unfolding e .
qed

text \<open>arguments: a database path, any filters, a command and its argument, written as options and
  decimal numbers, are read back by the parser as they were meant, whatever the environment
  variable says.\<close>

theorem arguments_roundtrip:
  assumes "positional cmd" and "list_all positional arg" and "length arg \<le> 1" and "filter_ints f"
  shows "parse_args (no_args env_db) (ascii ''--db'' # path # filter_args f @ cmd # arg) =
    Run \<lparr>ca_db_path = path, ca_filters = f, ca_cmd = Some cmd, ca_arg = (case arg of [] \<Rightarrow> None | a # _ \<Rightarrow> Some a)\<rparr>"
proof -
  have "parse_args (no_args env_db) (ascii ''--db'' # path # filter_args f @ cmd # arg) =
      parse_args \<lparr>ca_db_path = path, ca_filters = f, ca_cmd = None, ca_arg = None\<rparr> (cmd # arg)"
    using assms(4) by (simp add: parse_options parse_filters no_args_def del: ascii_simps(2))
  then show ?thesis
    using assms(1-3) by (cases arg) (auto simp: parse_positional)
qed

lemma arguments_roundtrip_witness:
  "parse_args (no_args None) (ascii ''--db'' # ascii ''t.db'' # filter_args (no_filters\<lparr>fi_name := Some [120], fi_limit := -7\<rparr>) @ ascii ''spans'' # []) =
     Run \<lparr>ca_db_path = ascii ''t.db'', ca_filters = no_filters\<lparr>fi_name := Some [120], fi_limit := -7\<rparr>, ca_cmd = Some (ascii ''spans''), ca_arg = None\<rparr>"
  using arguments_roundtrip[of "ascii ''spans''" "[]" "no_filters\<lparr>fi_name := Some [120], fi_limit := -7\<rparr>" None "ascii ''t.db''"]
  by (simp add: positional_def filter_ints_def no_filters_def)

subsection \<open>Misuse\<close>

text \<open>The usage text has a line for every option that the parser takes a value for, filters on
  lines of their own, and for every command.\<close>

lemma usage_complete:
  "\<forall>opt \<in> set [''--service'', ''--name'', ''--status'', ''--since'', ''--min-duration-us'', ''--limit'', ''list'', ''show'',
        ''spans'', ''stats'', ''sql'']. \<exists>l \<in> set usage_lines. take (3 + length opt) l = ''  '' @ opt @ '' ''"
  by (simp add: usage_lines_def)

lemma usage_not_silent [simp]: "usage \<noteq> []" "complaint what a \<noteq> []"
  by (simp_all add: usage_def usage_lines_def complaint_def)

lemma exit_if:
  "(if c then x else y) = Exit rc message \<Longrightarrow> (c \<Longrightarrow> x = Exit rc message \<Longrightarrow> P) \<Longrightarrow> (\<not> c \<Longrightarrow> y = Exit rc message \<Longrightarrow> P) \<Longrightarrow> P"
  by (cases c) simp_all

definition exit_ok :: "int \<Rightarrow> byte list \<Rightarrow> byte list list \<Rightarrow> bool" where
  "exit_ok rc message as \<longleftrightarrow>
     rc = 0 \<and> message = usage \<or> rc = 2 \<and> (\<exists>a \<in> set as. message = complaint ''unknown option '' a @ usage)"

lemma exit_ok_later: "exit_ok rc message (tl as) \<Longrightarrow> exit_ok rc message (a # as)" "exit_ok rc message as \<Longrightarrow> exit_ok rc message (a # as)"
  by (cases as; auto simp: exit_ok_def)+

lemma parse_exit: "parse_args st as = Exit rc message \<Longrightarrow> exit_ok rc message as"
proof (induction st as rule: parse_args.induct)
  case (2 st a as)
  then show ?case
    unfolding parse_args.simps(2)[of st a as]
    by (elim exit_if) ((rule exit_ok_later, rule 2(1-10); assumption) | simp add: exit_ok_def)+
qed simp

lemma command_codes:
  "cmd_list lib db f = Some r \<Longrightarrow> fst r \<in> {0, 1}"
  "cmd_spans lib db f = Some r \<Longrightarrow> fst r \<in> {0, 1}"
  "fst (cmd_stats lib db) \<in> {0, 1}"
  "fst (cmd_sql lib db a) \<in> {0, 1}"
  "cmd_show lib db a = Some r \<Longrightarrow> fst r \<in> {0, 1}"
  by (auto simp: cmd_list_def cmd_spans_def cmd_stats_def cmd_sql_def cmd_show_def print_rows_def Let_def
      split: option.splits if_splits prod.splits bind_splits)

lemma run_command_misuse:
  "run_command lib db st cmd = Some (rc, out, message) \<Longrightarrow> rc \<in> {0, 1} \<and> message = [] \<or> rc = 2 \<and> out = [] \<and> message \<noteq> []"
  using command_codes(1)[of lib db "ca_filters st"] command_codes(2)[of lib db "ca_filters st"] command_codes(3)[of lib db]
    command_codes(4)[of lib db] command_codes(5)[of lib db]
  by (auto simp: run_command_def of_command_def misuse_def simp del: ascii_simps split: if_splits option.splits) blast+

text \<open>\<^verbatim>\<open>main\<close> returns 2 exactly when it complains, and then prints nothing on standard output; it is
  otherwise silent on standard error, unless it was asked for help.\<close>

lemma misuse_is_reported:
  assumes "trace_main lib env_db args = Some (rc, out, message)"
  shows "rc \<in> {0, 1, 2}" and "rc = 2 \<Longrightarrow> out = [] \<and> message \<noteq> []" and "message \<noteq> [] \<Longrightarrow> out = [] \<and> (rc = 2 \<or> rc = 0 \<and> message = usage)"
  using assms
  by (auto simp: trace_main_def misuse_def exit_ok_def dest!: parse_exit run_command_misuse split: parsed.splits option.splits)

end
