(* ===== verification/Otel_Trace_Durations.thy ===== *)
theory Otel_Trace_Durations
  imports Otel_Trace_Tool
begin

text \<open>
  The durations \<^verbatim>\<open>fmt_dur\<close> prints: two roundings to a double and one to a decimal lie between a
  number of nanoseconds and its text.
\<close>

lemma round_even_error:
  assumes "0 < d"
  shows "2 * \<bar>round_even n d * d - n\<bar> \<le> d"
proof -
  define q r where "q = n div d" and "r = n mod d"
  have n: "n = q * d + r" "0 \<le> r" "r < d"
    using assms by (simp_all add: q_def r_def)
  have "round_even n d = (if 2 * r < d \<or> 2 * r = d \<and> even q then q else q + 1)"
    by (simp add: round_even_def q_def r_def Let_def)
  then show ?thesis
    using n by (auto simp: algebra_simps)
qed

lemma round_even_nonneg: "0 \<le> n \<Longrightarrow> 0 < d \<Longrightarrow> 0 \<le> round_even n d"
  by (simp add: round_even_def Let_def pos_imp_zdiv_nonneg_iff)

lemma round_even_exact: "0 < d \<Longrightarrow> round_even (m * d) d = m"
  by (simp add: round_even_def Let_def)

lemma bit_size_bounds: "0 < n \<Longrightarrow> 2 ^ bit_size n \<le> 2 * n \<and> n < 2 ^ bit_size n"
proof (induction n rule: bit_size.induct)
  case (1 n)
  show ?case
  proof (cases "n = 1")
    case True
    then show ?thesis by (simp add: bit_size.simps)
  next
    case False
    then have "0 < n div 2"
      using 1 by simp
    then have "2 ^ bit_size (n div 2) \<le> 2 * (n div 2) \<and> n div 2 < 2 ^ bit_size (n div 2)"
      using 1 by simp
    moreover have "bit_size n = Suc (bit_size (n div 2))"
      using 1 by (subst bit_size.simps) simp
    ultimately show ?thesis by auto
  qed
qed

lemma scaled_large:
  fixes n d :: int
  assumes "2 ^ x \<le> n" and "d \<le> 2 ^ y" and "52 + int y \<le> s + int x"
  shows "2 ^ 52 * (d * 2 ^ nat (- s)) \<le> n * 2 ^ nat s"
proof -
  have "52 + y + nat (- s) \<le> x + nat s"
    using assms(3) by linarith
  then have "(2 :: int) ^ (52 + y + nat (- s)) \<le> 2 ^ (x + nat s)"
    by (rule power_increasing) simp
  moreover have "2 ^ 52 * (d * 2 ^ nat (- s)) \<le> 2 ^ (52 + y + nat (- s))"
    using assms(2) by (simp add: power_add)
  moreover have "2 ^ (x + nat s) \<le> n * 2 ^ nat s"
    using assms(1) by (simp add: power_add)
  ultimately show ?thesis by linarith
qed

lemma scaled_half:
  fixes n d :: int
  assumes "d * 2 ^ nat (- s) * 2 ^ 53 \<le> n * 2 ^ nat s"
  shows "2 ^ 52 * (d * 2 ^ nat (- (s - 1))) \<le> n * 2 ^ nat (s - 1)"
proof (cases "s \<ge> 1")
  case True
  then have "nat s = Suc (nat (s - 1))" "nat (- s) = 0" "nat (- (s - 1)) = 0"
    by auto
  then show ?thesis
    using assms by simp
next
  case False
  then have "nat (- (s - 1)) = Suc (nat (- s))" "nat s = 0" "nat (s - 1) = 0"
    by auto
  then show ?thesis
    using assms by simp
qed

text \<open>The double next to \<open>n / d\<close> is off by at most one part in \<open>2 ^ 53\<close>.\<close>

lemma to_double_error:
  assumes n: "0 < n" and d: "0 < d" and r: "to_double n d = (a, b)"
  shows "0 < b \<and> \<bar>a * d - n * b\<bar> * 2 ^ 53 \<le> n * b"
proof -
  define s0 where "s0 = 53 + int (bit_size (nat d)) - int (bit_size (nat n))"
  define s where "s = (if n * 2 ^ nat s0 < d * 2 ^ nat (- s0) * 2 ^ 53 then s0 else s0 - 1)"
  define A B where "A = n * 2 ^ nat s" and "B = d * 2 ^ nat (- s)"
  have bn: "2 ^ bit_size (nat n) \<le> 2 * nat n" "nat d < 2 ^ bit_size (nat d)"
    using bit_size_bounds[of "nat n"] bit_size_bounds[of "nat d"] n d by simp_all
  have pos: "0 < bit_size (nat n)"
    using n by (subst bit_size.simps) simp
  have "2 ^ 52 * B \<le> A"
  proof (cases "n * 2 ^ nat s0 < d * 2 ^ nat (- s0) * 2 ^ 53")
    case True
    have "2 ^ (bit_size (nat n) - 1) \<le> nat n"
      using bn(1) pos by (cases "bit_size (nat n)") simp_all
    then have "2 ^ (bit_size (nat n) - 1) \<le> n"
      using n by (metis nat_eq_iff2 of_nat_le_iff of_nat_numeral of_nat_power order_less_imp_le)
    moreover have "d \<le> 2 ^ bit_size (nat d)"
      using bn(2) d by (metis nat_less_iff of_nat_numeral of_nat_power order_less_imp_le)
    moreover have "52 + int (bit_size (nat d)) \<le> s0 + int (bit_size (nat n) - 1)"
      using pos by (simp add: s0_def)
    ultimately show ?thesis
      using scaled_large True by (simp add: s_def A_def B_def)
  next
    case False
    then show ?thesis
      using scaled_half[of d s0 n] by (simp add: s_def A_def B_def)
  qed
  moreover have B: "0 < B"
    using d by (simp add: B_def)
  moreover have ab: "a = round_even A B * 2 ^ nat (- s)" "b = 2 ^ nat s"
    using r unfolding to_double_def scaled_def Let_def prod.case A_def B_def s_def s0_def by auto
  moreover have e: "a * d - A = round_even A B * B - A" "n * b = A"
    unfolding ab by (simp_all add: A_def B_def algebra_simps)
  moreover have "0 < b"
    using ab(2) by simp
  ultimately show ?thesis
    unfolding e using round_even_error[OF B, of A] by (intro conjI) (assumption, simp)
qed

text \<open>Integers below \<open>2 ^ 53\<close> are doubles.\<close>

lemma to_double_exact:
  assumes n: "0 < n" "n < 2 ^ 53" and r: "to_double n 1 = (a, b)"
  shows "a = n * b"
proof -
  from to_double_error[OF n(1) _ r] have "0 < b" and e: "\<bar>a - n * b\<bar> * 2 ^ 53 \<le> n * b" by simp_all
  have "2 ^ bit_size (nat n) \<le> 2 * nat n"
    using bit_size_bounds n(1) by simp
  also have "\<dots> < 2 ^ 54"
    using n by (simp add: nat_less_iff)
  finally have "(2 :: nat) ^ bit_size (nat n) < 2 ^ 54"
    by simp
  then have "bit_size (nat n) < 54"
    by (rule power_less_imp_less_exp[rotated]) simp
  then have s: "53 + int (bit_size (nat 1)) - int (bit_size (nat n)) \<ge> 1"
    by (simp add: bit_size.simps)
  show ?thesis
    using r s unfolding to_double_def scaled_def Let_def prod.case
    by (auto simp: round_even_exact[of 1, simplified] split: if_splits)
qed

subsection \<open>The printed number\<close>

lemma dec_nat_length: "n < 10 ^ k \<Longrightarrow> 0 < k \<Longrightarrow> length (dec_nat n) \<le> k"
proof (induction n arbitrary: k rule: dec_nat.induct)
  case (1 n)
  show ?case
  proof (cases "n < 10")
    case True
    then show ?thesis using 1 by (simp add: dec_nat.simps)
  next
    case False
    then obtain j where k: "k = Suc j" "0 < j"
      using 1(2,3) by (cases k; cases "k = 1") auto
    then have "n div 10 < 10 ^ j"
      using 1(2) by (simp add: div_less_iff_less_mult mult.commute)
    from 1(1)[OF False this k(2)] show ?thesis
      using False k by (subst dec_nat.simps) simp
  qed
qed

text \<open>The decimal \<open>v / 10 ^ p\<close> that is printed for \<open>n / d\<close>.\<close>

definition decimal :: "nat \<Rightarrow> nat \<Rightarrow> byte list" where
  "decimal p v = dec_nat (v div 10 ^ p) @ 46 # zero_padded p (v mod 10 ^ p)"

lemma printf_fixed_value:
  assumes n: "0 < n" "n < 2 ^ 53" and d: "0 < d"
  shows "\<exists>v. printf_fixed p n d = decimal p v \<and> \<bar>2 * (int v * d - n * 10 ^ p)\<bar> < d + 2 * 10 ^ p"
proof -
  obtain a b where ab: "to_double n 1 = (a, b)" by fastforce
  then have a: "a = n * b" and b: "0 < b"
    using to_double_exact[OF n ab] to_double_error[OF n(1) _ ab] by simp_all
  obtain x y where xy: "to_double a (b * d) = (x, y)" by fastforce
  have "0 < a" "0 < b * d"
    using a b n d by simp_all
  from to_double_error[OF this xy] have y: "0 < y" and e: "\<bar>x * (b * d) - n * b * y\<bar> * 2 ^ 53 \<le> n * b * y"
    using a by simp_all
  have "b * (\<bar>x * d - n * y\<bar> * 2 ^ 53) \<le> b * (n * y)"
  proof -
    have "x * (b * d) - n * b * y = b * (x * d - n * y)"
      by (simp add: algebra_simps)
    then have "\<bar>x * (b * d) - n * b * y\<bar> = b * \<bar>x * d - n * y\<bar>"
      using b by (simp add: abs_mult)
    then show ?thesis
      using e by (simp add: algebra_simps)
  qed
  then have e': "\<bar>x * d - n * y\<bar> * 2 ^ 53 \<le> n * y"
    using b by simp
  also have "\<dots> < 2 ^ 53 * y"
    using n(2) y by simp
  finally have xd: "\<bar>x * d - n * y\<bar> < y"
    by simp
  define w where "w = round_even (x * 10 ^ p) y"
  have w: "2 * \<bar>w * y - x * 10 ^ p\<bar> \<le> y"
    using round_even_error[OF y] by (simp add: w_def)
  have "0 \<le> (n - 1) * y"
    using n(1) y by simp
  then have "0 < x * d"
    using xd by (simp add: algebra_simps)
  then have "0 \<le> x"
    using d by (simp add: zero_less_mult_iff)
  then have "0 \<le> w"
    using y by (simp add: w_def round_even_nonneg)
  have "y * \<bar>2 * (w * d - n * 10 ^ p)\<bar> = \<bar>d * (2 * (w * y - x * 10 ^ p)) + 2 * 10 ^ p * (x * d - n * y)\<bar>"
  proof -
    have "y * (2 * (w * d - n * 10 ^ p)) = d * (2 * (w * y - x * 10 ^ p)) + 2 * 10 ^ p * (x * d - n * y)"
      by (simp add: algebra_simps)
    then show ?thesis
      using y by (metis abs_mult abs_of_pos)
  qed
  also have "\<dots> \<le> d * (2 * \<bar>w * y - x * 10 ^ p\<bar>) + 2 * 10 ^ p * \<bar>x * d - n * y\<bar>"
  proof -
    have "\<bar>d * (2 * t) + 2 * 10 ^ p * u\<bar> \<le> d * (2 * \<bar>t\<bar>) + 2 * 10 ^ p * \<bar>u\<bar>" for t u
      using d by (intro order.trans[OF abs_triangle_ineq]) (simp add: abs_mult)
    then show ?thesis .
  qed
  also have "\<dots> < d * y + 2 * 10 ^ p * y"
    using w xd d by (intro add_le_less_mono mult_left_mono mult_strict_left_mono) simp_all
  finally have "y * \<bar>2 * (w * d - n * 10 ^ p)\<bar> < y * (d + 2 * 10 ^ p)"
    by (simp add: algebra_simps)
  then have "\<bar>2 * (w * d - n * 10 ^ p)\<bar> < d + 2 * 10 ^ p"
    using y by simp
  moreover have "printf_fixed p n d = decimal p (nat w)"
    by (simp add: printf_fixed_def decimal_def ab xy w_def Let_def)
  ultimately show ?thesis
    using \<open>0 \<le> w\<close> by (intro exI[of _ "nat w"]) simp
qed

lemma zero_padded_length: "n < 10 ^ w \<Longrightarrow> 0 < w \<Longrightarrow> length (zero_padded w n) = w"
  using dec_nat_length[of n w] by (simp add: zero_padded_def)

lemma decimal_length:
  assumes "v div 10 ^ p < 10 ^ 17" and "0 < p"
  shows "length (decimal p v) \<le> 18 + p"
proof -
  have "length (zero_padded p (v mod 10 ^ p)) = p"
    using assms(2) by (intro zero_padded_length) simp_all
  then show ?thesis
    using dec_nat_length[OF assms(1)] by (simp add: decimal_def)
qed

lemma half_unit: "\<bar>2 * (int v * (u * 10 ^ p) - ns * 10 ^ p)\<bar> < u * 10 ^ p + 2 * 10 ^ p \<Longrightarrow> even u \<Longrightarrow> 2 * \<bar>int v * u - ns\<bar> \<le> u"
proof -
  assume h: "\<bar>2 * (int v * (u * 10 ^ p) - ns * 10 ^ p)\<bar> < u * 10 ^ p + 2 * 10 ^ p" and u: "even u"
  have e: "2 * (int v * (u * 10 ^ p) - ns * 10 ^ p) = 10 ^ p * (2 * (int v * u - ns))"
    by (simp add: algebra_simps)
  have "\<bar>10 ^ p * (2 * (int v * u - ns))\<bar> = 10 ^ p * \<bar>2 * (int v * u - ns)\<bar>"
    by (simp only: abs_mult) simp
  then have "10 ^ p * \<bar>2 * (int v * u - ns)\<bar> < 10 ^ p * (u + 2)"
    using h unfolding e by (simp add: distrib_left mult.commute[of _ "10 ^ p"])
  then have "\<bar>2 * (int v * u - ns)\<bar> < u + 2"
    by simp
  then show ?thesis
    using u by (elim evenE) (simp add: abs_mult)
qed

text \<open>The unit for each range: digits after the point, nanoseconds of the last digit, suffix.\<close>

definition duration_unit :: "int \<Rightarrow> nat \<times> int \<times> string" where
  "duration_unit ns = (if ns < 10 ^ 6 then (1, 10 ^ 2, ''us'') else if ns < 10 ^ 9 then (2, 10 ^ 4, ''ms'') else (2, 10 ^ 7, ''s''))"

lemma fmt_dur_printf:
  assumes "1000 \<le> ns" and "duration_unit ns = (p, u, t)"
  shows "fmt_dur ns 24 = take 23 (printf_fixed p ns (u * 10 ^ p) @ ascii t)"
  using assms by (auto simp: fmt_dur_def duration_unit_def split: if_splits)

text \<open>C28: durations: from a microsecond up to 104 days the printed duration is the true one rounded to the
  last printed digit: both roundings to a double on the way never move it further than half
  a unit, and the buffer never cuts it.\<close>

theorem durations_round_to_nearest:
  assumes "1000 \<le> ns" and "ns < 2 ^ 53" and "duration_unit ns = (p, u, t)"
  shows "\<exists>v. fmt_dur ns 24 = decimal p v @ ascii t \<and> 2 * \<bar>int v * u - ns\<bar> \<le> u"
proof -
  have u: "0 < u" "even u" "0 < p" "p \<le> 2" "length t \<le> 2" "100 \<le> u"
    using assms(3) by (auto simp: duration_unit_def split: if_splits)
  have "0 < ns" "0 < u * 10 ^ p"
    using assms(1) u by simp_all
  from printf_fixed_value[OF this(1) assms(2) this(2), of p] obtain v where
    v: "printf_fixed p ns (u * 10 ^ p) = decimal p v" "\<bar>2 * (int v * (u * 10 ^ p) - ns * 10 ^ p)\<bar> < u * 10 ^ p + 2 * 10 ^ p" by blast
  have h: "2 * \<bar>int v * u - ns\<bar> \<le> u"
    by (rule half_unit[OF v(2) u(2)])
  have "v < 10 ^ 17"
  proof (rule ccontr)
    assume "\<not> v < 10 ^ 17"
    define w where "w = int v * u"
    have "100000000000000000 * u \<le> w"
      unfolding w_def using \<open>\<not> v < 10 ^ 17\<close> u(1) by (intro mult_right_mono) simp_all
    moreover have "w - ns \<le> u"
      using h u(6) unfolding w_def[symmetric] by arith
    moreover have "ns < 9007199254740992"
      using assms(2) by simp
    ultimately show False
      using u(6) by linarith
  qed
  then have "v div 10 ^ p < 10 ^ 17"
    by (rule order.strict_trans1[OF div_le_dividend])
  then have "length (decimal p v) \<le> 20"
    using decimal_length[OF _ u(3)] u(4) by fastforce
  then have "fmt_dur ns 24 = decimal p v @ ascii t"
    using u(5) by (simp add: fmt_dur_printf[OF assms(1,3)] v(1))
  then show ?thesis
    using h by blast
qed

lemma durations_round_to_nearest_witness:
  "\<exists>v. fmt_dur 1350 24 = decimal 1 v @ ascii ''us'' \<and> 2 * \<bar>int v * 100 - 1350\<bar> \<le> 100"
  using durations_round_to_nearest[of 1350 1 100 "''us''"] by (simp add: duration_unit_def)

end
