(* ===== verification/Otel_Trace_Stored.thy ===== *)
theory Otel_Trace_Stored
  imports Otel_Trace_Show Otel_Sqlite_Theorems "HOL-Library.Multiset"
begin

text \<open>
  From the SQLite sink to the command line tool: what \<^verbatim>\<open>otel-trace show\<close> prints for a span that
  \<^verbatim>\<open>otel_sqlite.c\<close> stored.  The locale \<open>trace_reader\<close> is the interface between the two programs:
  SQLite's answers to the three statements the tool runs on the tables of the sink.
\<close>

subsection \<open>Lines\<close>

text \<open>What a reader expects to see of a value.\<close>

fun value_text :: "'db cli_lib \<Rightarrow> otel_value \<Rightarrow> byte list" where
  "value_text lib (VStr x) = 34 # x @ [34]"
| "value_text lib (VI64 w) = dec (sint w)"
| "value_text lib (VU64 w) = dec (uint w)"
| "value_text lib (VF64 w) = cl_printf_g lib (cl_real_of lib (SReal w))"
| "value_text lib (VBool b) = ascii (if b \<noteq> 0 then ''true'' else ''false'')"
| "value_text lib (VOther t) = ascii ''?''"

definition attr_line :: "'db cli_lib \<Rightarrow> byte list \<Rightarrow> byte list \<times> otel_value \<Rightarrow> byte list" where
  "attr_line lib pad kv = pad @ ascii ''- '' @ fst kv @ ascii '' = '' @ value_text lib (snd kv) @ [10]"

text \<open>\<open>attr_lines lib pad kvs out\<close>: \<open>out\<close> has one line for each of \<open>kvs\<close>, in some order.  An event is
  a line with its name and the lines of its attributes.\<close>

definition attr_lines :: "'db cli_lib \<Rightarrow> byte list \<Rightarrow> (byte list \<times> otel_value) list \<Rightarrow> byte list \<Rightarrow> bool" where
  "attr_lines lib pad kvs out \<longleftrightarrow> (\<exists>zs. mset zs = mset kvs \<and> out = concat (map (attr_line lib pad) zs))"

definition event_lines :: "'db cli_lib \<Rightarrow> byte list \<Rightarrow> byte list \<Rightarrow> event_view \<Rightarrow> byte list \<Rightarrow> bool" where
  "event_lines lib pad pad2 w out \<longleftrightarrow>
     (\<exists>as. attr_lines lib pad2 (evw_attrs w) as \<and> out = pad @ ascii ''* event: '' @ evw_name w @ [10] @ as)"

subsection \<open>One row\<close>

text \<open>The columns \<^verbatim>\<open>key,type,s_val,i_val,d_val\<close> and \<^verbatim>\<open>id,name,time_unix_ns\<close>.\<close>

definition attr_columns :: "attr_row \<Rightarrow> sql_value list" where
  "attr_columns r = [SText (ar_key r), SInt (ar_type r),
     (case ar_s_val r of None \<Rightarrow> SNull | Some x \<Rightarrow> SText x),
     (case ar_i_val r of None \<Rightarrow> SNull | Some i \<Rightarrow> SInt i),
     (case ar_d_val r of None \<Rightarrow> SNull | Some w \<Rightarrow> SReal w)]"

definition event_columns :: "int \<times> event_row \<Rightarrow> sql_value list" where
  "event_columns x = [SInt (fst x), SText (er_name (snd x)), SInt (er_time_unix_ns (snd x))]"

lemmas row_text = attr_columns_def event_columns_def column_text_def column_int_def col_def text_or_def

text \<open>Keys and values that a span accessor can return.\<close>

fun c_value :: "otel_value \<Rightarrow> bool" where
  "c_value (VStr x) \<longleftrightarrow> 0 \<notin> set x"
| "c_value (VOther t) \<longleftrightarrow> 4 < t"
| "c_value _ \<longleftrightarrow> True"

definition c_pair :: "byte list \<times> otel_value \<Rightarrow> bool" where
  "c_pair kv \<longleftrightarrow> 0 \<notin> set (fst kv) \<and> c_value (snd kv)"

definition c_event :: "event_view \<Rightarrow> bool" where
  "c_event w \<longleftrightarrow> 0 \<notin> set (evw_name w) \<and> (\<forall>kv \<in> set (evw_attrs w). c_pair kv)"

text \<open>SQLite's integers are signed: an unsigned value or a time from \<open>2 ^ 63\<close> on has no faithful row.\<close>

fun value_in_range :: "otel_value \<Rightarrow> bool" where
  "value_in_range (VU64 w) \<longleftrightarrow> w < 2 ^ 63"
| "value_in_range _ \<longleftrightarrow> True"

definition pair_ok :: "byte list \<times> otel_value \<Rightarrow> bool" where
  "pair_ok kv \<longleftrightarrow> c_pair kv \<and> value_in_range (snd kv)"

definition event_ok :: "event_view \<Rightarrow> bool" where
  "event_ok w \<longleftrightarrow> c_event w \<and> (\<forall>kv \<in> set (evw_attrs w). pair_ok kv)"

definition values_in_range :: "span_view \<Rightarrow> bool" where
  "values_in_range v \<longleftrightarrow> list_all (value_in_range \<circ> snd) (vw_attrs v) \<and>
     list_all (\<lambda>w. evw_time w < 2 ^ 63 \<and> list_all (value_in_range \<circ> snd) (evw_attrs w)) (vw_events v)"

lemma takeWhile_c: "0 \<notin> set x \<Longrightarrow> takeWhile (\<lambda>b. b \<noteq> 0) x = x" for x :: "byte list"
  by (simp add: takeWhile_eq_all_conv) metis

lemma strv_no_nul: "0 \<notin> set (otel_span_strv s off)"
proof -
  have "0 \<notin> set (cstr_from m bnd p)" for m bnd p
    by (induction m bnd p rule: cstr_from.induct) (subst cstr_from.simps, auto)
  then show ?thesis
    by (simp add: otel_span_strv_def)
qed

lemma type_above: "\<lbrakk>t \<noteq> 0; t \<noteq> 1; t \<noteq> 2; t \<noteq> 3; t \<noteq> 4\<rbrakk> \<Longrightarrow> 4 < t" for t :: byte
proof (rule ccontr)
  assume n: "t \<noteq> 0" "t \<noteq> 1" "t \<noteq> 2" "t \<noteq> 3" "t \<noteq> 4" and "\<not> 4 < t"
  then have "unat t \<in> {0, 1, 2, 3, 4}"
    by (auto simp: word_less_nat_alt)
  then show False
    using n unfolding word_unat_eq_iff by auto
qed

lemma attr_view_c: "c_pair (attr_view s a)"
  using type_above[of "at_type (attr_at (sp_arena s) a)"] strv_no_nul
  by (auto simp: c_pair_def attr_view_def attr_value_def Let_def otel_attr_key_def otel_attr_strval_def)

lemma those_set: "those xs = Some ys \<Longrightarrow> y \<in> set ys \<Longrightarrow> Some y \<in> set xs"
  by (induction xs arbitrary: ys) (auto split: option.splits)

lemma view_c:
  assumes "span_view_of s = Some v"
  shows "\<forall>kv \<in> set (vw_attrs v). c_pair kv" and "\<forall>w \<in> set (vw_events v). c_event w"
proof -
  show "\<forall>kv \<in> set (vw_attrs v). c_pair kv"
    using assms by (auto simp: span_view_of_def attr_view_c split: bind_splits)
  obtain es where es: "those (map (event_view_of s) es) = Some (vw_events v)"
    using assms by (auto simp: span_view_of_def split: bind_splits)
  show "\<forall>w \<in> set (vw_events v). c_event w"
  proof
    fix w
    assume "w \<in> set (vw_events v)"
    then obtain e where "event_view_of s e = Some w"
      using those_set[OF es] by fastforce
    then show "c_event w"
      by (auto simp: event_view_of_def c_event_def attr_view_c otel_event_name_def strv_no_nul)
  qed
qed

lemma view_ok:
  assumes "span_view_of s = Some v" and "values_in_range v"
  shows "\<forall>kv \<in> set (vw_attrs v). pair_ok kv" and "\<forall>w \<in> set (vw_events v). event_ok w"
  using view_c[OF assms(1)] assms(2) by (auto simp: values_in_range_def pair_ok_def event_ok_def c_event_def list_all_iff)

lemma int32_byte: "int32 (uint (t :: byte)) = uint t"
proof -
  have "uint t < 2 ^ 31" "- (2 ^ 31) \<le> uint t"
    using uint_lt2p[of t] by (simp_all add: order.trans[of _ 0])
  then have "sint (word_of_int (uint t) :: 32 word) = uint t"
    by (subst signed_of_int) (simp add: signed_take_bit_int_eq_self)
  then show ?thesis
    unfolding int32_def .
qed

lemma int32_type: "int32 0 = 0" "int32 1 = 1" "int32 2 = 2" "int32 3 = 3" "int32 4 = 4"
  using int32_byte[of 0] int32_byte[of 1] int32_byte[of 2] int32_byte[of 3] int32_byte[of 4] by simp_all

lemma attr_row_line:
  assumes ok: "pair_ok kv"
  shows "print_attr_row lib pad (attr_columns (kv_row owner kv)) = attr_line lib pad kv"
proof -
  obtain k v where kv: "kv = (k, v)" by fastforce
  have assms: "c_pair kv" and range: "value_in_range v"
    using ok kv by (simp_all add: pair_ok_def)
  show ?thesis
  proof (cases v)
    case (VOther t)
    have "4 < uint t"
      using assms kv VOther by (simp add: c_pair_def word_less_def)
    then show ?thesis
      using assms kv VOther by (simp add: print_attr_row_def attr_line_def row_text int32_byte takeWhile_c c_pair_def)
  next
    case (VU64 w)
    then have "sint w = uint w"
      using range cap_small by simp
    then show ?thesis
      using assms kv VU64 by (simp add: print_attr_row_def attr_line_def row_text int32_type takeWhile_c c_pair_def)
  qed (use assms in \<open>simp_all add: kv print_attr_row_def attr_line_def row_text int32_type takeWhile_c c_pair_def\<close>)
qed

subsection \<open>Rows of a stored span\<close>

definition attrs_of :: "int \<Rightarrow> attr_row list \<Rightarrow> attr_row list" where
  "attrs_of owner rows = filter (\<lambda>r. ar_owner r = owner) rows"

definition events_of :: "int \<Rightarrow> tables \<Rightarrow> (int \<times> event_row) list" where
  "events_of sid t = filter (\<lambda>x. er_span (snd x) = sid) (t_events t)"

text \<open>\<open>holds_event t x w\<close>: row \<open>x\<close> and the attribute rows it owns are the event \<open>w\<close>.\<close>

definition holds_event :: "tables \<Rightarrow> int \<times> event_row \<Rightarrow> event_view \<Rightarrow> bool" where
  "holds_event t x w \<longleftrightarrow> er_name (snd x) = evw_name w \<and> er_time_unix_ns (snd x) = sint (evw_time w) \<and>
     attrs_of (fst x) (t_event_attrs t) = map (kv_row (fst x)) (evw_attrs w)"

lemma attrs_of_append [simp]: "attrs_of owner (xs @ ys) = attrs_of owner xs @ attrs_of owner ys"
  by (simp add: attrs_of_def)

lemma attrs_of_rows [simp]: "attrs_of owner (map (kv_row owner') kvs) = (if owner = owner' then map (kv_row owner') kvs else [])"
  by (auto simp: attrs_of_def filter_empty_conv)

lemma attrs_of_none: "(\<And>r. r \<in> set rows \<Longrightarrow> ar_owner r \<noteq> owner) \<Longrightarrow> attrs_of owner rows = []"
  by (simp add: attrs_of_def filter_empty_conv)

lemma holds_add_event:
  assumes "refs_ok t" and "sid \<in> set (span_ids t)" and "list_all2 (holds_event t) (events_of sid t) ws"
  shows "list_all2 (holds_event (add_event sid w t)) (events_of sid (add_event sid w t)) (ws @ [w])"
proof -
  define eid where "eid = next_id (event_ids t)"
  have fresh: "eid \<notin> set (event_ids t)"
    unfolding eid_def by (rule next_id_fresh)
  have new: "attrs_of eid (t_event_attrs t) = []"
    using assms(1) fresh by (intro attrs_of_none) (auto simp: refs_ok_def)
  have old: "holds_event (add_event sid w t) x w'" if "holds_event t x w'" "x \<in> set (events_of sid t)" for x w'
  proof -
    have "fst x \<noteq> eid"
      using that(2) fresh by (auto simp: events_of_def event_ids_def)
    then show ?thesis
      using that(1) by (simp add: holds_event_def add_event_def Let_def eid_def)
  qed
  have "events_of sid (add_event sid w t) = events_of sid t @ [(eid, event_row_of sid w)]"
    by (simp add: events_of_def add_event_def Let_def event_row_of_def eid_def)
  moreover have "holds_event (add_event sid w t) (eid, event_row_of sid w) w"
    using new by (simp add: holds_event_def add_event_def Let_def event_row_of_def eid_def)
  moreover have "list_all2 (holds_event (add_event sid w t)) (events_of sid t) ws"
    using assms(3) old by (rule list.rel_mono_strong) auto
  ultimately show ?thesis
    by (simp add: list_all2_appendI)
qed

lemma holds_add_events:
  "refs_ok t \<Longrightarrow> sid \<in> set (span_ids t) \<Longrightarrow> list_all2 (holds_event t) (events_of sid t) ws0 \<Longrightarrow>
   list_all2 (holds_event (fold (add_event sid) ws t)) (events_of sid (fold (add_event sid) ws t)) (ws0 @ ws)"
proof (induction ws arbitrary: t ws0)
  case (Cons w ws)
  then show ?case
    using Cons.IH[of "add_event sid w t" "ws0 @ [w]"] holds_add_event[of t sid ws0 w] add_event_refs[of t sid w] by simp
qed simp

lemma stored_rows:
  fixes service :: "byte list"
  assumes "refs_ok t" and "span_view_of s = Some v"
  defines "sid \<equiv> next_id (span_ids t)" and "t' \<equiv> add_span service s t"
  shows "attrs_of sid (t_attrs t') = map (kv_row sid) (vw_attrs v)"
    and "list_all2 (holds_event t') (events_of sid t') (vw_events v)"
proof -
  have fresh: "sid \<notin> set (span_ids t)"
    unfolding sid_def by (rule next_id_fresh)
  have "attrs_of sid (t_attrs t) = []"
    using assms(1) fresh by (intro attrs_of_none) (auto simp: refs_ok_def)
  then show "attrs_of sid (t_attrs t') = map (kv_row sid) (vw_attrs v)"
    using assms(2) by (simp add: sid_def t'_def)
  define t1 where "t1 = t\<lparr>t_spans := t_spans t @ [(sid, span_row_of service s)], t_attrs := t_attrs t @ map (kv_row sid) (vw_attrs v)\<rparr>"
  have t1: "refs_ok t1" "sid \<in> set (span_ids t1)"
    using add_span_row_refs[OF assms(1)] by (simp_all add: t1_def sid_def span_ids_def)
  have "events_of sid t1 = []"
    using assms(1) fresh by (auto simp: events_of_def t1_def refs_ok_def filter_empty_conv)
  then show "list_all2 (holds_event t') (events_of sid t') (vw_events v)"
    using holds_add_events[OF t1, of "[]" "vw_events v"] assms(2)
    by (simp add: t'_def add_span_def Let_def t1_def sid_def)
qed

subsection \<open>The statements of the tool\<close>

lemma reorder:
  assumes "mset xs = mset (map f ys)"
  shows "\<exists>zs. mset zs = mset ys \<and> xs = map f zs"
proof -
  have "list_all2 (\<lambda>x y. x = f y) (map f ys) ys"
    by (simp add: list_all2_conv_all_nth)
  from list_all2_reorder_left_invariance[OF this assms] obtain zs where
    "list_all2 (\<lambda>x y. x = f y) xs zs" "mset zs = mset ys" by auto
  then show ?thesis
    by (intro exI[of _ zs]) (auto simp: list_all2_conv_all_nth intro: nth_equalityI)
qed

definition start_column :: "sql_value list \<Rightarrow> int" where
  "start_column row = (case col row 2 of SInt i \<Rightarrow> i | _ \<Rightarrow> 0)"

text \<open>\<open>db\<close> is an open database file whose content is \<open>t\<close>.\<close>

locale trace_reader =
  fixes lib :: "'db cli_lib" and db :: 'db and t :: tables
  assumes compiles: "q \<in> {attrs_sql, events_sql, event_attrs_sql} \<Longrightarrow> cl_prepare lib db (ascii q)"
    and attrs_answer: "mset (cl_rows lib db (ascii attrs_sql) [(1, SInt sid)]) = mset (map attr_columns (attrs_of sid (t_attrs t)))"
    and event_attrs_answer:
      "mset (cl_rows lib db (ascii event_attrs_sql) [(1, SInt eid)]) = mset (map attr_columns (attrs_of eid (t_event_attrs t)))"
    and events_answer: "mset (cl_rows lib db (ascii events_sql) [(1, SInt sid)]) = mset (map event_columns (events_of sid t))"
      "sorted (map start_column (cl_rows lib db (ascii events_sql) [(1, SInt sid)]))"
begin

lemma lines_of_rows:
  assumes "mset rows = mset (map attr_columns (map (kv_row owner) kvs))" and "\<forall>kv \<in> set kvs. pair_ok kv"
  shows "attr_lines lib pad kvs (print_attr_rows lib pad rows)"
proof -
  from assms(1) have "mset rows = mset (map (\<lambda>kv. attr_columns (kv_row owner kv)) kvs)"
    by (simp add: multiset.map_comp comp_def)
  from reorder[OF this] obtain zs where z: "mset zs = mset kvs" "rows = map (\<lambda>kv. attr_columns (kv_row owner kv)) zs" by blast
  then have "\<forall>kv \<in> set zs. pair_ok kv"
    using assms(2) mset_eq_setD by metis
  then have "print_attr_rows lib pad rows = concat (map (attr_line lib pad) zs)"
    unfolding z(2) print_attr_rows_def by (auto simp: attr_row_line intro!: arg_cong[where f = concat])
  then show ?thesis
    using z(1) by (auto simp: attr_lines_def)
qed

lemma event_block:
  assumes "holds_event t x w" and "event_ok w"
  shows "event_lines lib pad (make_pad (p + 2)) w (print_event lib db pad p (event_columns x))"
proof -
  have "attr_lines lib (make_pad (p + 2)) (evw_attrs w) (print_event_attrs lib db (fst x) (p + 2))"
    using assms lines_of_rows[of _ "fst x" "evw_attrs w"] event_attrs_answer[of "fst x"] compiles
    by (simp add: holds_event_def event_ok_def print_event_attrs_def)
  moreover have "print_event lib db pad p (event_columns x) =
      pad @ ascii ''* event: '' @ evw_name w @ [10] @ print_event_attrs lib db (fst x) (p + 2)"
    using assms by (simp add: print_event_def row_text holds_event_def event_ok_def c_event_def takeWhile_c)
  ultimately show ?thesis
    unfolding event_lines_def by blast
qed

text \<open>What \<^verbatim>\<open>print_attrs_events\<close> prints for a span whose rows are there.\<close>

lemma span_block:
  assumes "attrs_of sid (t_attrs t) = map (kv_row sid) kvs" and "list_all2 (holds_event t) (events_of sid t) ws"
    and "\<forall>kv \<in> set kvs. pair_ok kv" and "\<forall>w \<in> set ws. event_ok w"
  shows "\<exists>as ws' outs. print_attrs_events lib db sid depth = as @ concat outs \<and>
    attr_lines lib (make_pad (int depth * 2 + 2)) kvs as \<and> mset ws' = mset ws \<and> sorted (map (\<lambda>w. sint (evw_time w)) ws') \<and>
    list_all2 (event_lines lib (make_pad (int depth * 2 + 2)) (make_pad (min 60 (int depth * 2 + 2) + 2))) ws' outs"
proof -
  define rows where "rows = cl_rows lib db (ascii events_sql) [(1, SInt sid)]"
  define p where "p = min 60 (int depth * 2 + 2)"
  let ?pad = "make_pad (int depth * 2 + 2)"
  obtain es where es: "mset es = mset (events_of sid t)" "rows = map event_columns es"
    using reorder[OF events_answer(1)[of sid]] unfolding rows_def by blast
  obtain ws' where ws': "list_all2 (holds_event t) es ws'" "mset ws' = mset ws"
    using list_all2_reorder_left_invariance[OF assms(2) es(1)] by blast
  have c: "\<forall>w \<in> set ws'. event_ok w"
    using assms(4) ws'(2) mset_eq_setD by metis
  have "map start_column rows = map (\<lambda>w. sint (evw_time w)) ws'"
    using ws'(1) unfolding es(2)
    by (auto simp: list_all2_conv_all_nth holds_event_def start_column_def row_text intro!: nth_equalityI)
  then have "sorted (map (\<lambda>w. sint (evw_time w)) ws')"
    using events_answer(2)[of sid] unfolding rows_def[symmetric] by simp
  moreover have "list_all2 (event_lines lib ?pad (make_pad (p + 2))) ws' (map (print_event lib db ?pad p) rows)"
    using ws'(1) c unfolding es(2) by (auto simp: list_all2_conv_all_nth intro!: event_block)
  moreover have "attr_lines lib ?pad kvs (print_attr_rows lib ?pad (cl_rows lib db (ascii attrs_sql) [(1, SInt sid)]))"
    using lines_of_rows assms(1,3) attrs_answer[of sid] by simp
  moreover have "print_attrs_events lib db sid depth =
      print_attr_rows lib ?pad (cl_rows lib db (ascii attrs_sql) [(1, SInt sid)]) @ concat (map (print_event lib db ?pad p) rows)"
    using compiles by (simp add: print_attrs_events_def Let_def rows_def p_def min_def)
  ultimately show ?thesis
    using ws'(2) unfolding p_def by blast
qed

end

text \<open>The reader on the tables themselves.\<close>

definition table_rows :: "tables \<Rightarrow> byte list \<Rightarrow> (nat \<times> sql_value) list \<Rightarrow> sql_value list list" where
  "table_rows t q bs =
     (let owner = (case bs of [(_, SInt i)] \<Rightarrow> i | _ \<Rightarrow> 0)
      in if q = ascii attrs_sql then map attr_columns (attrs_of owner (t_attrs t))
         else if q = ascii event_attrs_sql then map attr_columns (attrs_of owner (t_event_attrs t))
         else if q = ascii events_sql then map event_columns (sort_key (\<lambda>x. er_time_unix_ns (snd x)) (events_of owner t))
         else [])"

definition table_reader :: "tables cli_lib" where
  "table_reader = \<lparr>cl_open = \<lambda>_. Some no_tables, cl_prepare = \<lambda>_ _. True, cl_rows = table_rows, cl_exec = \<lambda>_ _. ([], True),
     cl_int_of_text = \<lambda>_. 0, cl_int_of_real = \<lambda>_. 0, cl_text_of_real = \<lambda>_. [], cl_real_of = \<lambda>_. 0, cl_printf_g = \<lambda>_. [],
     cl_strftime = \<lambda>_. [], cl_now = 0\<rparr>"

lemma statements_differ:
  "ascii attrs_sql \<noteq> ascii event_attrs_sql" "ascii attrs_sql \<noteq> ascii events_sql" "ascii event_attrs_sql \<noteq> ascii events_sql"
  by (auto simp: attrs_sql_def event_attrs_sql_def events_sql_def simp del: ascii_simps dest!: arg_cong[where f = length])

interpretation stored_tables: trace_reader table_reader t t
proof
  have "start_column \<circ> event_columns = (\<lambda>x. er_time_unix_ns (snd x))"
    by (auto simp: start_column_def row_text)
  then show "sorted (map start_column (cl_rows table_reader t (ascii events_sql) [(1, SInt sid)]))" for sid
    using statements_differ by (simp add: table_reader_def table_rows_def)
qed (use statements_differ in \<open>simp_all add: table_reader_def table_rows_def\<close>)

text \<open>Outside the range the sign changes.\<close>

lemma big_unsigned_shown_negative:
  assumes "\<not> w < 2 ^ 63" and "0 \<notin> set k"
  shows "print_attr_row lib pad (attr_columns (kv_row owner (k, VU64 w))) = pad @ ascii ''- '' @ k @ ascii '' = '' @ dec (uint w - 2 ^ 64) @ [10]"
proof -
  have "2 ^ 63 \<le> uint w"
    using assms(1) by (simp add: word_less_def)
  moreover have "uint w < 2 ^ 64"
    using uint_lt2p[of w] by simp
  ultimately have "(uint w + 2 ^ 63 - 2 ^ 64) mod 2 ^ 64 = uint w + 2 ^ 63 - 2 ^ 64"
    by (intro mod_pos_pos_trivial) simp_all
  then have "sint w = uint w - 2 ^ 64"
    by (simp add: sint_uint signed_take_bit_eq_take_bit_shift take_bit_eq_mod flip: minus_mod_self2[of "uint w + 9223372036854775808"])
  then show ?thesis
    using assms(2) by (simp add: print_attr_row_def row_text int32_type takeWhile_c)
qed

text \<open>C14: what was recorded is shown: for a span stored by the sink whose unsigned attributes and times are
  below \<open>2 ^ 63\<close>, \<^verbatim>\<open>otel-trace show\<close> prints one line per attribute with its key and value, then one block
  per event, in the order of the event times, with its name and one line per attribute,
  nothing missing and nothing added.  (Larger unsigned values come out negative,
  \<open>big_unsigned_shown_negative\<close>.)\<close>

theorem show_prints_recorded_data:
  assumes reader: "trace_reader lib db (add_span service s t)"
    and t: "refs_ok t" and v: "span_view_of s = Some v" "values_in_range v"
  shows "\<exists>as ws outs. print_attrs_events lib db (next_id (span_ids t)) depth = as @ concat outs \<and>
    attr_lines lib (make_pad (int depth * 2 + 2)) (vw_attrs v) as \<and>
    mset ws = mset (vw_events v) \<and> sorted (map evw_time ws) \<and>
    list_all2 (event_lines lib (make_pad (int depth * 2 + 2)) (make_pad (min 60 (int depth * 2 + 2) + 2))) ws outs"
proof -
  from trace_reader.span_block[OF reader stored_rows[OF t v(1)] view_ok[OF v]] obtain as ws outs where
    1: "print_attrs_events lib db (next_id (span_ids t)) depth = as @ concat outs"
    "attr_lines lib (make_pad (int depth * 2 + 2)) (vw_attrs v) as" "mset ws = mset (vw_events v)"
    "sorted (map (\<lambda>w. sint (evw_time w)) ws)"
    "list_all2 (event_lines lib (make_pad (int depth * 2 + 2)) (make_pad (min 60 (int depth * 2 + 2) + 2))) ws outs"
    by blast
  have "set ws = set (vw_events v)"
    using 1(3) mset_eq_setD by blast
  then have "sint (evw_time w) = uint (evw_time w)" if "w \<in> set ws" for w
    using v(2) that cap_small by (auto simp: values_in_range_def list_all_iff)
  then have "sorted (map (\<lambda>w. uint (evw_time w)) ws)"
    using 1(4) by (simp cong: map_cong)
  then have "sorted (map evw_time ws)"
    by (simp add: sorted_wrt_map word_le_def)
  then show ?thesis
    using 1 by blast
qed

lemma show_prints_recorded_data_witness:
  "print_attrs_events table_reader (add_span [115] sample_span no_tables) 1 0 =
     ascii ''  - k = 7'' @ [10] @ ascii ''  * event: e'' @ [10] @ ascii ''    - x = '' @ [34, 121, 34, 10]"
proof -
  have pad: "make_pad 2 = [32, 32]" "make_pad 4 = [32, 32, 32, 32]"
    by (simp_all add: make_pad_def numeral_eq_Suc)
  have one: "attr_lines lib p [kv] out \<longleftrightarrow> out = attr_line lib p kv" for lib :: "tables cli_lib" and p kv out
    by (auto simp: attr_lines_def)
  have "values_in_range sample_view"
    by (simp add: sample_view_value values_in_range_def)
  moreover have "dec (sint (7 :: u64)) = [55]"
    by (simp add: dec_def dec_nat.simps)
  moreover have "next_id [] = 1"
    by (simp add: next_id_def)
  ultimately show ?thesis
    using show_prints_recorded_data[OF stored_tables.trace_reader_axioms no_tables(1) sample_views, of "[115]" 0]
    by (auto simp: pad sample_view_value list_all2_Cons1 one event_lines_def attr_line_def)
qed

end
