(* ===== verification/Otel_Clock.thy ===== *)
theory Otel_Clock
  imports Otel_Sqlite
begin

text \<open>
  The clock of \<^verbatim>\<open>oteltracing.c\<close>: the fields \<^verbatim>\<open>OT.clock\<close> and \<^verbatim>\<open>OT.wall_base_ns\<close>, their set-up in
  \<^verbatim>\<open>otel_init\<close>, \<^verbatim>\<open>otel_set_clock\<close> and \<^verbatim>\<open>otel_default_clock\<close>.  The stopwatch is not part of the
  repository: \<open>elapsed\<close> is what it returns, the nanoseconds since \<^verbatim>\<open>otel_init\<close> started it.  The other
  theories take the times that \<^verbatim>\<open>OT.clock()\<close> returned as arguments.
\<close>

datatype clock_fn = DefaultClock | UserClock nat

record otel_clock =
  ck_clock :: "clock_fn option"     \<comment> \<open>\<open>None\<close> is the null pointer of the zeroed state\<close>
  ck_wall_base_ns :: u64

definition otel_clock_init :: "timespec \<Rightarrow> otel_clock" where
  "otel_clock_init ts = \<lparr>ck_clock = Some DefaultClock,
     ck_wall_base_ns = of_int (tv_sec ts) * 1000000000 + of_int (tv_nsec ts)\<rparr>"

definition otel_set_clock :: "nat option \<Rightarrow> otel_clock \<Rightarrow> otel_clock" where
  "otel_set_clock now_unix_ns C =
     C\<lparr>ck_clock := Some (case now_unix_ns of Some f \<Rightarrow> UserClock f | None \<Rightarrow> DefaultClock)\<rparr>"

definition otel_default_clock :: "otel_clock \<Rightarrow> u64 \<Rightarrow> u64" where
  "otel_default_clock C elapsed = ck_wall_base_ns C + elapsed"

text \<open>A call of \<^verbatim>\<open>OT.clock()\<close>; \<open>user f\<close> is what the client's clock \<open>f\<close> returns at that moment.\<close>

definition clock_now :: "otel_clock \<Rightarrow> u64 \<Rightarrow> (nat \<Rightarrow> u64) \<Rightarrow> u64 option" where
  "clock_now C elapsed user =
     (case ck_clock C of
        None \<Rightarrow> None
      | Some DefaultClock \<Rightarrow> Some (otel_default_clock C elapsed)
      | Some (UserClock f) \<Rightarrow> Some (user f))"

lemma wall_base:
  assumes "0 \<le> timespec_ns ts" and "timespec_ns ts < 2 ^ 64"
  shows "uint (ck_wall_base_ns (otel_clock_init ts)) = timespec_ns ts"
proof -
  have "ck_wall_base_ns (otel_clock_init ts) = of_int (timespec_ns ts)"
    by (simp add: otel_clock_init_def timespec_ns_def)
  then show ?thesis
    using assms by (simp add: unsigned_of_int take_bit_int_eq_self)
qed

lemma default_clock:
  assumes "0 \<le> timespec_ns ts" and "timespec_ns ts + uint elapsed < 2 ^ 64"
  shows "clock_now (otel_clock_init ts) elapsed user = Some (otel_default_clock (otel_clock_init ts) elapsed)"
    and "uint (otel_default_clock (otel_clock_init ts) elapsed) = timespec_ns ts + uint elapsed"
proof -
  show "clock_now (otel_clock_init ts) elapsed user = Some (otel_default_clock (otel_clock_init ts) elapsed)"
    by (simp add: clock_now_def otel_clock_init_def)
  have "timespec_ns ts < 2 ^ 64"
    using assms(2) uint_ge_0[of elapsed] by linarith
  then have "uint (ck_wall_base_ns (otel_clock_init ts)) = timespec_ns ts"
    using wall_base assms(1) by blast
  then show "uint (otel_default_clock (otel_clock_init ts) elapsed) = timespec_ns ts + uint elapsed"
    using assms by (simp add: otel_default_clock_def uint_plus_if')
qed

lemma run_start: "sp_start_unix_ns (fst (span_run (otel_span_init s name kind now) calls)) = now"
  using span_run_meta[of "otel_span_init s name kind now" calls] by (simp add: span_meta_def)

text \<open>C29: stored times are wall-clock times and stored durations are elapsed times: on the default clock
  a span that is started, filled by any calls and ended has in its row the wall-clock time of
  its start and of its end and, as its duration, the time the stopwatch measured between the
  two, whatever the system clock did meanwhile.\<close>

theorem stored_duration_is_elapsed_time:
  assumes ts: "0 \<le> timespec_ns ts" "timespec_ns ts + uint fin < 2 ^ 63"
    and order: "start \<le> fin"
    and times: "clock_now (otel_clock_init ts) start user = Some t0" "clock_now (otel_clock_init ts) fin user' = Some t1"
  shows "let r = span_row_of service ((fst (span_run (otel_span_init s name kind t0) calls))\<lparr>sp_end_unix_ns := t1\<rparr>)
     in sr_start_unix_ns r = timespec_ns ts + uint start \<and> sr_end_unix_ns r = timespec_ns ts + uint fin \<and>
        sr_duration_ns r = uint fin - uint start \<and> 0 \<le> sr_duration_ns r"
proof -
  have le: "uint start \<le> uint fin"
    using order by (simp add: word_le_def)
  have b: "timespec_ns ts + uint start < 2 ^ 64" "timespec_ns ts + uint fin < 2 ^ 64"
    using ts(2) le by simp_all
  have t: "uint t0 = timespec_ns ts + uint start" "uint t1 = timespec_ns ts + uint fin"
    using times default_clock[OF ts(1) b(1)] default_clock[OF ts(1) b(2)] by simp_all
  have small: "sint w = uint w" if "uint w < 2 ^ 63" for w :: u64
    using that order.trans[of "- (2 ^ 63)" 0 "uint w"] by (simp add: sint_uint signed_take_bit_int_eq_self)
  have d: "uint (t1 - t0) = uint fin - uint start"
    using t le by (simp add: uint_sub_if')
  have "sint t0 = uint t0" "sint t1 = uint t1" "sint (t1 - t0) = uint (t1 - t0)"
    using small[of t0] small[of t1] small[of "t1 - t0"] t d ts le uint_ge_0[of start] by (linarith, linarith, linarith)
  then show ?thesis
    using t d le by (simp add: Let_def span_row_of_def run_start)
qed

lemma stored_duration_is_elapsed_time_witness:
  "sr_duration_ns (span_row_of [115] ((fst (span_run (otel_span_init zero_span None 0 1700000000000000005) []))\<lparr>sp_end_unix_ns := 1700000000000000012\<rparr>)) = 7"
proof -
  define ts where "ts = \<lparr>tv_sec = 1700000000, tv_nsec = 0\<rparr>"
  have "clock_now (otel_clock_init ts) 5 (\<lambda>_. 0) = Some 1700000000000000005"
    "clock_now (otel_clock_init ts) 12 (\<lambda>_. 0) = Some 1700000000000000012"
    by (simp_all add: clock_now_def otel_clock_init_def otel_default_clock_def ts_def)
  from stored_duration_is_elapsed_time[OF _ _ _ this, of "[115]" zero_span None 0 "[]"] show ?thesis
    by (simp add: timespec_ns_def ts_def Let_def)
qed

end
