(* ===== verification/Otel_Borrow.thy ===== *)
theory Otel_Borrow
  imports Otel_Tracer_Props
begin

text \<open>
  The batch keeps pointers into the spans it was given (\<^verbatim>\<open>otlp_add_attr\<close>, \<^verbatim>\<open>otlp_add_span\<close>): the ids,
  the names, the status message, the keys and the string values are read when the request is
  packed, while numbers, times and list lengths are copied.  \<open>rewritten H ob ob'\<close> is what the batch
  \<open>ob\<close> can show after the slots of the spans with the indexes \<open>H\<close> have been written: the
  bytes it points to in these spans are arbitrary, all else is as before.
\<close>

subsection \<open>What is copied and what is borrowed\<close>

definition same_kv :: "otlp_kv \<Rightarrow> otlp_kv \<Rightarrow> bool" where
  "same_kv x y \<longleftrightarrow> (case (snd x, snd y) of (AnyStr a, AnyStr b) \<Rightarrow> True | (a, b) \<Rightarrow> a = b)"

definition same_event :: "otlp_event \<Rightarrow> otlp_event \<Rightarrow> bool" where
  "same_event x y \<longleftrightarrow> y = x\<lparr>oe_name := oe_name y\<rparr>"

definition same_span :: "otlp_span \<Rightarrow> otlp_span \<Rightarrow> bool" where
  "same_span x y \<longleftrightarrow> y = x\<lparr>os_trace_id := os_trace_id y, os_span_id := os_span_id y,
       os_parent_span_id := os_parent_span_id y, os_name := os_name y, os_message := os_message y\<rparr> \<and>
     length (os_trace_id y) = length (os_trace_id x) \<and> (os_parent_span_id y = None) = (os_parent_span_id x = None)"

definition rewritten :: "nat set \<Rightarrow> otel_otlp \<Rightarrow> otel_otlp \<Rightarrow> bool" where
  "rewritten H ob ob' \<longleftrightarrow>
     ob' = ob\<lparr>ot_spans := ot_spans ob', ot_attr := ot_attr ob', ot_event := ot_event ob'\<rparr> \<and>
     list_all2 same_span (ot_spans ob) (ot_spans ob') \<and> list_all2 same_kv (ot_attr ob) (ot_attr ob') \<and>
     list_all2 same_event (ot_event ob) (ot_event ob') \<and>
     (\<forall>i < ot_n_spans ob. i \<notin> H \<longrightarrow> msg_span ob' (ot_spans ob' ! i) = msg_span ob (ot_spans ob ! i)) \<and>
     (H = {} \<longrightarrow> ob' = ob)"

definition overwrite :: "nat set \<Rightarrow> otel_global \<Rightarrow> otel_global \<Rightarrow> bool" where
  "overwrite H g h \<longleftrightarrow> (\<exists>ob. rewritten H (ex_otlp (g_export g)) ob \<and> h = g\<lparr>g_export := (g_export g)\<lparr>ex_otlp := ob\<rparr>\<rparr>)"

lemma same_refl: "same_kv x x" "same_event e e" "same_span s s"
  by (cases x; cases "snd x"; simp add: same_kv_def) (simp_all add: same_event_def same_span_def)

lemma rewritten_refl: "rewritten H ob ob"
  by (simp add: rewritten_def list_all2_same same_refl)

lemma overwrite_none: "overwrite {} g h \<longleftrightarrow> h = g"
  using rewritten_refl[of "{}"] by (auto simp: overwrite_def rewritten_def)

lemma overwrite_refl: "overwrite H g g"
  unfolding overwrite_def by (intro exI[of _ "ex_otlp (g_export g)"]) (simp add: rewritten_refl)

subsection \<open>A rewritten batch\<close>

lemma rewrittenD:
  assumes "rewritten H ob ob'"
  shows "ot_n_spans ob' = ot_n_spans ob" "ot_num_attrs ob' = ot_num_attrs ob" "ot_num_events ob' = ot_num_events ob"
    "ot_buf ob' = ot_buf ob" "length (ot_spans ob') = length (ot_spans ob)" "length (ot_attr ob') = length (ot_attr ob)"
    "length (ot_event ob') = length (ot_event ob)"
proof -
  have ob': "ob' = ob\<lparr>ot_spans := ot_spans ob', ot_attr := ot_attr ob', ot_event := ot_event ob'\<rparr>"
    using assms by (simp add: rewritten_def)
  show "ot_n_spans ob' = ot_n_spans ob" "ot_num_attrs ob' = ot_num_attrs ob" "ot_num_events ob' = ot_num_events ob"
    "ot_buf ob' = ot_buf ob"
    by (subst ob', simp)+
  show "length (ot_spans ob') = length (ot_spans ob)" "length (ot_attr ob') = length (ot_attr ob)"
    "length (ot_event ob') = length (ot_event ob)"
    using assms by (auto simp: rewritten_def list_all2_lengthD)
qed

lemma rewritten_bounded:
  assumes r: "rewritten H ob ob'" and s: "same_span sp sp'" and b: "span_bounded ob sp"
  shows "span_bounded ob' sp'"
proof -
  have sp': "sp' = sp\<lparr>os_trace_id := os_trace_id sp', os_span_id := os_span_id sp',
       os_parent_span_id := os_parent_span_id sp', os_name := os_name sp', os_message := os_message sp'\<rparr>"
    using s by (simp add: same_span_def)
  have f: "os_attributes sp' = os_attributes sp" "os_n_attributes sp' = os_n_attributes sp"
    "os_events sp' = os_events sp" "os_n_events sp' = os_n_events sp"
    by (subst sp', simp)+
  have "list_all2 same_event (slice (ot_event ob) (os_events sp) (os_n_events sp)) (slice (ot_event ob') (os_events sp) (os_n_events sp))"
    using r by (auto simp: rewritten_def slice_def intro: list_all2_takeI list_all2_dropI)
  moreover have ev: "event_bounded ob' e'" if "same_event e e'" "event_bounded ob e" for e e'
  proof -
    have e': "e' = e\<lparr>oe_name := oe_name e'\<rparr>"
      using that(1) by (simp add: same_event_def)
    have "oe_attributes e' = oe_attributes e" "oe_n_attributes e' = oe_n_attributes e"
      by (subst e', simp)+
    then show ?thesis
      using that(2) rewrittenD(2)[OF r] by (simp add: event_bounded_def)
  qed
  moreover have "\<forall>e \<in> set ys. event_bounded ob' e" if "list_all2 same_event xs ys" "\<forall>e \<in> set xs. event_bounded ob e" for xs ys
    using that by (induction rule: list_all2_induct) (auto intro: ev)
  ultimately have "\<forall>e' \<in> set (slice (ot_event ob') (os_events sp) (os_n_events sp)). event_bounded ob' e'"
    using b by (auto simp: span_bounded_def)
  then show ?thesis
    using b f rewrittenD[OF r] by (simp add: span_bounded_def)
qed

lemma rewritten_batch:
  assumes r: "rewritten H ob ob'" and b: "batch_ok ob"
  shows "batch_ok ob'" and "length (otlp_request ob') = ot_n_spans ob" and "length (otlp_request ob) = ot_n_spans ob"
    and "i < ot_n_spans ob \<Longrightarrow> i \<notin> H \<Longrightarrow> otlp_request ob' ! i = otlp_request ob ! i"
proof -
  note d = rewrittenD[OF r]
  have n: "ot_n_spans ob \<le> length (ot_spans ob)"
    using b by (simp add: batch_ok_def)
  have "span_bounded ob' (ot_spans ob' ! i)" if i: "i < ot_n_spans ob" for i
  proof (rule rewritten_bounded[OF r])
    show "same_span (ot_spans ob ! i) (ot_spans ob' ! i)"
      using r i n by (auto simp: rewritten_def list_all2_conv_all_nth)
    have "ot_spans ob ! i \<in> set (take (ot_n_spans ob) (ot_spans ob))"
      using i n by (auto simp: in_set_conv_nth)
    then show "span_bounded ob (ot_spans ob ! i)"
      using b by (auto simp: batch_ok_def)
  qed
  then have "\<forall>sp \<in> set (take (ot_n_spans ob) (ot_spans ob')). span_bounded ob' sp"
    by (auto simp: in_set_conv_nth)
  then show "batch_ok ob'"
    using b d by (simp add: batch_ok_def)
  show "length (otlp_request ob') = ot_n_spans ob" "length (otlp_request ob) = ot_n_spans ob"
    using n d by (simp_all add: otlp_request_def)
  show "otlp_request ob' ! i = otlp_request ob ! i" if "i < ot_n_spans ob" "i \<notin> H"
    using r that n d by (simp add: otlp_request_def rewritten_def)
qed

text \<open>What is in the frames stays, and in the open batch only the spans with indexes in \<open>H\<close> change.\<close>

lemma rewritten_sent:
  assumes sent: "all_sent pack frames ex msgs" and r: "rewritten H (ex_otlp ex) ob"
  shows "\<exists>msgs'. all_sent pack frames (ex\<lparr>ex_otlp := ob\<rparr>) msgs' \<and> length msgs' = length msgs \<and>
    (\<forall>i < length msgs. (\<forall>k \<in> H. i \<noteq> length msgs - ot_n_spans (ex_otlp ex) + k) \<longrightarrow> msgs' ! i = msgs ! i)"
proof -
  obtain batches where b: "batch_ok (ex_otlp ex)" "ex_frames ex = frames @ map (frame_of pack) batches"
    "concat batches @ otlp_request (ex_otlp ex) = msgs" "\<forall>b \<in> set batches. b \<noteq> [] \<and> length b \<le> 256"
    using sent by (auto simp: all_sent_def)
  note rb = rewritten_batch[OF r b(1)]
  define msgs' where "msgs' = concat batches @ otlp_request ob"
  have "all_sent pack frames (ex\<lparr>ex_otlp := ob\<rparr>) msgs'"
    unfolding all_sent_def using b(2,4) rb(1) by (intro conjI exI[of _ batches]) (simp_all add: msgs'_def)
  moreover have len: "length msgs' = length msgs"
    using rb(2,3) by (simp add: msgs'_def del: length_concat flip: b(3))
  moreover have "msgs' ! i = msgs ! i" if i: "i < length msgs" and H: "\<forall>k \<in> H. i \<noteq> length msgs - ot_n_spans (ex_otlp ex) + k" for i
  proof (cases "i < length (concat batches)")
    case True
    then show ?thesis
      by (simp add: msgs'_def nth_append del: length_concat flip: b(3))
  next
    case False
    define k where "k = i - length (concat batches)"
    have l: "length msgs - ot_n_spans (ex_otlp ex) = length (concat batches)"
      using rb(3) by (simp del: length_concat flip: b(3))
    have ik: "i = length (concat batches) + k"
      using False by (simp add: k_def)
    then have "k < ot_n_spans (ex_otlp ex)" "k \<notin> H"
      using i H l rb(3) by (auto simp del: length_concat simp flip: b(3))
    then show ?thesis
      using rb(4)[of k] by (simp add: msgs'_def nth_append ik del: length_concat flip: b(3))
  qed
  ultimately show ?thesis by blast
qed

end
