(* ===== verification/Otel_Concurrent.thy ===== *)
theory Otel_Concurrent
  imports Otel_Borrow
begin

text \<open>
  The tracer under concurrency: any number of threads that register, start and end spans, drain
  and unregister, with the locks of \<^verbatim>\<open>oteltracing.c\<close>.  A step is one lock operation, one access to
  the registry, one visit of the drain loop, or one call on a span.  The rings are used by
  their owner while another thread drains them; the accesses inside one enqueue are split up
  in \<open>Otel_Ring_Concurrent\<close>.  A drain publishes the tail of a ring before it flushes, and the open
  batch points into the slots it has given back: a call that ends a span into such a slot
  changes what the batch shows of the span that was there (\<open>Otel_Borrow\<close>).  Any thread may switch tracing on and off, set the sampler or the ring
  capacity at any time, store by store, as these take no lock.  Transport and sink are those
  of the start.
\<close>

subsection \<open>Program points\<close>

text \<open>\<^verbatim>\<open>otel_drain\<close> and \<^verbatim>\<open>otel_thread_unregister\<close> take the same locks and drain rings the same way.\<close>

datatype job = JDrain | JUnreg

datatype call_pc =
  Outside               \<comment> \<open>in the client\<close>
| RegWant nat           \<comment> \<open>context allocated, about to take \<^verbatim>\<open>registry_lock\<close> for writing\<close>
| RegHeld nat
| RegLinked nat
| RegUnlocked nat       \<comment> \<open>lock released, about to set \<^verbatim>\<open>otel_tls\<close>\<close>
| WantDrain job         \<comment> \<open>about to take \<^verbatim>\<open>drain_lock\<close>\<close>
| WantReg job           \<comment> \<open>about to take \<^verbatim>\<open>registry_lock\<close>\<close>
| Locked job            \<comment> \<open>both held\<close>
| At job "nat option"   \<comment> \<open>at the loop head with this context pointer\<close>
| Ring job nat u64 u64  \<comment> \<open>in \<^verbatim>\<open>otel_drain_ctx\<close>: context, \<^verbatim>\<open>tail\<close>, \<^verbatim>\<open>head\<close>\<close>
| Ended job             \<comment> \<open>batch flushed, sink ended\<close>
| Skipped               \<comment> \<open>tracing was off, nothing drained\<close>
| Unlinked              \<comment> \<open>own context out of the registry\<close>
| RelDrain job          \<comment> \<open>\<^verbatim>\<open>registry_lock\<close> released\<close>
| Freeing
| EnStored              \<comment> \<open>\<^verbatim>\<open>OT.runtime_on\<close> stored, about to recompute\<close>
| EnRead bool           \<comment> \<open>about to store \<^verbatim>\<open>otel_enabled_\<close>\<close>
| SmStored otel_sampler \<comment> \<open>\<^verbatim>\<open>OT.sample_always\<close> stored, \<^verbatim>\<open>OT.sample_threshold\<close> not yet\<close>

record conc =
  co_g :: otel_global
  co_drain :: "nat option"    \<comment> \<open>owner of \<^verbatim>\<open>drain_lock\<close>\<close>
  co_writer :: "nat option"   \<comment> \<open>writer of \<^verbatim>\<open>registry_lock\<close>\<close>
  co_readers :: "nat set"     \<comment> \<open>its readers\<close>
  co_pc :: "nat \<Rightarrow> call_pc"
  co_ended :: "otel_span list"  \<comment> \<open>history: the recorded spans ended so far\<close>
  co_given :: "otel_span list"  \<comment> \<open>history: the spans given to the batch and the sink\<close>
  co_from :: "(nat \<times> nat) list" \<comment> \<open>history: the context and the slot of each given span\<close>
  co_hit :: "nat set"           \<comment> \<open>history: the given spans whose slot was written while in the open batch\<close>
  co_off :: "otel_span list"    \<comment> \<open>history: the spans freed in a ring because tracing was off\<close>
  co_live :: bool               \<comment> \<open>history: tracing has been on all the time\<close>

definition conc_start :: "otel_global \<Rightarrow> conc" where
  "conc_start g = \<lparr>co_g = g, co_drain = None, co_writer = None, co_readers = {}, co_pc = (\<lambda>_. Outside), co_ended = [],
     co_given = [], co_from = [], co_hit = {}, co_off = [], co_live = g_enabled g\<rparr>"

definition goto :: "nat \<Rightarrow> call_pc \<Rightarrow> conc \<Rightarrow> conc" where
  "goto t p c = c\<lparr>co_pc := (co_pc c)(t := p)\<rparr>"

subsection \<open>Steps\<close>

text \<open>\<^verbatim>\<open>OT.threads\<close> and \<^verbatim>\<open>ctx->next\<close>.\<close>

definition first_ctx :: "nat list \<Rightarrow> nat option" where
  "first_ctx xs = (case xs of [] \<Rightarrow> None | x # _ \<Rightarrow> Some x)"

fun next_ctx :: "nat \<Rightarrow> nat list \<Rightarrow> nat option" where
  "next_ctx a [] = None"
| "next_ctx a (x # xs) = (if x = a then first_ctx xs else next_ctx a xs)"

text \<open>The calls a thread makes on spans.\<close>

fun span_op :: "nat \<Rightarrow> tracer_op \<Rightarrow> bool" where
  "span_op t (OStart t' name kind now) \<longleftrightarrow> t' = t"
| "span_op t (OChild t' name kind p now) \<longleftrightarrow> t' = t"
| "span_op t (ORemote t' name kind tid pid b now) \<longleftrightarrow> t' = t"
| "span_op t (OEnd t' now s) \<longleftrightarrow> t' = t"
| "span_op t _ \<longleftrightarrow> False"

text \<open>The new context of a thread and its seed.\<close>

definition fresh_ctx :: "otel_random_state \<Rightarrow> u64 \<Rightarrow> otel_global \<Rightarrow> otel_thread_ctx" where
  "fresh_ctx seed now g = ctx_new (g_ring_capacity g)
     (if rs_lo seed = 0 \<and> rs_hi seed = 0 then seed\<lparr>rs_lo := (of_nat (g_next g) XOR now) OR 1\<rparr> else seed)"

text \<open>The slot of which ring a call writes, and the given spans of the open batch that point into it;
  the batch holds the last spans given, the first of them is number \<open>batch_start\<close>.\<close>

fun written_slot :: "otel_global \<Rightarrow> tracer_op \<Rightarrow> (nat \<times> nat) option" where
  "written_slot g (OEnd t now s) =
     (if \<not> otel_span_recording s then None
      else do { a \<leftarrow> g_tls g t;
                ctx \<leftarrow> g_ctx g a;
                if snd (ring_enqueue ctx (s\<lparr>sp_end_unix_ns := now\<rparr>)) then Some (a, slot_index ctx (cx_head ctx)) else None })"
| "written_slot g _ = None"

definition batch_start :: "conc \<Rightarrow> nat" where
  "batch_start c = length (co_given c) - ot_n_spans (ex_otlp (g_export (co_g c)))"

definition hits :: "conc \<Rightarrow> (nat \<times> nat) option \<Rightarrow> nat set" where
  "hits c w = {k. batch_start c \<le> k \<and> k < length (co_given c) \<and> w = Some (co_from c ! k)}"

inductive conc_step :: "(span_msg list \<Rightarrow> byte list) \<Rightarrow> nat \<Rightarrow> conc \<Rightarrow> conc \<Rightarrow> bool" for pack t c where
  on_span: "co_pc c t = Outside \<Longrightarrow> span_op t op \<Longrightarrow> client_ok (co_g c) op \<Longrightarrow> tracer_step pack (co_g c) op = Some g \<Longrightarrow>
    overwrite {i. batch_start c + i \<in> hits c (written_slot (co_g c) op)} g h \<Longrightarrow>
    conc_step pack t c (c\<lparr>co_g := h, co_ended := co_ended c @ ended_by op, co_hit := co_hit c \<union> hits c (written_slot (co_g c) op)\<rparr>)"
| reg_call: "co_pc c t = Outside \<Longrightarrow> g_tls (co_g c) t = None \<Longrightarrow>
    conc_step pack t c (goto t (RegWant (g_next (co_g c)))
      (c\<lparr>co_g := (co_g c)\<lparr>g_ctx := (g_ctx (co_g c))(g_next (co_g c) \<mapsto> fresh_ctx seed now (co_g c)), g_next := g_next (co_g c) + 1\<rparr>\<rparr>))"
| reg_lock: "co_pc c t = RegWant a \<Longrightarrow> co_writer c = None \<Longrightarrow> co_readers c = {} \<Longrightarrow>
    conc_step pack t c (goto t (RegHeld a) (c\<lparr>co_writer := Some t\<rparr>))"
| reg_link: "co_pc c t = RegHeld a \<Longrightarrow>
    conc_step pack t c (goto t (RegLinked a) (c\<lparr>co_g := (co_g c)\<lparr>g_threads := a # g_threads (co_g c)\<rparr>\<rparr>))"
| reg_unlock: "co_pc c t = RegLinked a \<Longrightarrow>
    conc_step pack t c (goto t (RegUnlocked a) (c\<lparr>co_writer := None\<rparr>))"
| reg_tls: "co_pc c t = RegUnlocked a \<Longrightarrow>
    conc_step pack t c (goto t Outside (c\<lparr>co_g := (co_g c)\<lparr>g_tls := (g_tls (co_g c))(t \<mapsto> a)\<rparr>\<rparr>))"
| drain_call: "co_pc c t = Outside \<Longrightarrow> g_enabled (co_g c) \<Longrightarrow>
    conc_step pack t c (goto t (WantDrain JDrain) c)"
| unreg_call: "co_pc c t = Outside \<Longrightarrow> g_tls (co_g c) t \<noteq> None \<Longrightarrow>
    conc_step pack t c (goto t (WantDrain JUnreg) c)"
| lock_drain: "co_pc c t = WantDrain j \<Longrightarrow> co_drain c = None \<Longrightarrow>
    conc_step pack t c (goto t (WantReg j) (c\<lparr>co_drain := Some t\<rparr>))"
| lock_read: "co_pc c t = WantReg JDrain \<Longrightarrow> co_writer c = None \<Longrightarrow>
    conc_step pack t c (goto t (Locked JDrain) (c\<lparr>co_readers := insert t (co_readers c)\<rparr>))"
| lock_write: "co_pc c t = WantReg JUnreg \<Longrightarrow> co_writer c = None \<Longrightarrow> co_readers c = {} \<Longrightarrow>
    conc_step pack t c (goto t (Locked JUnreg) (c\<lparr>co_writer := Some t\<rparr>))"
| begin_drain: "co_pc c t = Locked JDrain \<Longrightarrow>
    conc_step pack t c (goto t (At JDrain (first_ctx (g_threads (co_g c)))) (c\<lparr>co_g := sink_begin (co_g c)\<rparr>))"
| begin_unreg: "co_pc c t = Locked JUnreg \<Longrightarrow> g_enabled (co_g c) \<Longrightarrow>
    conc_step pack t c (goto t (At JUnreg (g_tls (co_g c) t)) (c\<lparr>co_g := sink_begin (co_g c)\<rparr>))"
| begin_off: "co_pc c t = Locked JUnreg \<Longrightarrow> \<not> g_enabled (co_g c) \<Longrightarrow>
    conc_step pack t c (goto t Skipped c)"
| load: "co_pc c t = At j (Some a) \<Longrightarrow> g_ctx (co_g c) a = Some ctx \<Longrightarrow>
    conc_step pack t c (goto t (Ring j a (cx_tail ctx) (cx_head ctx)) c)"
| emit: "co_pc c t = Ring j a tail head \<Longrightarrow> tail \<noteq> head \<Longrightarrow> g_ctx (co_g c) a = Some ctx \<Longrightarrow>
    otel_emit_span pack (cx_ring ctx ! slot_index ctx tail) (co_g c) = Some h \<Longrightarrow>
    conc_step pack t c (goto t (Ring j a (tail + 1) head)
      (c\<lparr>co_g := h, co_given := co_given c @ [cx_ring ctx ! slot_index ctx tail], co_from := co_from c @ [(a, slot_index ctx tail)]\<rparr>))"
| publish: "co_pc c t = Ring j a head head \<Longrightarrow> g_ctx (co_g c) a = Some ctx \<Longrightarrow>
    conc_step pack t c (goto t (At j (case j of JDrain \<Rightarrow> next_ctx a (g_threads (co_g c)) | JUnreg \<Rightarrow> None))
      (c\<lparr>co_g := (co_g c)\<lparr>g_ctx := (g_ctx (co_g c))(a \<mapsto> ctx\<lparr>cx_tail := head\<rparr>)\<rparr>\<rparr>))"
| finish: "co_pc c t = At j None \<Longrightarrow> otlp_flush_g pack (co_g c) = Some h \<Longrightarrow>
    conc_step pack t c (goto t (Ended j) (c\<lparr>co_g := sink_end h\<rparr>))"
| unlink: "co_pc c t = Ended JUnreg \<Longrightarrow> g_tls (co_g c) t = Some a \<Longrightarrow>
    conc_step pack t c (goto t Unlinked (c\<lparr>co_g := (co_g c)\<lparr>g_threads := remove1 a (g_threads (co_g c))\<rparr>\<rparr>))"
| unlink_off: "co_pc c t = Skipped \<Longrightarrow> g_tls (co_g c) t = Some a \<Longrightarrow>
    conc_step pack t c (goto t Unlinked
      (c\<lparr>co_g := (co_g c)\<lparr>g_threads := remove1 a (g_threads (co_g c))\<rparr>, co_off := co_off c @ queued (co_g c) a\<rparr>))"
| unlock_write: "co_pc c t = Unlinked \<Longrightarrow>
    conc_step pack t c (goto t (RelDrain JUnreg) (c\<lparr>co_writer := None\<rparr>))"
| unlock_read: "co_pc c t = Ended JDrain \<Longrightarrow>
    conc_step pack t c (goto t (RelDrain JDrain) (c\<lparr>co_readers := co_readers c - {t}\<rparr>))"
| unlock_drain: "co_pc c t = RelDrain j \<Longrightarrow>
    conc_step pack t c (goto t (case j of JDrain \<Rightarrow> Outside | JUnreg \<Rightarrow> Freeing) (c\<lparr>co_drain := None\<rparr>))"
| free: "co_pc c t = Freeing \<Longrightarrow> g_tls (co_g c) t = Some a \<Longrightarrow>
    conc_step pack t c (goto t Outside (c\<lparr>co_g := (co_g c)\<lparr>g_ctx := (g_ctx (co_g c))(a := None), g_tls := (g_tls (co_g c))(t := None)\<rparr>\<rparr>))"
| enable_call: "co_pc c t = Outside \<Longrightarrow>
    conc_step pack t c (goto t EnStored (c\<lparr>co_g := (co_g c)\<lparr>g_runtime_on := b\<rparr>\<rparr>))"
| enable_read: "co_pc c t = EnStored \<Longrightarrow>
    conc_step pack t c (goto t (EnRead (g_enabled (otel_recompute_enabled (co_g c)))) c)"
| enable_store: "co_pc c t = EnRead b \<Longrightarrow>
    conc_step pack t c (goto t Outside (c\<lparr>co_g := (co_g c)\<lparr>g_enabled := b\<rparr>, co_live := co_live c \<and> b\<rparr>))"
| sampler_call: "co_pc c t = Outside \<Longrightarrow> otel_set_sampler x = Some sm \<Longrightarrow>
    conc_step pack t c (goto t (SmStored sm)
      (c\<lparr>co_g := (co_g c)\<lparr>g_sampler := (g_sampler (co_g c))\<lparr>sample_always := sample_always sm\<rparr>\<rparr>\<rparr>))"
| sampler_store: "co_pc c t = SmStored sm \<Longrightarrow>
    conc_step pack t c (goto t Outside
      (c\<lparr>co_g := (co_g c)\<lparr>g_sampler := (g_sampler (co_g c))\<lparr>sample_threshold := sample_threshold sm\<rparr>\<rparr>\<rparr>))"
| capacity_call: "co_pc c t = Outside \<Longrightarrow> unat n \<le> 2 ^ 31 \<Longrightarrow> otel_set_ring_capacity n = Some cap \<Longrightarrow>
    conc_step pack t c (c\<lparr>co_g := (co_g c)\<lparr>g_ring_capacity := cap\<rparr>\<rparr>)"

inductive_cases conc_stepE: "conc_step pack t c c'"

lemmas conc_step_cases = conc_stepE [consumes 1, case_names on_span reg_call reg_lock reg_link reg_unlock reg_tls
  drain_call unreg_call lock_drain lock_read lock_write begin_drain begin_unreg begin_off load emit publish finish
  unlink unlink_off unlock_write unlock_read unlock_drain free enable_call enable_read enable_store sampler_call
  sampler_store capacity_call]

definition conc_reachable :: "(span_msg list \<Rightarrow> byte list) \<Rightarrow> otel_global \<Rightarrow> conc \<Rightarrow> bool" where
  "conc_reachable pack g c \<longleftrightarrow> (\<lambda>c c'. \<exists>t. conc_step pack t c c')\<^sup>*\<^sup>* (conc_start g) c"

lemma goto_simps [simp]:
  "co_g (goto t p c) = co_g c" "co_drain (goto t p c) = co_drain c" "co_writer (goto t p c) = co_writer c"
  "co_readers (goto t p c) = co_readers c" "co_pc (goto t p c) = (co_pc c)(t := p)" "co_ended (goto t p c) = co_ended c"
  "co_given (goto t p c) = co_given c" "co_from (goto t p c) = co_from c" "co_hit (goto t p c) = co_hit c" "co_off (goto t p c) = co_off c" "co_live (goto t p c) = co_live c"
  by (simp_all add: goto_def)

end
