(* ===== verification/Otel_Concurrent_Props.thy ===== *)
theory Otel_Concurrent_Props
  imports Otel_Concurrent
begin

text \<open>
  Invariants of the concurrent tracer: which thread holds which lock, which contexts are live and
  whose they are, where a draining thread stands, and the balance of spans.
\<close>

subsection \<open>Locks\<close>

fun in_drain :: "call_pc \<Rightarrow> bool" where
  "in_drain (WantReg j) = True" | "in_drain (Locked j) = True" | "in_drain (At j x) = True"
| "in_drain (Ring j a tail head) = True" | "in_drain (Ended j) = True" | "in_drain Unlinked = True"
| "in_drain (RelDrain j) = True" | "in_drain Skipped = True" | "in_drain _ = False"

fun in_write :: "call_pc \<Rightarrow> bool" where
  "in_write (RegHeld a) = True" | "in_write (RegLinked a) = True" | "in_write (Locked j) = (j = JUnreg)"
| "in_write (At j x) = (j = JUnreg)" | "in_write (Ring j a tail head) = (j = JUnreg)"
| "in_write (Ended j) = (j = JUnreg)" | "in_write Unlinked = True" | "in_write Skipped = True" | "in_write _ = False"

fun in_read :: "call_pc \<Rightarrow> bool" where
  "in_read (Locked j) = (j = JDrain)" | "in_read (At j x) = (j = JDrain)" | "in_read (Ring j a tail head) = (j = JDrain)"
| "in_read (Ended j) = (j = JDrain)" | "in_read _ = False"

definition lock_inv :: "conc \<Rightarrow> bool" where
  "lock_inv c \<longleftrightarrow> (\<forall>t. co_drain c = Some t \<longleftrightarrow> in_drain (co_pc c t)) \<and> (\<forall>t. co_writer c = Some t \<longleftrightarrow> in_write (co_pc c t)) \<and>
     (\<forall>t. t \<in> co_readers c \<longleftrightarrow> in_read (co_pc c t)) \<and> (co_writer c \<noteq> None \<longrightarrow> co_readers c = {})"

lemma in_read_drain: "in_read p \<Longrightarrow> in_drain p"
  by (cases p) auto

lemma lock_inv_start: "lock_inv (conc_start g)"
  by (simp add: lock_inv_def conc_start_def)

lemma job_cases: "j = JDrain \<or> j = JUnreg"
  by (cases j) auto

text \<open>A step of thread \<open>t\<close> changes its own program point only.\<close>

lemma step_pc: "conc_step pack t c c' \<Longrightarrow> t' \<noteq> t \<Longrightarrow> co_pc c' t' = co_pc c t'"
  by (cases rule: conc_step_cases, assumption) simp_all

text \<open>What a step does to the locks.\<close>

lemma lock_inv_take:
  assumes "lock_inv c"
  shows "co_drain c = None \<Longrightarrow> co_pc c t = WantDrain j \<Longrightarrow> lock_inv (goto t (WantReg j) (c\<lparr>co_drain := Some t\<rparr>))"
    and "co_writer c = None \<Longrightarrow> co_readers c = {} \<Longrightarrow> co_pc c t = RegWant a \<Longrightarrow> lock_inv (goto t (RegHeld a) (c\<lparr>co_writer := Some t\<rparr>))"
    and "co_writer c = None \<Longrightarrow> co_readers c = {} \<Longrightarrow> co_pc c t = WantReg JUnreg \<Longrightarrow> lock_inv (goto t (Locked JUnreg) (c\<lparr>co_writer := Some t\<rparr>))"
    and "co_writer c = None \<Longrightarrow> co_pc c t = WantReg JDrain \<Longrightarrow>
      lock_inv (goto t (Locked JDrain) (c\<lparr>co_readers := insert t (co_readers c)\<rparr>))"
  using assms unfolding lock_inv_def by auto

lemma lock_inv_release:
  assumes "lock_inv c"
  shows "co_pc c t = RelDrain j \<Longrightarrow> \<not> in_drain p \<Longrightarrow> \<not> in_write p \<Longrightarrow> \<not> in_read p \<Longrightarrow> lock_inv (goto t p (c\<lparr>co_drain := None\<rparr>))"
    and "co_pc c t = RegLinked a \<Longrightarrow> lock_inv (goto t (RegUnlocked a) (c\<lparr>co_writer := None\<rparr>))"
    and "co_pc c t = Unlinked \<Longrightarrow> lock_inv (goto t (RelDrain JUnreg) (c\<lparr>co_writer := None\<rparr>))"
    and "co_pc c t = Ended JDrain \<Longrightarrow> lock_inv (goto t (RelDrain JDrain) (c\<lparr>co_readers := co_readers c - {t}\<rparr>))"
proof -
  have d: "\<And>t'. in_drain (co_pc c t') \<Longrightarrow> co_drain c = Some t'" and w: "\<And>t'. in_write (co_pc c t') \<Longrightarrow> co_writer c = Some t'"
    using assms by (auto simp: lock_inv_def)
  show "co_pc c t = RelDrain j \<Longrightarrow> \<not> in_drain p \<Longrightarrow> \<not> in_write p \<Longrightarrow> \<not> in_read p \<Longrightarrow> lock_inv (goto t p (c\<lparr>co_drain := None\<rparr>))"
    using assms d[of t] unfolding lock_inv_def by auto
  show "co_pc c t = RegLinked a \<Longrightarrow> lock_inv (goto t (RegUnlocked a) (c\<lparr>co_writer := None\<rparr>))"
    and "co_pc c t = Unlinked \<Longrightarrow> lock_inv (goto t (RelDrain JUnreg) (c\<lparr>co_writer := None\<rparr>))"
    and "co_pc c t = Ended JDrain \<Longrightarrow> lock_inv (goto t (RelDrain JDrain) (c\<lparr>co_readers := co_readers c - {t}\<rparr>))"
    using assms w[of t] unfolding lock_inv_def by auto
qed

lemma lock_inv_same:
  assumes "lock_inv c" and "in_drain p = in_drain (co_pc c t)" and "in_write p = in_write (co_pc c t)"
    and "in_read p = in_read (co_pc c t)"
  shows "lock_inv (goto t p (c\<lparr>co_g := g\<rparr>))" and "lock_inv (goto t p (c\<lparr>co_g := g, co_given := ss, co_from := rs\<rparr>))"
    and "lock_inv (goto t p (c\<lparr>co_g := g, co_off := ss\<rparr>))" and "lock_inv (goto t p (c\<lparr>co_g := g, co_live := l\<rparr>))"
    and "lock_inv (goto t p c)"
  using assms unfolding lock_inv_def by auto

lemma lock_inv_step:
  assumes "conc_step pack t c c'" and "lock_inv c"
  shows "lock_inv c'"
  using assms(1)
proof (cases rule: conc_step_cases)
  case (on_span op g h)
  then show ?thesis
    using assms(2) by (simp add: lock_inv_def)
next
  case (capacity_call n cap)
  then show ?thesis
    using assms(2) by (simp add: lock_inv_def)
next
  case (unlock_drain j)
  then show ?thesis
    using assms(2) lock_inv_release(1) by (cases j) simp_all
qed (use assms(2) in \<open>auto intro: lock_inv_take lock_inv_release lock_inv_same\<close>)

subsection \<open>Contexts\<close>

definition live_ctx :: "otel_global \<Rightarrow> nat \<Rightarrow> bool" where
  "live_ctx g a \<longleftrightarrow> (\<exists>ctx. g_ctx g a = Some ctx \<and> ctx_wf ctx)"

fun reg_ctx :: "call_pc \<Rightarrow> nat option" where
  "reg_ctx (RegWant a) = Some a" | "reg_ctx (RegHeld a) = Some a" | "reg_ctx (RegLinked a) = Some a"
| "reg_ctx (RegUnlocked a) = Some a" | "reg_ctx _ = None"

text \<open>The context that is thread \<open>t\<close>'s own, also while it is being registered.\<close>

definition ctx_own :: "otel_global \<Rightarrow> (nat \<Rightarrow> call_pc) \<Rightarrow> nat \<Rightarrow> nat option" where
  "ctx_own g pc t = (case reg_ctx (pc t) of Some a \<Rightarrow> Some a | None \<Rightarrow> g_tls g t)"

fun unlisted :: "call_pc \<Rightarrow> bool" where
  "unlisted (RegWant a) = True" | "unlisted (RegHeld a) = True" | "unlisted Unlinked = True"
| "unlisted (RelDrain j) = (j = JUnreg)" | "unlisted Freeing = True" | "unlisted _ = False"

fun leaving :: "call_pc \<Rightarrow> bool" where
  "leaving (WantDrain j) = (j = JUnreg)" | "leaving (WantReg j) = (j = JUnreg)" | "leaving (Locked j) = (j = JUnreg)"
| "leaving (At j x) = (j = JUnreg)" | "leaving (Ring j a tail head) = (j = JUnreg)" | "leaving (Ended j) = (j = JUnreg)"
| "leaving Unlinked = True" | "leaving Skipped = True" | "leaving (RelDrain j) = (j = JUnreg)" | "leaving Freeing = True" | "leaving _ = False"

definition ctx_inv :: "otel_global \<Rightarrow> (nat \<Rightarrow> call_pc) \<Rightarrow> bool" where
  "ctx_inv g pc \<longleftrightarrow> distinct (g_threads g) \<and> (\<forall>a \<in> set (g_threads g). a < g_next g \<and> live_ctx g a) \<and>
     (\<forall>t a. ctx_own g pc t = Some a \<longrightarrow> a < g_next g \<and> live_ctx g a \<and> (a \<in> set (g_threads g) \<longleftrightarrow> \<not> unlisted (pc t))) \<and>
     (\<forall>t t' a. ctx_own g pc t = Some a \<and> ctx_own g pc t' = Some a \<longrightarrow> t = t') \<and>
     (\<forall>t. reg_ctx (pc t) \<noteq> None \<longrightarrow> g_tls g t = None) \<and> (\<forall>t. leaving (pc t) \<longrightarrow> g_tls g t \<noteq> None)"

lemma ctx_invD:
  assumes "ctx_inv g pc"
  shows "distinct (g_threads g)" "a \<in> set (g_threads g) \<Longrightarrow> a < g_next g" "a \<in> set (g_threads g) \<Longrightarrow> live_ctx g a"
    "ctx_own g pc t = Some a \<Longrightarrow> a < g_next g" "ctx_own g pc t = Some a \<Longrightarrow> live_ctx g a"
    "ctx_own g pc t = Some a \<Longrightarrow> a \<in> set (g_threads g) \<longleftrightarrow> \<not> unlisted (pc t)"
    "ctx_own g pc t = Some a \<Longrightarrow> ctx_own g pc t' = Some a \<Longrightarrow> t = t'"
    "reg_ctx (pc t) \<noteq> None \<Longrightarrow> g_tls g t = None" "leaving (pc t) \<Longrightarrow> g_tls g t \<noteq> None"
  using assms unfolding ctx_inv_def by blast+

lemma own_tls: "reg_ctx (pc t) = None \<Longrightarrow> ctx_own g pc t = g_tls g t"
  by (simp add: ctx_own_def)

lemma own_reg: "reg_ctx (pc t) = Some a \<Longrightarrow> ctx_own g pc t = Some a"
  by (simp add: ctx_own_def)

text \<open>Switching tracing, sampling and the capacity of new rings has no effect on contexts.\<close>

lemma live_ctx_config [simp]:
  "live_ctx (g\<lparr>g_enabled := b\<rparr>) = live_ctx g" "live_ctx (g\<lparr>g_runtime_on := b\<rparr>) = live_ctx g"
  "live_ctx (g\<lparr>g_sampler := sm\<rparr>) = live_ctx g" "live_ctx (g\<lparr>g_ring_capacity := n\<rparr>) = live_ctx g"
  by (simp_all add: live_ctx_def fun_eq_iff)

lemma ctx_own_config [simp]:
  "ctx_own (g\<lparr>g_enabled := b\<rparr>) = ctx_own g" "ctx_own (g\<lparr>g_runtime_on := b\<rparr>) = ctx_own g"
  "ctx_own (g\<lparr>g_sampler := sm\<rparr>) = ctx_own g" "ctx_own (g\<lparr>g_ring_capacity := n\<rparr>) = ctx_own g"
  by (simp_all add: ctx_own_def fun_eq_iff split: option.split)

lemma ctx_inv_config [simp]:
  "ctx_inv (g\<lparr>g_enabled := b\<rparr>) = ctx_inv g" "ctx_inv (g\<lparr>g_runtime_on := b\<rparr>) = ctx_inv g"
  "ctx_inv (g\<lparr>g_sampler := sm\<rparr>) = ctx_inv g" "ctx_inv (g\<lparr>g_ring_capacity := n\<rparr>) = ctx_inv g"
  by (simp_all add: ctx_inv_def fun_eq_iff)

lemma ctx_inv_live:
  assumes "ctx_inv g pc" and "g_threads g' = g_threads g" and "g_tls g' = g_tls g" and "g_next g' = g_next g"
    and "\<And>a. live_ctx g a \<Longrightarrow> live_ctx g' a"
  shows "ctx_inv g' pc"
proof -
  have "ctx_own g' pc = ctx_own g pc"
    by (simp add: ctx_own_def fun_eq_iff assms(3) split: option.split)
  then show ?thesis
    using assms unfolding ctx_inv_def by simp
qed

lemma ctx_inv_pc:
  assumes "ctx_inv g pc" and "reg_ctx p = reg_ctx (pc t)" and "unlisted p = unlisted (pc t)" and "leaving p \<Longrightarrow> g_tls g t \<noteq> None"
  shows "ctx_inv g (pc(t := p))"
proof -
  have "ctx_own g (pc(t := p)) = ctx_own g pc"
    using assms(2) by (auto simp: ctx_own_def fun_eq_iff split: option.split)
  moreover have "unlisted ((pc(t := p)) t') = unlisted (pc t')" "reg_ctx ((pc(t := p)) t') = reg_ctx (pc t')" for t'
    using assms(2,3) by auto
  moreover have "leaving ((pc(t := p)) t') \<Longrightarrow> g_tls g t' \<noteq> None" for t'
    using assms(4) ctx_invD(9)[OF assms(1), of t'] by (cases "t' = t") auto
  ultimately show ?thesis
    using assms(1) unfolding ctx_inv_def by simp
qed

lemma live_upd: "live_ctx g a \<Longrightarrow> ctx_wf ctx \<Longrightarrow> live_ctx (g\<lparr>g_ctx := (g_ctx g)(b \<mapsto> ctx)\<rparr>) a"
  by (simp add: live_ctx_def)

subsection \<open>Registering and leaving\<close>

lemma ctx_inv_reg_call:
  assumes inv: "ctx_inv g pc" and t: "pc t = Outside" "g_tls g t = None" and ctx: "ctx_wf ctx"
  shows "ctx_inv (g\<lparr>g_ctx := (g_ctx g)(g_next g \<mapsto> ctx), g_next := g_next g + 1\<rparr>) (pc(t := RegWant (g_next g)))"
    (is "ctx_inv ?g ?pc")
proof -
  note d = ctx_invD[OF inv]
  have live: "live_ctx ?g a" if "live_ctx g a" for a
    using that ctx by (simp add: live_ctx_def)
  have new: "live_ctx ?g (g_next g)"
    using ctx by (simp add: live_ctx_def)
  have own: "ctx_own ?g ?pc t' = (if t' = t then Some (g_next g) else ctx_own g pc t')" for t'
    by (simp add: ctx_own_def split: option.split)
  have old: "ctx_own g pc t' \<noteq> Some (g_next g)" for t'
    using d(4)[of t' "g_next g"] by auto
  have fresh: "g_next g \<notin> set (g_threads g)"
    using d(2) by blast
  show ?thesis
    unfolding ctx_inv_def own
  proof (intro conjI allI ballI impI)
    show "distinct (g_threads ?g)" using d(1) by simp
  next
    fix a assume "a \<in> set (g_threads ?g)"
    then show "a < g_next ?g" "live_ctx ?g a"
      using d(2,3) live by (auto simp: less_Suc_eq)
  next
    fix t' a assume "(if t' = t then Some (g_next g) else ctx_own g pc t') = Some a"
    then show "a < g_next ?g" "live_ctx ?g a" "(a \<in> set (g_threads ?g)) = (\<not> unlisted (?pc t'))"
      using d(4,5,6)[of t' a] live new fresh by (auto split: if_splits simp: less_Suc_eq)
  next
    fix t' t'' a
    assume "(if t' = t then Some (g_next g) else ctx_own g pc t') = Some a \<and> (if t'' = t then Some (g_next g) else ctx_own g pc t'') = Some a"
    then show "t' = t''"
      using old[of t'] old[of t''] d(7)[of t' a t''] by (auto split: if_splits)
  next
    fix t' assume "reg_ctx (?pc t') \<noteq> None"
    then show "g_tls ?g t' = None"
      using d(8)[of t'] t by (auto split: if_splits)
  next
    fix t' assume "leaving (?pc t')"
    then show "g_tls ?g t' \<noteq> None"
      using d(9)[of t'] by (auto split: if_splits)
  qed
qed

lemma ctx_inv_link:
  assumes inv: "ctx_inv g pc" and t: "pc t = RegHeld a"
  shows "ctx_inv (g\<lparr>g_threads := a # g_threads g\<rparr>) (pc(t := RegLinked a))" (is "ctx_inv ?g ?pc")
proof -
  note d = ctx_invD[OF inv]
  have own: "ctx_own ?g ?pc = ctx_own g pc"
    using t by (auto simp: ctx_own_def fun_eq_iff split: option.split)
  have a: "ctx_own g pc t = Some a"
    using t by (simp add: ctx_own_def)
  have live: "live_ctx ?g = live_ctx g"
    by (simp add: live_ctx_def fun_eq_iff)
  have na: "a \<notin> set (g_threads g)"
    using d(6)[OF a] t by simp
  have other: "b \<noteq> a" if "ctx_own g pc t' = Some b" "t' \<noteq> t" for t' b
    using d(7)[OF a] that by blast
  show ?thesis
    unfolding ctx_inv_def own live
  proof (intro conjI allI ballI impI)
    show "distinct (g_threads ?g)" using d(1) na by simp
  next
    fix b assume "b \<in> set (g_threads ?g)"
    then show "b < g_next ?g" "live_ctx g b"
      using d(2,3) d(4,5)[OF a] by auto
  next
    fix t' b assume o: "ctx_own g pc t' = Some b"
    show "b < g_next ?g" "live_ctx g b"
      using d(4,5)[OF o] by simp_all
    show "(b \<in> set (g_threads ?g)) = (\<not> unlisted (?pc t'))"
      using d(6)[OF o] o a other[of t' b] by (cases "t' = t") auto
  next
    fix t' t'' b assume "ctx_own g pc t' = Some b \<and> ctx_own g pc t'' = Some b"
    then show "t' = t''" using d(7) by blast
  next
    fix t' assume "reg_ctx (?pc t') \<noteq> None"
    then show "g_tls ?g t' = None"
      using d(8)[of t'] t by (auto split: if_splits)
  next
    fix t' assume "leaving (?pc t')"
    then show "g_tls ?g t' \<noteq> None"
      using d(9)[of t'] by (auto split: if_splits)
  qed
qed

lemma ctx_inv_tls:
  assumes inv: "ctx_inv g pc" and t: "pc t = RegUnlocked a"
  shows "ctx_inv (g\<lparr>g_tls := (g_tls g)(t \<mapsto> a)\<rparr>) (pc(t := Outside))" (is "ctx_inv ?g ?pc")
proof -
  have own: "ctx_own ?g ?pc = ctx_own g pc"
    using t by (auto simp: ctx_own_def fun_eq_iff split: option.split)
  have live: "live_ctx ?g = live_ctx g"
    by (simp add: live_ctx_def fun_eq_iff)
  show ?thesis
    using inv t unfolding ctx_inv_def own live by auto
qed

lemma ctx_inv_unlink:
  assumes inv: "ctx_inv g pc" and t: "pc t = Ended JUnreg \<or> pc t = Skipped" "g_tls g t = Some a"
  shows "ctx_inv (g\<lparr>g_threads := remove1 a (g_threads g)\<rparr>) (pc(t := Unlinked))" (is "ctx_inv ?g ?pc")
proof -
  note d = ctx_invD[OF inv]
  have own: "ctx_own ?g ?pc = ctx_own g pc"
    using t by (auto simp: ctx_own_def fun_eq_iff split: option.split)
  have a: "ctx_own g pc t = Some a"
    using t by (auto simp: ctx_own_def)
  have live: "live_ctx ?g = live_ctx g"
    by (simp add: live_ctx_def fun_eq_iff)
  have s: "set (remove1 a (g_threads g)) = set (g_threads g) - {a}"
    using d(1) by simp
  have other: "b \<noteq> a" if "ctx_own g pc t' = Some b" "t' \<noteq> t" for t' b
    using d(7)[OF a] that by blast
  show ?thesis
    unfolding ctx_inv_def own live
  proof (intro conjI allI ballI impI)
    show "distinct (g_threads ?g)" using d(1) by (simp add: distinct_remove1)
  next
    fix b assume "b \<in> set (g_threads ?g)"
    then show "b < g_next ?g" "live_ctx g b"
      using d(2,3) s by auto
  next
    fix t' b assume o: "ctx_own g pc t' = Some b"
    show "b < g_next ?g" "live_ctx g b"
      using d(4,5)[OF o] by simp_all
    show "(b \<in> set (g_threads ?g)) = (\<not> unlisted (?pc t'))"
      using d(6)[OF o] o a other[of t' b] s by (cases "t' = t") auto
  next
    fix t' t'' b assume "ctx_own g pc t' = Some b \<and> ctx_own g pc t'' = Some b"
    then show "t' = t''" using d(7) by blast
  next
    fix t' assume "reg_ctx (?pc t') \<noteq> None"
    then show "g_tls ?g t' = None"
      using d(8)[of t'] by (auto split: if_splits)
  next
    fix t' assume "leaving (?pc t')"
    then show "g_tls ?g t' \<noteq> None"
      using d(9)[of t'] t by (auto split: if_splits)
  qed
qed

lemma ctx_inv_free:
  assumes inv: "ctx_inv g pc" and t: "pc t = Freeing" "g_tls g t = Some a"
  shows "ctx_inv (g\<lparr>g_ctx := (g_ctx g)(a := None), g_tls := (g_tls g)(t := None)\<rparr>) (pc(t := Outside))" (is "ctx_inv ?g ?pc")
proof -
  note d = ctx_invD[OF inv]
  have own: "ctx_own ?g ?pc t' = (if t' = t then None else ctx_own g pc t')" for t'
    using t by (simp add: ctx_own_def split: option.split)
  have a: "ctx_own g pc t = Some a"
    using t by (simp add: ctx_own_def)
  have na: "a \<notin> set (g_threads g)"
    using d(6)[OF a] t by simp
  have live: "live_ctx ?g b" if "live_ctx g b" "b \<noteq> a" for b
    using that by (simp add: live_ctx_def)
  have other: "b \<noteq> a" if "ctx_own g pc t' = Some b" "t' \<noteq> t" for t' b
    using d(7)[OF a] that by blast
  show ?thesis
    unfolding ctx_inv_def own
  proof (intro conjI allI ballI impI)
    show "distinct (g_threads ?g)" using d(1) by simp
  next
    fix b assume "b \<in> set (g_threads ?g)"
    then show "b < g_next ?g" "live_ctx ?g b"
      using d(2,3) na live by auto
  next
    fix t' b assume o: "(if t' = t then None else ctx_own g pc t') = Some b"
    then show "b < g_next ?g" "live_ctx ?g b" "(b \<in> set (g_threads ?g)) = (\<not> unlisted (?pc t'))"
      using d(4,5,6)[of t' b] other[of t' b] live by (auto split: if_splits)
  next
    fix t' t'' b
    assume "(if t' = t then None else ctx_own g pc t') = Some b \<and> (if t'' = t then None else ctx_own g pc t'') = Some b"
    then show "t' = t''" using d(7)[of t' b t''] by (auto split: if_splits)
  next
    fix t' assume "reg_ctx (?pc t') \<noteq> None"
    then show "g_tls ?g t' = None"
      using d(8)[of t'] by (auto split: if_splits)
  next
    fix t' assume "leaving (?pc t')"
    then show "g_tls ?g t' \<noteq> None"
      using d(9)[of t'] by (auto split: if_splits)
  qed
qed

end
