(* ===== verification/Otel_Concurrent_Walk.thy ===== *)
theory Otel_Concurrent_Walk
  imports Otel_Concurrent_Props
begin

text \<open>
  A ring that grows at the head while a drain walks it from the tail: what a call on a span does
  to its thread's ring, and what the walk may rely on meanwhile.
\<close>

subsection \<open>Cursors inside a ring\<close>

lemma length_ring_contents: "length (ring_contents ctx) = unat (cx_head ctx - cx_tail ctx)"
  by (simp add: ring_contents_def ring_window_def)

lemma window_drop:
  assumes "m - t \<le> h - t"
  shows "ring_window ctx m h = drop (unat (m - t)) (ring_window ctx t h)"
proof -
  have "h - m = (h - t) - (m - t)"
    by simp
  then have n: "unat (h - m) = unat (h - t) - unat (m - t)"
    using assms by (metis unat_sub)
  show ?thesis
  proof (rule nth_equalityI)
    show "length (ring_window ctx m h) = length (drop (unat (m - t)) (ring_window ctx t h))"
      by (simp add: ring_window_def n)
  next
    fix i assume "i < length (ring_window ctx m h)"
    then have "i < unat (h - m)" "unat (m - t) + i < unat (h - t)"
      using n by (simp_all add: ring_window_def)
    moreover have "m + of_nat i = t + of_nat (unat (m - t) + i)"
      by (simp add: algebra_simps)
    ultimately show "ring_window ctx m h ! i = drop (unat (m - t)) (ring_window ctx t h) ! i"
      by (simp add: ring_window_def)
  qed
qed

text \<open>The cursor \<open>m\<close> and the end \<open>h\<close> of a walk lie between the ring's two cursors.\<close>

definition inside :: "otel_thread_ctx \<Rightarrow> u64 \<Rightarrow> u64 \<Rightarrow> bool" where
  "inside ctx m h \<longleftrightarrow> m - cx_tail ctx \<le> h - cx_tail ctx \<and> h - cx_tail ctx \<le> cx_head ctx - cx_tail ctx"

definition rest_from :: "otel_thread_ctx \<Rightarrow> u64 \<Rightarrow> otel_span list" where
  "rest_from ctx m = ring_window ctx m (cx_head ctx)"

lemma rest_drop: "inside ctx m h \<Longrightarrow> rest_from ctx m = drop (unat (m - cx_tail ctx)) (ring_contents ctx)"
  unfolding rest_from_def ring_contents_def inside_def by (rule window_drop) (blast intro: order_trans)

lemma inside_load: "inside ctx (cx_tail ctx) (cx_head ctx)" "rest_from ctx (cx_tail ctx) = ring_contents ctx"
  by (simp_all add: inside_def rest_from_def ring_contents_def)

lemma inside_next:
  assumes "inside ctx m h" and "m \<noteq> h"
  shows "inside ctx (m + 1) h" and "rest_from ctx m = (cx_ring ctx ! slot_index ctx m) # rest_from ctx (m + 1)"
    and "cx_ring ctx ! slot_index ctx m \<in> set (ring_contents ctx)"
proof -
  have "m - cx_tail ctx < h - cx_tail ctx"
    using assms by (auto simp: inside_def order.strict_iff_order)
  then have lt: "m - cx_tail ctx < h - cx_tail ctx" "m - cx_tail ctx + 1 \<le> h - cx_tail ctx"
    by (simp_all add: inc_le)
  then show i: "inside ctx (m + 1) h"
    using assms(1) by (simp add: inside_def algebra_simps)
  have "m \<noteq> cx_head ctx"
    using lt(1) assms(1) by (auto simp: inside_def)
  then show r: "rest_from ctx m = (cx_ring ctx ! slot_index ctx m) # rest_from ctx (m + 1)"
    unfolding rest_from_def by (rule ring_window_Cons)
  show "cx_ring ctx ! slot_index ctx m \<in> set (ring_contents ctx)"
    using r rest_drop[OF assms(1)] in_set_dropD[of "cx_ring ctx ! slot_index ctx m" "unat (m - cx_tail ctx)"] by force
qed

lemma publish_contents: "ring_contents (ctx\<lparr>cx_tail := m\<rparr>) = rest_from ctx m"
  by (simp add: ring_contents_def rest_from_def ring_window_def slot_index_def)

lemma publish_wf:
  assumes "ctx_wf ctx" and "inside ctx m h"
  shows "ctx_wf (ctx\<lparr>cx_tail := m\<rparr>)"
proof -
  have "length (rest_from ctx m) \<le> length (ring_contents ctx)" and sub: "set (rest_from ctx m) \<subseteq> set (ring_contents ctx)"
    using rest_drop[OF assms(2)] by (simp_all add: set_drop_subset)
  then have "unat (cx_head ctx - m) \<le> unat (cx_head ctx - cx_tail ctx)"
    by (simp add: rest_from_def ring_window_def length_ring_contents)
  then have "ring_ok (ctx\<lparr>cx_tail := m\<rparr>)"
    using assms(1) by (auto simp: ctx_wf_def ring_ok_def)
  then show ?thesis
    using assms(1) sub by (auto simp: ctx_wf_def publish_contents)
qed

subsection \<open>A call on a span\<close>

text \<open>The owner added \<open>new\<close> at the head and left the tail alone.\<close>

definition ctx_grows :: "otel_thread_ctx \<Rightarrow> otel_thread_ctx \<Rightarrow> otel_span list \<Rightarrow> bool" where
  "ctx_grows ctx ctx' new \<longleftrightarrow> ctx_wf ctx' \<and> cx_tail ctx' = cx_tail ctx \<and> ring_contents ctx' = ring_contents ctx @ new"

lemma ctx_grows_inside:
  assumes "ctx_grows ctx ctx' new" and "inside ctx m h"
  shows "inside ctx' m h" and "rest_from ctx' m = rest_from ctx m @ new"
proof -
  have "unat (cx_head ctx - cx_tail ctx) \<le> unat (cx_head ctx' - cx_tail ctx)"
    using assms(1) length_ring_contents[of ctx] length_ring_contents[of ctx'] by (simp add: ctx_grows_def)
  then have "cx_head ctx - cx_tail ctx \<le> cx_head ctx' - cx_tail ctx"
    by (simp add: word_le_nat_alt)
  then show i: "inside ctx' m h"
    using assms by (auto simp: inside_def ctx_grows_def intro: order_trans)
  have "unat (m - cx_tail ctx) \<le> length (ring_contents ctx)"
    using assms(2) unfolding inside_def length_ring_contents word_le_nat_alt[symmetric] by (blast intro: order_trans)
  then show "rest_from ctx' m = rest_from ctx m @ new"
    using rest_drop[OF i] rest_drop[OF assms(2)] assms(1) by (simp add: ctx_grows_def)
qed

text \<open>What the call did: \<open>new\<close> was queued on the caller's ring, \<open>lost\<close> was counted as dropped.  The
  batch may show other bytes.\<close>

definition app_effect :: "nat \<Rightarrow> otel_global \<Rightarrow> otel_global \<Rightarrow> otel_span list \<Rightarrow> otel_span list \<Rightarrow> bool" where
  "app_effect t g h new lost \<longleftrightarrow>
     h = g\<lparr>g_ctx := g_ctx h, g_dropped_spans := g_dropped_spans g + of_nat (length lost), g_export := g_export h\<rparr> \<and>
     (\<forall>b. g_tls g t \<noteq> Some b \<longrightarrow> g_ctx h b = g_ctx g b) \<and> (g_tls g t = None \<longrightarrow> new = []) \<and>
     (\<forall>a. g_tls g t = Some a \<longrightarrow> (\<exists>ctx ctx'. g_ctx g a = Some ctx \<and> g_ctx h a = Some ctx' \<and> ctx_grows ctx ctx' new))"

lemma app_overwrite:
  assumes e: "app_effect t g h new lost" and o: "overwrite H h h'"
  shows "app_effect t g h' new lost"
proof -
  obtain ob where h': "h' = h\<lparr>g_export := (g_export h)\<lparr>ex_otlp := ob\<rparr>\<rparr>"
    using o by (auto simp: overwrite_def)
  obtain c ex where h: "h = g\<lparr>g_ctx := c, g_dropped_spans := g_dropped_spans g + of_nat (length lost), g_export := ex\<rparr>"
    using e unfolding app_effect_def by blast
  show ?thesis
    using e unfolding app_effect_def h' by (simp add: h)
qed

lemma app_ids:
  assumes f: "draws_ids f" and live: "\<And>a. g_tls g t = Some a \<Longrightarrow> live_ctx g a"
  shows "\<exists>h s. tls_call t f g = Some (h, s) \<and> app_effect t g h [] [] \<and> g_export h = g_export g"
proof (cases "g_tls g t")
  case None
  then show ?thesis by (simp add: tls_call_def app_effect_def)
next
  case (Some a)
  obtain ctx where ctx: "g_ctx g a = Some ctx" "ctx_wf ctx"
    using live[OF Some] by (auto simp: live_ctx_def)
  obtain r where r: "fst (f (Some ctx)) = Some (ctx\<lparr>cx_randstate := r\<rparr>)"
    using f by (auto simp: draws_ids_def)
  define h where "h = g\<lparr>g_ctx := (g_ctx g)(a \<mapsto> ctx\<lparr>cx_randstate := r\<rparr>)\<rparr>"
  have "tls_call t f g = Some (h, snd (f (Some ctx)))"
    using Some ctx(1) r by (cases "f (Some ctx)") (simp add: tls_call_def h_def)
  moreover have "app_effect t g h [] []" "g_export h = g_export g"
    using Some ctx by (simp_all add: app_effect_def h_def ctx_grows_def)
  ultimately show ?thesis by blast
qed

lemma app_end:
  assumes live: "\<And>a. g_tls g t = Some a \<Longrightarrow> live_ctx g a" and s: "exportable_span (s\<lparr>sp_end_unix_ns := now\<rparr>)"
  shows "\<exists>h new lost. map_option fst (otel_span_end t now s g) = Some h \<and> app_effect t g h new lost \<and>
    new @ lost = ended_by (OEnd t now s) \<and> g_export h = g_export g"
proof (cases "otel_span_recording s")
  case False
  have "app_effect t g g [] []"
    using live by (auto simp: app_effect_def live_ctx_def ctx_grows_def)
  then show ?thesis
    using False by (simp add: otel_span_end_def)
next
  case rec: True
  let ?s = "s\<lparr>sp_end_unix_ns := now\<rparr>"
  show ?thesis
  proof (cases "g_tls g t")
    case None
    then have "app_effect t g (g\<lparr>g_dropped_spans := g_dropped_spans g + 1\<rparr>) [] [?s]"
      by (simp add: app_effect_def)
    then show ?thesis
      using None rec by (intro exI[of _ "g\<lparr>g_dropped_spans := g_dropped_spans g + 1\<rparr>"] exI[of _ "[]"] exI[of _ "[?s]"])
        (simp add: otel_span_end_def)
  next
    case (Some a)
    obtain ctx where ctx: "g_ctx g a = Some ctx" "ctx_wf ctx"
      using live[OF Some] by (auto simp: live_ctx_def)
    obtain ctx' b where enq: "ring_enqueue ctx ?s = (ctx', b)" by fastforce
    define h where "h = g\<lparr>g_ctx := (g_ctx g)(a \<mapsto> ctx'), g_dropped_spans := g_dropped_spans g + (if b then 0 else 1)\<rparr>"
    have "ctx_wf ctx'"
      using enqueue_wf[OF ctx(2) s] enq by simp
    moreover have "ring_contents ctx' = ring_contents ctx @ (if b then [?s] else [])"
      using ring.put_contents[of ctx ?s] ctx(2) enq by (simp add: ctx_wf_def)
    moreover have "cx_tail ctx' = cx_tail ctx"
      using enq by (auto simp: ring_enqueue_def Let_def split: if_splits)
    ultimately have "app_effect t g h (if b then [?s] else []) (if b then [] else [?s])"
      using Some ctx by (simp add: app_effect_def h_def ctx_grows_def)
    moreover have "map_option fst (otel_span_end t now s g) = Some h" "g_export h = g_export g"
      using Some rec ctx(1) enq by (simp_all add: otel_span_end_def h_def)
    ultimately show ?thesis
      using rec by (intro exI[of _ h] exI[of _ "if b then [?s] else []"] exI[of _ "if b then [] else [?s]"]) auto
  qed
qed

lemma app_call:
  assumes live: "\<And>a. g_tls g t = Some a \<Longrightarrow> live_ctx g a" and op: "span_op t op" and client: "client_ok g op"
  shows "\<exists>h new lost. tracer_step pack g op = Some h \<and> app_effect t g h new lost \<and> new @ lost = ended_by op \<and> g_export h = g_export g"
proof -
  have ids: "\<exists>h s. tls_call t f g = Some (h, s) \<and> app_effect t g h [] [] \<and> g_export h = g_export g" if "draws_ids f" for f
    using app_ids[OF that live] by blast
  show ?thesis
  proof (cases op)
    case (OEnd t' now s)
    then show ?thesis
      using app_end[where g = g and t = t and s = s and now = now] live op client by simp
  qed (use op ids[OF draws_ids_start(1)] ids[OF draws_ids_start(2)] ids[OF draws_ids_start(3)] in
      \<open>fastforce simp: start_span_def start_child_span_def start_remote_span_def\<close>)+
qed

end
