(* ===== verification/Otel_Concurrent_Inv.thy ===== *)
theory Otel_Concurrent_Inv
  imports Otel_Concurrent_Walk
begin

text \<open>
  The invariant of the concurrent tracer: locks and contexts as before, the consumers of the
  start, a batch that is within its pools and empty between passes, and for every thread what
  holds at its program point.
\<close>

subsection \<open>Configuration and export\<close>

definition config :: "otel_global \<Rightarrow> bool \<times> bool \<times> bool \<times> span_sink option \<times> bool" where
  "config g = (g_initialized g, g_transport g, g_transport_present g, g_sink g, g_sink_present g)"

lemma config_upd [simp]:
  "config (g\<lparr>g_ctx := c\<rparr>) = config g" "config (g\<lparr>g_next := n\<rparr>) = config g" "config (g\<lparr>g_threads := ts\<rparr>) = config g"
  "config (g\<lparr>g_tls := tls\<rparr>) = config g" "config (g\<lparr>g_export := ex\<rparr>) = config g" "config (g\<lparr>g_sink_log := l\<rparr>) = config g"
  "config (g\<lparr>g_dropped_spans := d\<rparr>) = config g" "config (g\<lparr>g_enabled := b\<rparr>) = config g"
  "config (g\<lparr>g_runtime_on := b\<rparr>) = config g" "config (g\<lparr>g_sampler := sm\<rparr>) = config g"
  "config (g\<lparr>g_ring_capacity := k\<rparr>) = config g"
  by (simp_all add: config_def)

lemma config_sink_spans: "config g = config h \<Longrightarrow> sink_spans g = sink_spans h"
  by (auto simp: config_def sink_spans_def split: option.split)

text \<open>Two states that differ in the export and the calls of the sink only.\<close>

definition same_threads :: "otel_global \<Rightarrow> otel_global \<Rightarrow> bool" where
  "same_threads g h \<longleftrightarrow> (\<exists>ex l. h = g\<lparr>g_export := ex, g_sink_log := l\<rparr>)"

lemma same_threadsD:
  assumes "same_threads g h"
  shows "g_threads h = g_threads g" "g_tls h = g_tls g" "g_ctx h = g_ctx g" "g_next h = g_next g"
    "g_dropped_spans h = g_dropped_spans g" "config h = config g" "live_ctx h = live_ctx g"
    "g_enabled h = g_enabled g" "g_ring_capacity h = g_ring_capacity g"
  using assms by (auto simp: same_threads_def live_ctx_def)

lemma same_threads_emitted: "emitted pack g h ss \<Longrightarrow> same_threads g h"
  by (auto simp: emitted_def same_threads_def)

lemma same_threads_begin: "same_threads g (sink_begin g)"
  using sink_begin_fields(1)[of g] unfolding same_threads_def
  by (intro exI[of _ "g_export g"] exI[of _ "g_sink_log (sink_begin g)"]) simp

lemma finish_fields: "otlp_flush_g pack g = Some h \<Longrightarrow> sink_end h =
    g\<lparr>g_export := the (otlp_flush pack (g_transport g) (g_export g)), g_sink_log := g_sink_log (sink_end g)\<rparr>"
  by (auto simp: sink_end_def otlp_flush_g_def split: option.splits bind_splits)

lemma same_threads_finish: "otlp_flush_g pack g = Some h \<Longrightarrow> same_threads g (sink_end h)"
  unfolding same_threads_def using finish_fields by blast

lemma begin_export: "g_export (sink_begin g) = g_export g"
  by (simp add: sink_begin_def split: option.split)

subsection \<open>Program points\<close>

definition own_empty :: "otel_global \<Rightarrow> nat \<Rightarrow> bool" where
  "own_empty g t \<longleftrightarrow> (\<forall>a. g_tls g t = Some a \<longrightarrow> queued g a = [])"

fun walk_ok :: "otel_global \<Rightarrow> nat \<Rightarrow> call_pc \<Rightarrow> bool" where
  "walk_ok g t (At j (Some a)) \<longleftrightarrow> a \<in> set (g_threads g) \<and> (j = JUnreg \<longrightarrow> g_tls g t = Some a)"
| "walk_ok g t (At j None) \<longleftrightarrow> j = JUnreg \<longrightarrow> own_empty g t"
| "walk_ok g t (Ring j a m h) \<longleftrightarrow> a \<in> set (g_threads g) \<and> (j = JUnreg \<longrightarrow> g_tls g t = Some a) \<and>
     (\<exists>ctx. g_ctx g a = Some ctx \<and> inside ctx m h \<and> (j = JUnreg \<longrightarrow> h = cx_head ctx))"
| "walk_ok g t (RegWant a) \<longleftrightarrow> queued g a = []"
| "walk_ok g t (RegHeld a) \<longleftrightarrow> queued g a = []"
| "walk_ok g t (Ended j) \<longleftrightarrow> j = JUnreg \<longrightarrow> own_empty g t"
| "walk_ok g t _ \<longleftrightarrow> True"

text \<open>The context whose contents the condition at a program point speaks of.\<close>

fun uses :: "nat option \<Rightarrow> call_pc \<Rightarrow> nat option" where
  "uses own (Ring j a m h) = Some a" | "uses own (RegWant a) = Some a" | "uses own (RegHeld a) = Some a"
| "uses own (At j None) = (if j = JUnreg then own else None)" | "uses own (Ended j) = (if j = JUnreg then own else None)"
| "uses own _ = None"

lemma walk_cong:
  assumes "walk_ok g t p" and "g_tls h t = g_tls g t" and "in_drain p \<Longrightarrow> set (g_threads g) \<subseteq> set (g_threads h)"
    and "\<And>a. uses (g_tls g t) p = Some a \<Longrightarrow> g_ctx h a = g_ctx g a"
  shows "walk_ok h t p"
  using assms by (cases "(g, t, p)" rule: walk_ok.cases) (auto simp: own_empty_def queued_def split: if_splits)

lemma uses_cases:
  assumes "uses (g_tls g t) (pc t) = Some a" and "walk_ok g t (pc t)"
  shows "in_drain (pc t) \<and> a \<in> set (g_threads g) \<or> ctx_own g pc t = Some a"
  using assms by (cases "(g, t, pc t)" rule: walk_ok.cases) (auto simp: ctx_own_def split: if_splits)

fun at_work :: "call_pc \<Rightarrow> bool" where
  "at_work (At j x) = True" | "at_work (Ring j a m h) = True" | "at_work _ = False"

lemma at_work_drain: "at_work p \<Longrightarrow> in_drain p"
  by (cases p) auto

text \<open>Points that only a call reaches that found tracing on.\<close>

fun needs_init :: "call_pc \<Rightarrow> bool" where
  "needs_init (WantDrain j) = (j = JDrain)" | "needs_init (WantReg j) = (j = JDrain)" | "needs_init (Locked j) = (j = JDrain)"
| "needs_init (At j x) = True" | "needs_init (Ring j a m h) = True" | "needs_init (EnRead b) = b" | "needs_init _ = False"

lemma at_work_init: "at_work p \<Longrightarrow> needs_init p"
  by (cases p) auto

text \<open>Once the library is initialised the batch is well formed, has its buffer and is empty between
  passes; before that nobody touches it.\<close>

definition export_ok :: "otel_global \<Rightarrow> (nat \<Rightarrow> call_pc) \<Rightarrow> bool" where
  "export_ok g pc \<longleftrightarrow> (g_initialized g \<longrightarrow> batch_ok (ex_otlp (g_export g)) \<and>
       ((\<forall>t. \<not> at_work (pc t)) \<longrightarrow> otlp_request (ex_otlp (g_export g)) = [])) \<and>
     (g_enabled g \<longrightarrow> g_initialized g) \<and> (\<forall>t. needs_init (pc t) \<longrightarrow> g_initialized g)"

definition config_ok :: "otel_global \<Rightarrow> bool" where
  "config_ok g \<longleftrightarrow> (\<exists>k \<le> 31. g_ring_capacity g = 2 ^ k) \<and> g_transport_present g = g_transport g \<and>
     g_sink_present g = (g_sink g \<noteq> None)"

lemma config_ok_config: "config g = config h \<Longrightarrow> g_ring_capacity g = g_ring_capacity h \<Longrightarrow> config_ok g = config_ok h"
  by (simp add: config_def config_ok_def)

definition conc_inv :: "otel_global \<Rightarrow> conc \<Rightarrow> bool" where
  "conc_inv g0 c \<longleftrightarrow> lock_inv c \<and> ctx_inv (co_g c) (co_pc c) \<and> config (co_g c) = config g0 \<and> config_ok (co_g c) \<and>
     export_ok (co_g c) (co_pc c) \<and> (\<forall>t. walk_ok (co_g c) t (co_pc c t))"

lemma conc_invD:
  assumes "conc_inv g0 c"
  shows "lock_inv c" "ctx_inv (co_g c) (co_pc c)" "config (co_g c) = config g0" "config_ok (co_g c)"
    "export_ok (co_g c) (co_pc c)" "walk_ok (co_g c) t (co_pc c t)"
  using assms by (auto simp: conc_inv_def)

text \<open>A tracer that is in order, with no thread inside a call, and the other way round.\<close>

lemma conc_inv_start:
  assumes "tracer_ok g"
  shows "conc_inv g (conc_start g)"
proof -
  have "threads_ok g" "config_ok g" "export_ok g (\<lambda>_. Outside)"
    using assms by (auto simp: tracer_ok_def config_ok_def export_ok_def)
  moreover from this(1) have "ctx_inv g (\<lambda>_. Outside)"
    unfolding threads_ok_def ctx_inv_def by (auto simp: ctx_own_def live_ctx_def)
  ultimately show ?thesis
    by (simp add: conc_inv_def lock_inv_start) (simp add: conc_start_def)
qed

text \<open>The flag \<^verbatim>\<open>otel_enabled_\<close> apart, which two calls that switch tracing can leave behind
  \<^verbatim>\<open>OT.runtime_on\<close>.\<close>

lemma conc_inv_idle:
  assumes "conc_inv g0 c" and "\<And>t. co_pc c t = Outside"
  shows "tracer_ok (otel_recompute_enabled (co_g c))"
proof -
  note i = conc_invD[OF assms(1)]
  have "threads_ok (co_g c)"
    using i(2) assms(2) unfolding threads_ok_def ctx_inv_def by (auto simp: ctx_own_def live_ctx_def)
  then have "threads_ok (otel_recompute_enabled (co_g c))"
    by (simp add: threads_ok_def otel_recompute_enabled_def)
  then show ?thesis
    using i(4,5) assms(2) by (simp add: tracer_ok_def config_ok_def export_ok_def otel_recompute_enabled_def)
qed

subsection \<open>Preservation\<close>

lemma same_threads_refl: "same_threads g g"
  unfolding same_threads_def by (intro exI[of _ "g_export g"] exI[of _ "g_sink_log g"]) simp

lemma same_threads_export: "same_threads g (g\<lparr>g_export := ex\<rparr>)"
  unfolding same_threads_def by (intro exI[of _ ex] exI[of _ "g_sink_log g"]) simp

lemma same_threads_log: "same_threads g h \<Longrightarrow> same_threads g (h\<lparr>g_sink_log := l\<rparr>)"
  unfolding same_threads_def by (elim exE) (simp, intro exI, rule refl)

lemma same_threads_trans: "same_threads f g \<Longrightarrow> same_threads g h \<Longrightarrow> same_threads f h"
  unfolding same_threads_def by (elim exE) (simp, intro exI, rule refl)

lemma same_threads_emit:
  assumes "otel_emit_span pack s g = Some h"
  shows "same_threads g h"
proof (cases "g_transport_present g")
  case True
  then obtain ex where "otlp_add_span pack (g_transport g) s (g_export g) = Some ex"
    using assms by (cases "otlp_add_span pack (g_transport g) s (g_export g)") (simp_all add: otel_emit_span_def)
  then have "h = g\<lparr>g_export := ex\<rparr> \<or> (\<exists>l. h = g\<lparr>g_export := ex, g_sink_log := l\<rparr>)"
    using assms True by (auto simp: otel_emit_span_def split: option.splits if_splits)
  then show ?thesis
    using same_threads_export same_threads_log[OF same_threads_export] by auto
next
  case False
  then have "h = g \<or> (\<exists>l. h = g\<lparr>g_sink_log := l\<rparr>)"
    using assms by (auto simp: otel_emit_span_def split: option.splits if_splits)
  then show ?thesis
    using same_threads_refl same_threads_log[OF same_threads_refl] by auto
qed

text \<open>What the two steps that run code on spans do, in a state that satisfies the invariant.\<close>

lemma own_live: "conc_inv g0 c \<Longrightarrow> co_pc c t = Outside \<Longrightarrow> g_tls (co_g c) t = Some a \<Longrightarrow> live_ctx (co_g c) a"
  using ctx_invD(5)[OF conc_invD(2), of g0 c t a] by (auto simp: ctx_own_def)

lemma span_effect:
  assumes "conc_inv g0 c" and "co_pc c t = Outside" and "span_op t op" and "client_ok (co_g c) op"
  shows "\<exists>h new lost. tracer_step pack (co_g c) op = Some h \<and> app_effect t (co_g c) h new lost \<and> new @ lost = ended_by op \<and>
    g_export h = g_export (co_g c)"
  using app_call[OF own_live[OF assms(1,2)] assms(3,4)] by blast

lemma span_step_effect:
  assumes inv: "conc_inv g0 c" and p: "co_pc c t = Outside" "span_op t op" "client_ok (co_g c) op"
    and run: "tracer_step pack (co_g c) op = Some g" "overwrite H g h"
  shows "\<exists>new lost. app_effect t (co_g c) h new lost \<and> new @ lost = ended_by op"
    and "overwrite H (co_g c) ((co_g c)\<lparr>g_export := g_export h\<rparr>)"
proof -
  from span_effect[OF inv p, of pack] run(1) obtain new lost where
    e: "app_effect t (co_g c) g new lost" "new @ lost = ended_by op" "g_export g = g_export (co_g c)" by auto
  show "\<exists>new lost. app_effect t (co_g c) h new lost \<and> new @ lost = ended_by op"
    using app_overwrite[OF e(1) run(2)] e(2) by blast
  show "overwrite H (co_g c) ((co_g c)\<lparr>g_export := g_export h\<rparr>)"
    using run(2) e(3) by (auto simp: overwrite_def)
qed

lemma app_fields:
  assumes "app_effect t g h new lost"
  shows "g_threads h = g_threads g" "g_tls h = g_tls g" "g_next h = g_next g" "g_enabled h = g_enabled g"
    "g_sink_log h = g_sink_log g" "config h = config g" "g_dropped_spans h = g_dropped_spans g + of_nat (length lost)"
    "g_ring_capacity h = g_ring_capacity g"
proof -
  have h: "h = g\<lparr>g_ctx := g_ctx h, g_dropped_spans := g_dropped_spans g + of_nat (length lost), g_export := g_export h\<rparr>"
    using assms by (simp add: app_effect_def)
  show "g_threads h = g_threads g" "g_tls h = g_tls g" "g_next h = g_next g" "g_enabled h = g_enabled g"
    "g_sink_log h = g_sink_log g" "config h = config g" "g_dropped_spans h = g_dropped_spans g + of_nat (length lost)"
    "g_ring_capacity h = g_ring_capacity g"
    by (subst h, simp)+
qed

lemma step_config:
  assumes "conc_step pack t c c'" and inv: "conc_inv g0 c"
  shows "config (co_g c') = config g0 \<and> config_ok (co_g c')"
proof -
  note i = conc_invD(3,4)[OF inv]
  have same: "config (co_g c') = config g0 \<and> config_ok (co_g c')"
    if "config (co_g c') = config (co_g c)" "g_ring_capacity (co_g c') = g_ring_capacity (co_g c)"
    using i config_ok_config[OF that] that(1) by simp
  from assms(1) show ?thesis
  proof (cases rule: conc_step_cases)
    case (on_span op g h)
    from span_step_effect(1)[OF inv on_span(2-6)] obtain new lost where
      e: "app_effect t (co_g c) h new lost" by blast
    show ?thesis
      using on_span same app_fields(6,8)[OF e] by simp
  next
    case (emit j a tail head ctx h)
    then show ?thesis
      using same_threadsD[OF same_threads_emit[OF emit(5)]] same by simp
  next
    case (capacity_call n cap)
    then show ?thesis
      using i capacity_ok[of n] by (auto simp: config_ok_def)
  qed (use same same_threadsD[OF same_threads_begin] same_threadsD(6,9)[OF same_threads_finish] in auto)
qed

lemma app_live:
  assumes "app_effect t g h new lost" and "live_ctx g a"
  shows "live_ctx h a"
proof (cases "g_tls g t = Some a")
  case True
  then show ?thesis
    using assms by (auto simp: app_effect_def live_ctx_def ctx_grows_def)
next
  case False
  then show ?thesis
    using assms by (simp add: app_effect_def live_ctx_def)
qed

lemma emit_effect:
  assumes inv: "conc_inv g0 c" and p: "co_pc c t = Ring j a m h" "m \<noteq> h" and ctx: "g_ctx (co_g c) a = Some ctx"
  shows "\<exists>g'. otel_emit_span pack (cx_ring ctx ! slot_index ctx m) (co_g c) = Some g' \<and>
    emitted pack (co_g c) g' [cx_ring ctx ! slot_index ctx m]"
proof -
  have "needs_init (co_pc c t)"
    using p(1) by simp
  then have "batch_ok (ex_otlp (g_export (co_g c)))" and "g_transport_present (co_g c) = g_transport (co_g c)"
    using conc_invD(4,5)[OF inv] unfolding export_ok_def config_ok_def by blast+
  moreover have w: "a \<in> set (g_threads (co_g c))" "inside ctx m h"
    using conc_invD(6)[OF inv, of t] p(1) ctx by auto
  then have "ctx_wf ctx"
    using ctx_invD(3)[OF conc_invD(2)[OF inv] w(1)] ctx by (auto simp: live_ctx_def)
  then have "exportable_span (cx_ring ctx ! slot_index ctx m)"
    using inside_next(3)[OF w(2) p(2)] by (auto simp: ctx_wf_def)
  ultimately show ?thesis by (rule emit_span_ok)
qed

lemma ctx_inv_same: "ctx_inv g pc \<Longrightarrow> same_threads g h \<Longrightarrow> ctx_inv h pc"
  by (rule ctx_inv_live) (simp_all add: same_threadsD)

lemma fresh_wf:
  assumes "config_ok g"
  shows "ctx_wf (fresh_ctx seed now g)" and "ring_contents (fresh_ctx seed now g) = []"
proof -
  obtain k where "k \<le> 31" "g_ring_capacity g = 2 ^ k"
    using assms by (auto simp: config_ok_def)
  then show "ctx_wf (fresh_ctx seed now g)" and "ring_contents (fresh_ctx seed now g) = []"
    using ctx_new_ok ctx_new_wf by (simp_all add: fresh_ctx_def)
qed

lemma step_ctx:
  assumes "conc_step pack t c c'" and inv: "conc_inv g0 c"
  shows "ctx_inv (co_g c') (co_pc c')"
proof -
  note ci = conc_invD(2)[OF inv]
  have pc: "ctx_inv (co_g c) ((co_pc c)(t := p))" if "reg_ctx p = reg_ctx (co_pc c t)" "unlisted p = unlisted (co_pc c t)"
      "leaving p \<longrightarrow> g_tls (co_g c) t \<noteq> None" for p
    using ctx_inv_pc[OF ci that(1,2)] that(3) by blast
  have stay: "leaving (co_pc c t) \<Longrightarrow> g_tls (co_g c) t \<noteq> None"
    using ctx_invD(9)[OF ci] by simp
  from assms(1) show ?thesis
  proof (cases rule: conc_step_cases)
    case (on_span op g h)
    from span_step_effect(1)[OF inv on_span(2-6)] obtain new lost where
      e: "app_effect t (co_g c) h new lost" by blast
    then have "ctx_inv h (co_pc c)"
      using ctx_inv_live[OF ci] app_fields[OF e] app_live[OF e] by simp
    then show ?thesis
      using on_span by simp
  next
    case (reg_call seed now)
    then show ?thesis
      using ctx_inv_reg_call[OF ci reg_call(2,3) fresh_wf(1)[OF conc_invD(4)[OF inv]]] by simp
  next
    case (reg_link a)
    then show ?thesis using ctx_inv_link[OF ci] by simp
  next
    case (reg_tls a)
    then show ?thesis using ctx_inv_tls[OF ci] by simp
  next
    case begin_drain
    then show ?thesis
      using ctx_inv_same[OF pc same_threads_begin] by simp
  next
    case begin_unreg
    then show ?thesis
      using ctx_inv_same[OF pc same_threads_begin] stay by simp
  next
    case (emit j a m h ctx g')
    from emit_effect[OF inv emit(2-4), of pack] emit(5) have "same_threads (co_g c) g'"
      using same_threads_emitted by auto
    then show ?thesis
      using emit stay ctx_inv_same[OF pc] by (cases j) simp_all
  next
    case (publish j a h ctx)
    obtain m where w: "a \<in> set (g_threads (co_g c))" "inside ctx h m"
      using conc_invD(6)[OF inv, of t] publish(2,3) by auto
    then have "ctx_wf (ctx\<lparr>cx_tail := h\<rparr>)"
      using ctx_invD(3)[OF ci w(1)] publish(3) publish_wf by (auto simp: live_ctx_def)
    then have "ctx_inv ((co_g c)\<lparr>g_ctx := (g_ctx (co_g c))(a \<mapsto> ctx\<lparr>cx_tail := h\<rparr>)\<rparr>) ((co_pc c)(t := p))"
      if "ctx_inv (co_g c) ((co_pc c)(t := p))" for p
      using ctx_inv_live[OF that] live_upd by simp
    then show ?thesis
      using publish stay pc by (cases j) simp_all
  next
    case (finish j h)
    then show ?thesis
      using ctx_inv_same[OF pc same_threads_finish[OF finish(3)]] stay by (cases j) simp_all
  next
    case (unlink a)
    then show ?thesis using ctx_inv_unlink[OF ci] by simp
  next
    case (unlink_off a)
    then show ?thesis using ctx_inv_unlink[OF ci] by simp
  next
    case (unlock_drain j)
    then show ?thesis using pc stay by (cases j) simp_all
  next
    case (free a)
    then show ?thesis using ctx_inv_free[OF ci] by simp
  next
    case (capacity_call n cap)
    then show ?thesis using ci by simp
  qed (use pc stay in auto)
qed

lemma export_ok_pc:
  assumes "export_ok g pc" and "g_export h = g_export g" "g_initialized h = g_initialized g" and "at_work p \<or> \<not> at_work (pc t)"
    and "g_enabled h \<longrightarrow> g_initialized g" and "needs_init p \<longrightarrow> g_initialized g"
  shows "export_ok h (pc(t := p))"
proof -
  have "\<forall>t. \<not> at_work (pc t)" if "\<forall>t'. \<not> at_work ((pc(t := p)) t')"
  proof
    fix t' show "\<not> at_work (pc t')"
      using that[rule_format, of t'] that[rule_format, of t] assms(4) by (cases "t' = t") auto
  qed
  then show ?thesis
    using assms(1,2,3,5,6) by (auto simp: export_ok_def)
qed

text \<open>A step of the thread that works on the batch, to a point where it still does.\<close>

lemma export_ok_work:
  assumes "export_ok g pc" and "g_initialized g" and "g_initialized h = g_initialized g"
    and "batch_ok (ex_otlp (g_export h))" and "at_work p"
  shows "export_ok h (pc(t := p))"
  using assms by (auto simp: export_ok_def)

lemma work_batch:
  assumes "conc_inv g0 c" and "needs_init (co_pc c t)"
  shows "g_initialized (co_g c)" and "batch_ok (ex_otlp (g_export (co_g c)))"
  using conc_invD(5)[OF assms(1)] assms(2) unfolding export_ok_def by blast+

lemma finish_ok:
  assumes "conc_inv g0 c" and "co_pc c t = At j x"
  shows "otlp_flush_g pack (co_g c) = Some (flushed_g pack (co_g c))"
  using work_batch(2)[OF assms(1), of t] assms(2) by (intro flush_g_ok) simp

lemma export_ok_rewritten:
  assumes e: "export_ok g pc" and o: "overwrite H g (g\<lparr>g_export := g_export h\<rparr>)"
    and h: "g_initialized h = g_initialized g" "g_enabled h = g_enabled g"
  shows "export_ok h pc"
proof -
  obtain ob where ob: "rewritten H (ex_otlp (g_export g)) ob" "ex_otlp (g_export h) = ob"
    using o by (auto simp: overwrite_def dest: arg_cong[where f = "\<lambda>g. ex_otlp (g_export g)"])
  have "batch_ok ob \<and> (otlp_request (ex_otlp (g_export g)) = [] \<longrightarrow> otlp_request ob = [])"
    if b: "batch_ok (ex_otlp (g_export g))"
    using rewritten_batch(1-3)[OF ob(1) b] by (metis length_0_conv)
  then show ?thesis
    using e h ob(2) by (auto simp: export_ok_def)
qed

lemma config_initialized: "config g = config h \<Longrightarrow> g_initialized g = g_initialized h"
  by (simp add: config_def)

lemma step_export:
  assumes "conc_step pack t c c'" and inv: "conc_inv g0 c"
  shows "export_ok (co_g c') (co_pc c')"
proof -
  note e = conc_invD(5)[OF inv]
  note wb = work_batch[OF inv, of t]
  have en: "g_enabled (co_g c) \<Longrightarrow> g_initialized (co_g c)"
    using e by (simp add: export_ok_def)
  have work: "export_ok h ((co_pc c)(t := p))"
    if "at_work p" "needs_init (co_pc c t)" "same_threads (co_g c) h \<or> (\<exists>x. h = (co_g c)\<lparr>g_ctx := x\<rparr>)" "batch_ok (ex_otlp (g_export h))" for h p
  proof (rule export_ok_work[OF e wb(1)[OF that(2)] _ that(4,1)])
    have "config h = config (co_g c)"
      using that(3) by (elim disjE exE) (simp_all add: same_threadsD(6))
    then show "g_initialized h = g_initialized (co_g c)"
      by (rule config_initialized)
  qed
  from assms(1) show ?thesis
  proof (cases rule: conc_step_cases)
    case (on_span op g h)
    from span_step_effect(1)[OF inv on_span(2-6)] obtain new lost where
      a: "app_effect t (co_g c) h new lost" by blast
    have "export_ok h (co_pc c)"
      by (rule export_ok_rewritten[OF e span_step_effect(2)[OF inv on_span(2-6)] config_initialized[OF app_fields(6)[OF a]] app_fields(4)[OF a]])
    then show ?thesis
      using on_span(1) by simp
  next
    case begin_drain
    then show ?thesis
      using work[OF _ _ disjI1[OF same_threads_begin]] wb(2) begin_export by simp
  next
    case begin_unreg
    have "batch_ok (ex_otlp (g_export (co_g c)))"
      using en[OF begin_unreg(3)] e by (simp add: export_ok_def)
    then show ?thesis
      using begin_unreg(1) export_ok_work[OF e en[OF begin_unreg(3)], of "sink_begin (co_g c)" "At JUnreg (g_tls (co_g c) t)" t]
        begin_export config_initialized[OF same_threadsD(6)[OF same_threads_begin]] by simp
  next
    case (load j a ctx)
    then show ?thesis
      using work[OF _ _ disjI1[OF same_threads_refl]] wb(2) by simp
  next
    case (emit j a m h ctx g')
    from emit_effect[OF inv emit(2-4), of pack] emit(5) have "batch_ok (ex_otlp (g_export g'))" "same_threads (co_g c) g'"
      using emitted_batch same_threads_emitted by auto
    then show ?thesis
      using emit(1,2) work by simp
  next
    case (publish j a h ctx)
    have "export_ok ((co_g c)\<lparr>g_ctx := x\<rparr>) ((co_pc c)(t := At j y))" for x y
      using publish(2) wb(2) by (intro work) auto
    then show ?thesis
      using publish(1) by simp
  next
    case (finish j h)
    have i: "g_initialized (co_g c)" and b: "batch_ok (ex_otlp (g_export (co_g c)))"
      using wb finish(2) by simp_all
    have "g_export (sink_end h) = flushed pack (g_transport (co_g c)) (g_export (co_g c))"
      using finish_fields[OF finish(3)] flush_ok[OF b, of pack "g_transport (co_g c)"] by simp
    moreover have "g_initialized (sink_end h) = g_initialized (co_g c)"
      using same_threadsD(6)[OF same_threads_finish[OF finish(3)]] by (rule config_initialized)
    moreover have "needs_init p \<Longrightarrow> g_initialized (co_g c)" for p
      using i .
    ultimately show ?thesis
      using finish(1) flush_batch[OF b, of pack "g_transport (co_g c)"] i by (simp add: export_ok_def)
  next
    case (enable_read)
    then show ?thesis
      using export_ok_pc[OF e] en by (simp add: otel_recompute_enabled_def)
  next
    case (enable_store b)
    have "b \<longrightarrow> g_initialized (co_g c)"
      using wb(1) enable_store(2) by simp
    then show ?thesis
      using enable_store(1,2) export_ok_pc[OF e] by simp
  next
    case (capacity_call n cap)
    then show ?thesis using e by (simp add: export_ok_def)
  next
    case (unlock_drain j)
    then show ?thesis using export_ok_pc[OF e] en by (cases j) simp_all
  next
    case (lock_drain j)
    then show ?thesis using export_ok_pc[OF e] en wb(1) by simp
  qed (use export_ok_pc[OF e] en wb(1) in auto)
qed

text \<open>The conditions at the other threads' program points survive a step of \<open>t\<close>.\<close>

lemma drain_alone: "lock_inv c \<Longrightarrow> in_drain (co_pc c t) \<Longrightarrow> in_drain (co_pc c t') \<Longrightarrow> t' = t"
  unfolding lock_inv_def by (metis option.inject)

lemma uses_old:
  assumes inv: "conc_inv g0 c" and u: "uses (g_tls (co_g c) t) (co_pc c t) = Some a"
  shows "a < g_next (co_g c)" and "a \<in> set (g_threads (co_g c)) \<or> ctx_own (co_g c) (co_pc c) t = Some a"
proof -
  note d = ctx_invD[OF conc_invD(2)[OF inv]]
  show *: "a \<in> set (g_threads (co_g c)) \<or> ctx_own (co_g c) (co_pc c) t = Some a"
    using uses_cases[where g = "co_g c" and pc = "co_pc c" and t = t and a = a, OF u conc_invD(6)[OF inv]] by blast
  then show "a < g_next (co_g c)"
    using d(2,4) by blast
qed

lemma walk_others:
  assumes "conc_step pack t c c'" and inv: "conc_inv g0 c" and "t' \<noteq> t"
  shows "walk_ok (co_g c') t' (co_pc c t')"
proof -
  note d = ctx_invD[OF conc_invD(2)[OF inv]]
  have w: "walk_ok (co_g c) t' (co_pc c t')"
    using conc_invD(6)[OF inv] .
  have cong: ?thesis if "g_tls (co_g c') t' = g_tls (co_g c) t'"
      "in_drain (co_pc c t') \<Longrightarrow> set (g_threads (co_g c)) \<subseteq> set (g_threads (co_g c'))"
      "\<And>a. uses (g_tls (co_g c) t') (co_pc c t') = Some a \<Longrightarrow> g_ctx (co_g c') a = g_ctx (co_g c) a"
    by (rule walk_cong[OF w that])
  have same: ?thesis if "same_threads (co_g c) (co_g c')"
    using cong same_threadsD[OF that] by simp
  have alone: "\<not> in_drain (co_pc c t')" if "in_drain (co_pc c t)"
    using drain_alone[OF conc_invD(1)[OF inv] that] assms(3) by blast
  note old = uses_old[OF inv, of t']
  from assms(1) show ?thesis
  proof (cases rule: conc_step_cases)
    case (on_span op g h)
    from span_step_effect(1)[OF inv on_span(2-6)] obtain new lost where
      e: "app_effect t (co_g c) h new lost" by blast
    show ?thesis
    proof (cases "\<exists>a. g_tls (co_g c) t = Some a \<and> uses (g_tls (co_g c) t') (co_pc c t') = Some a")
      case True
      then obtain a where a: "g_tls (co_g c) t = Some a" "uses (g_tls (co_g c) t') (co_pc c t') = Some a" by blast
      then have "ctx_own (co_g c) (co_pc c) t = Some a"
        using on_span(2) by (simp add: ctx_own_def)
      then have "ctx_own (co_g c) (co_pc c) t' \<noteq> Some a"
        using d(7) assms(3) by blast
      then obtain m h' where r: "co_pc c t' = Ring JDrain a m h'"
        using uses_cases[where g = "co_g c" and pc = "co_pc c" and t = t' and a = a, OF a(2) w] a(2) w job_cases
        by (cases "(co_g c, t', co_pc c t')" rule: walk_ok.cases) (auto simp: ctx_own_def split: if_splits)
      then obtain ctx where "g_ctx (co_g c) a = Some ctx" "inside ctx m h'"
        using w by auto
      then have "\<exists>ctx'. g_ctx h a = Some ctx' \<and> inside ctx' m h'"
        using e a(1) ctx_grows_inside(1) by (fastforce simp: app_effect_def)
      then show ?thesis
        using on_span(1) r w app_fields(1)[OF e] by simp
    next
      case False
      then show ?thesis
        using on_span(1) cong app_fields[OF e] e by (auto simp: app_effect_def)
    qed
  next
    case (reg_call seed now)
    moreover have "uses (g_tls (co_g c) t') (co_pc c t') \<noteq> Some (g_next (co_g c))"
      using old(1) by blast
    ultimately show ?thesis
      by (intro cong) auto
  next
    case (publish j a h ctx)
    have "a \<in> set (g_threads (co_g c))"
      using conc_invD(6)[OF inv, of t] publish(2) by auto
    moreover have "\<not> in_drain (co_pc c t')"
      using alone publish(2) by simp
    ultimately have "uses (g_tls (co_g c) t') (co_pc c t') \<noteq> Some a"
      using uses_cases[where g = "co_g c" and pc = "co_pc c" and t = t' and a = a, OF _ w] d(6)[of t' a]
      by (cases "(co_g c, t', co_pc c t')" rule: walk_ok.cases) auto
    then show ?thesis using publish(1) by (intro cong) auto
  next
    case (unlink a)
    then show ?thesis using cong alone by simp
  next
    case (unlink_off a)
    then show ?thesis using cong alone by simp
  next
    case (free a)
    then have o: "ctx_own (co_g c) (co_pc c) t = Some a"
      by (simp add: ctx_own_def)
    then have "a \<notin> set (g_threads (co_g c))" "ctx_own (co_g c) (co_pc c) t' \<noteq> Some a"
      using d(6)[OF o] d(7)[of t a t'] free(2) assms(3) by auto
    then have "uses (g_tls (co_g c) t') (co_pc c t') \<noteq> Some a"
      using old(2) by blast
    then show ?thesis using free(1) assms(3) by (intro cong) auto
  next
    case begin_drain
    then show ?thesis using same same_threads_begin by simp
  next
    case begin_unreg
    then show ?thesis using same same_threads_begin by simp
  next
    case (emit j a m h ctx g')
    from emit_effect[OF inv emit(2-4), of pack] emit(5) show ?thesis
      using emit(1) same same_threads_emitted by auto
  next
    case (finish j h)
    then show ?thesis using same same_threads_finish[OF finish(3)] by simp
  qed (use cong assms(3) in auto)
qed

text \<open>The condition at the program point a step reaches.\<close>

lemma next_ctx_in: "next_ctx a xs = Some b \<Longrightarrow> b \<in> set xs"
  by (induction a xs rule: next_ctx.induct) (auto simp: first_ctx_def split: if_splits list.splits)

lemma first_ctx_in: "first_ctx xs = Some b \<Longrightarrow> b \<in> set xs"
  by (auto simp: first_ctx_def split: list.splits)

lemma walk_self:
  assumes "conc_step pack t c c'" and inv: "conc_inv g0 c"
  shows "walk_ok (co_g c') t (co_pc c' t)"
proof -
  note d = ctx_invD[OF conc_invD(2)[OF inv]]
  have w: "walk_ok (co_g c) t (co_pc c t)"
    using conc_invD(6)[OF inv] .
  from assms(1) show ?thesis
  proof (cases rule: conc_step_cases)
    case (reg_call seed now)
    then show ?thesis
      using fresh_wf(2)[OF conc_invD(4)[OF inv]] by (simp add: queued_def)
  next
    case begin_drain
    then show ?thesis
      using first_ctx_in same_threadsD(1)[OF same_threads_begin]
      by (cases "first_ctx (g_threads (co_g c))") auto
  next
    case begin_unreg
    obtain a where a: "g_tls (co_g c) t = Some a"
      using d(9)[of t] begin_unreg(2) by auto
    then have "ctx_own (co_g c) (co_pc c) t = Some a"
      using begin_unreg(2) by (simp add: ctx_own_def)
    then have "a \<in> set (g_threads (co_g c))"
      using d(6)[of t a] begin_unreg(2) by simp
    then show ?thesis
      using begin_unreg(1) a same_threadsD(1,2)[OF same_threads_begin] by simp
  next
    case (load j a ctx)
    then show ?thesis
      using w inside_load(1)[of ctx] by simp
  next
    case (emit j a m h ctx g')
    from emit_effect[OF inv emit(2-4), of pack] emit(5) have s: "same_threads (co_g c) g'"
      using same_threads_emitted by auto
    have "inside ctx (m + 1) h" "j = JUnreg \<longrightarrow> h = cx_head ctx"
      using inside_next(1)[where ctx = ctx and m = m and h = h] emit(2-4) w by auto
    then show ?thesis
      using emit w same_threadsD(1-3)[OF s] by auto
  next
    case (publish j a h ctx)
    show ?thesis
    proof (cases j)
      case JDrain
      then show ?thesis
        using publish next_ctx_in by (cases "next_ctx a (g_threads (co_g c))") auto
    next
      case JUnreg
      then have "g_tls (co_g c) t = Some a" "h = cx_head ctx"
        using w publish(2,3) by auto
      then show ?thesis
        using publish(1) JUnreg publish_contents[where ctx = ctx and m = h]
        by (simp add: own_empty_def queued_def rest_from_def)
    qed
  next
    case (finish j h)
    then show ?thesis
      using w same_threadsD[OF same_threads_finish[OF finish(3)]] by (auto simp: own_empty_def queued_def)
  next
    case (unlock_drain j)
    then show ?thesis by (cases j) simp_all
  qed (use w in auto)
qed

lemma conc_inv_step:
  assumes "conc_step pack t c c'" and inv: "conc_inv g0 c"
  shows "conc_inv g0 c'"
proof -
  have "walk_ok (co_g c') t' (co_pc c' t')" for t'
    using walk_self[OF assms] walk_others[OF assms, of t'] step_pc[OF assms(1), of t'] by (cases "t' = t") auto
  then show ?thesis
    using lock_inv_step[OF assms(1)] step_config[OF assms] step_ctx[OF assms] step_export[OF assms] conc_invD(1,4)[OF inv]
    by (simp add: conc_inv_def)
qed

lemma conc_inv_reachable:
  assumes "tracer_ok g" and "conc_reachable pack g c"
  shows "conc_inv g c"
  using assms(2) unfolding conc_reachable_def
  by (induction rule: rtranclp_induct) (use conc_inv_start[OF assms(1)] conc_inv_step in blast)+

end
