(* ===== verification/Otel_Concurrent_Balance.thy ===== *)
theory Otel_Concurrent_Balance
  imports Otel_Concurrent_Inv
begin

text \<open>
  Where every span of a concurrent run is: given to the transport and the sink, waiting in a ring,
  counted as dropped, or freed in the ring of a thread that left while tracing was off.
\<close>

subsection \<open>Waiting spans\<close>

text \<open>The ring the holder of \<^verbatim>\<open>drain_lock\<close> is walking and its cursor there.\<close>

definition walker :: "conc \<Rightarrow> (nat \<times> u64) option" where
  "walker c = (case co_drain c of None \<Rightarrow> None
     | Some t \<Rightarrow> (case co_pc c t of Ring j a tail head \<Rightarrow> Some (a, tail) | _ \<Rightarrow> None))"

definition cursor :: "(nat \<times> u64) option \<Rightarrow> nat \<Rightarrow> otel_thread_ctx \<Rightarrow> u64" where
  "cursor w a ctx = (case w of Some (b, m) \<Rightarrow> if b = a then m else cx_tail ctx | None \<Rightarrow> cx_tail ctx)"

text \<open>The spans in the ring at \<open>a\<close> not emitted yet, and those of all registered threads.\<close>

definition waiting_in :: "(nat \<times> u64) option \<Rightarrow> otel_global \<Rightarrow> nat \<Rightarrow> otel_span list" where
  "waiting_in w g a = (case g_ctx g a of None \<Rightarrow> [] | Some ctx \<Rightarrow> rest_from ctx (cursor w a ctx))"

definition all_waiting :: "conc \<Rightarrow> otel_span list" where
  "all_waiting c = concat (map (waiting_in (walker c) (co_g c)) (g_threads (co_g c)))"

lemma cursor_simps [simp]: "cursor None a ctx = cx_tail ctx" "cursor (Some (a, m)) a ctx = m"
  "b \<noteq> a \<Longrightarrow> cursor (Some (b, m)) a ctx = cx_tail ctx"
  by (simp_all add: cursor_def)

lemma waiting_queued: "fst ` set_option w \<inter> {a} = {} \<Longrightarrow> waiting_in w g a = queued g a"
  by (cases w) (auto simp: waiting_in_def queued_def inside_load cursor_def split: option.split)

lemma walker_own:
  assumes "lock_inv c" and "in_drain (co_pc c t)"
  shows "walker c = (case co_pc c t of Ring j a tail head \<Rightarrow> Some (a, tail) | _ \<Rightarrow> None)"
proof -
  have "co_drain c = Some t"
    using assms by (simp add: lock_inv_def)
  then show ?thesis by (simp add: walker_def)
qed

lemma walker_other:
  assumes "lock_inv c" and "\<not> in_drain (co_pc c t)" and "co_drain c' = co_drain c" and "\<And>t'. t' \<noteq> t \<Longrightarrow> co_pc c' t' = co_pc c t'"
  shows "walker c' = walker c"
proof (cases "co_drain c")
  case (Some t')
  then have "in_drain (co_pc c t')"
    using assms(1) unfolding lock_inv_def by blast
  then have "t' \<noteq> t"
    using assms(2) by auto
  then show ?thesis
    using Some assms(3,4) by (simp add: walker_def)
qed (use assms(3) in \<open>simp add: walker_def\<close>)

lemma walker_ring:
  assumes "conc_inv g0 c" and "walker c = Some (a, m)"
  shows "\<exists>t j h ctx. co_pc c t = Ring j a m h \<and> a \<in> set (g_threads (co_g c)) \<and> g_ctx (co_g c) a = Some ctx \<and> inside ctx m h"
proof -
  obtain t j h where "co_drain c = Some t" "co_pc c t = Ring j a m h"
    using assms(2) by (auto simp: walker_def split: option.splits call_pc.splits)
  then show ?thesis
    using conc_invD(6)[OF assms(1), of t] by auto
qed

lemma cursor_inside:
  assumes "conc_inv g0 c" and "g_ctx (co_g c) a = Some ctx"
  shows "\<exists>h. inside ctx (cursor (walker c) a ctx) h"
proof (cases "walker c")
  case (Some p)
  obtain b m where p: "p = (b, m)" by fastforce
  show ?thesis
    using walker_ring[OF assms(1)] Some p assms(2) inside_load by (cases "b = a") fastforce+
qed (use inside_load in auto)

lemma waiting_threads [simp]: "waiting_in w (g\<lparr>g_threads := ts\<rparr>) = waiting_in w g"
  by (simp add: waiting_in_def fun_eq_iff)

lemma all_waiting_one:
  assumes "conc_inv g0 c" and "g_threads (co_g c') = g_threads (co_g c)" and "a \<in> set (g_threads (co_g c))"
    and "\<And>b. b \<in> set (g_threads (co_g c)) \<Longrightarrow> b \<noteq> a \<Longrightarrow>
      waiting_in (walker c') (co_g c') b = waiting_in (walker c) (co_g c) b"
  shows "mset (all_waiting c') + mset (waiting_in (walker c) (co_g c) a) =
    mset (all_waiting c) + mset (waiting_in (walker c') (co_g c') a)"
  using mset_concat_one[OF assms(3) ctx_invD(1)[OF conc_invD(2)[OF assms(1)]], of "waiting_in (walker c') (co_g c')"
      "waiting_in (walker c) (co_g c)"] assms(4)
  unfolding all_waiting_def assms(2) by simp

lemma all_waiting_eq:
  assumes "g_threads (co_g c') = g_threads (co_g c)"
    and "\<And>b. waiting_in (walker c') (co_g c') b = waiting_in (walker c) (co_g c) b"
  shows "all_waiting c' = all_waiting c"
  unfolding all_waiting_def assms(1) using assms(2) by (simp cong: map_cong)

lemma all_waiting_same:
  assumes "walker c' = walker c" and "g_threads (co_g c') = g_threads (co_g c)"
    and "\<And>b. b \<in> set (g_threads (co_g c)) \<Longrightarrow> g_ctx (co_g c') b = g_ctx (co_g c) b"
  shows "all_waiting c' = all_waiting c"
  unfolding all_waiting_def assms(1,2) using assms(3) by (simp add: waiting_in_def cong: map_cong)

text \<open>What leaves the registry with a thread.\<close>

lemma leave_waiting:
  assumes inv: "conc_inv g0 c" and p: "(co_pc c t = Ended JUnreg \<or> co_pc c t = Skipped) \<and> g_tls (co_g c) t = Some a"
    and wk: "walker c = None" "walker c' = None" and g: "co_g c' = (co_g c)\<lparr>g_threads := remove1 a (g_threads (co_g c))\<rparr>"
  shows "mset (all_waiting c) = mset (all_waiting c') + mset (queued (co_g c) a)"
proof -
  have "ctx_own (co_g c) (co_pc c) t = Some a"
    using p by (auto simp: ctx_own_def)
  then have "a \<in> set (g_threads (co_g c))"
    using ctx_invD(6)[OF conc_invD(2)[OF inv], of t a] p by auto
  moreover have "mset (concat (map f xs)) = mset (concat (map f (remove1 a xs))) + mset (f a)"
    if "a \<in> set xs" for f :: "nat \<Rightarrow> otel_span list" and xs
    using that by (induction xs) (auto simp: ac_simps)
  moreover have "waiting_in None (co_g c) a = queued (co_g c) a"
    by (simp add: waiting_queued)
  ultimately show ?thesis
    using g wk by (simp add: all_waiting_def)
qed

subsection \<open>The transport and the sink\<close>

text \<open>The span calls of the sink and the frames of the transport hold the spans given so far, the
  frames except for those whose slot was written before they were packed.\<close>

definition sink_bal :: "otel_global \<Rightarrow> conc \<Rightarrow> bool" where
  "sink_bal g0 c \<longleftrightarrow> filter is_span_event (g_sink_log (co_g c)) =
     filter is_span_event (g_sink_log g0) @ (if sink_spans g0 then map SSpan (co_given c) else [])"

definition frame_bal :: "(span_msg list \<Rightarrow> byte list) \<Rightarrow> otel_global \<Rightarrow> conc \<Rightarrow> bool" where
  "frame_bal pack g0 c \<longleftrightarrow> length (co_from c) = length (co_given c) \<and>
     (g_initialized g0 \<and> g_transport g0 \<longrightarrow>
       (\<exists>msgs. all_sent pack (ex_frames (g_export g0)) (g_export (co_g c)) msgs \<and> length msgs = length (co_given c) \<and>
         (\<forall>i < length (co_given c). i \<in> co_hit c \<or> msgs ! i = msg_of (co_given c ! i))))"

lemma begin_spans: "filter is_span_event (g_sink_log (sink_begin g)) = filter is_span_event (g_sink_log g)"
  "filter is_span_event (g_sink_log (sink_end g)) = filter is_span_event (g_sink_log g)"
  by (simp_all add: sink_begin_def sink_end_def split: option.split)

lemma finish_export:
  assumes "otlp_flush_g pack g = Some h"
  shows "otlp_flush pack (g_transport g) (g_export g) = Some (g_export (sink_end h))"
    and "filter is_span_event (g_sink_log (sink_end h)) = filter is_span_event (g_sink_log g)"
proof -
  obtain ex where ex: "otlp_flush pack (g_transport g) (g_export g) = Some ex" "h = g\<lparr>g_export := ex\<rparr>"
    using assms by (auto simp: otlp_flush_g_def split: bind_splits)
  have "g_export (sink_end h) = g_export h"
    by (simp add: sink_end_def split: option.split)
  then show "otlp_flush pack (g_transport g) (g_export g) = Some (g_export (sink_end h))"
    using ex by simp
  show "filter is_span_event (g_sink_log (sink_end h)) = filter is_span_event (g_sink_log g)"
    unfolding begin_spans(2) using ex(2) by simp
qed

lemma step_sink:
  assumes "conc_step pack t c c'" and inv: "conc_inv g0 c" and bal: "sink_bal g0 c"
  shows "sink_bal g0 c'"
  using assms(1)
proof (cases rule: conc_step_cases)
  case (on_span op g h)
  from span_step_effect(1)[OF inv on_span(2-6)] obtain new lost where
    "app_effect t (co_g c) h new lost" by blast
  then show ?thesis
    using on_span(1) bal app_fields(5) by (simp add: sink_bal_def)
next
  case (emit j a m h ctx g')
  have "sink_spans (co_g c) = sink_spans g0"
    using config_sink_spans[OF conc_invD(3)[OF inv]] .
  with emit_effect[OF inv emit(2-4), of pack] emit(5)
  have "g_sink_log g' = g_sink_log (co_g c) @ (if sink_spans g0 then [SSpan (cx_ring ctx ! slot_index ctx m)] else [])"
    by (auto simp: emitted_def)
  then show ?thesis
    using emit(1) bal by (simp add: sink_bal_def)
qed (use bal begin_spans finish_export(2) in \<open>auto simp: sink_bal_def\<close>)

text \<open>A call that ends a span rewrites what the open batch shows of the spans it hits.\<close>

lemma span_frames:
  assumes inv: "conc_inv g0 c" and bal: "frame_bal pack g0 c"
    and o: "overwrite {i. batch_start c + i \<in> hits c w} (co_g c) ((co_g c)\<lparr>g_export := g_export h\<rparr>)"
    and c': "co_g c' = h" "co_given c' = co_given c" "co_from c' = co_from c" "co_hit c' = co_hit c \<union> hits c w"
  shows "frame_bal pack g0 c'"
proof -
  have "\<exists>msgs. all_sent pack (ex_frames (g_export g0)) (g_export h) msgs \<and> length msgs = length (co_given c) \<and>
      (\<forall>i < length (co_given c). i \<in> co_hit c \<union> hits c w \<or> msgs ! i = msg_of (co_given c ! i))"
    if tp: "g_initialized g0" "g_transport g0"
  proof -
    obtain msgs where m: "all_sent pack (ex_frames (g_export g0)) (g_export (co_g c)) msgs" "length msgs = length (co_given c)"
      "\<forall>i < length (co_given c). i \<in> co_hit c \<or> msgs ! i = msg_of (co_given c ! i)"
      using bal tp by (auto simp: frame_bal_def)
    obtain ob where ob: "rewritten {i. batch_start c + i \<in> hits c w} (ex_otlp (g_export (co_g c))) ob"
      "g_export h = (g_export (co_g c))\<lparr>ex_otlp := ob\<rparr>"
      using o by (auto simp: overwrite_def dest: arg_cong[where f = g_export])
    from rewritten_sent[OF m(1) ob(1)] obtain msgs' where
      m': "all_sent pack (ex_frames (g_export g0)) (g_export h) msgs'" "length msgs' = length msgs"
      "\<forall>i < length msgs. (\<forall>k \<in> {i. batch_start c + i \<in> hits c w}. i \<noteq> batch_start c + k) \<longrightarrow> msgs' ! i = msgs ! i"
      unfolding ob(2) m(2) batch_start_def by blast
    have "\<forall>i < length (co_given c). i \<in> co_hit c \<union> hits c w \<or> msgs' ! i = msg_of (co_given c ! i)"
      using m(2,3) m'(3) by (metis (mono_tags, lifting) UnCI mem_Collect_eq)
    then show ?thesis
      using m' m(2) by auto
  qed
  then show ?thesis
    using bal by (simp add: frame_bal_def c')
qed

lemma emit_frames:
  assumes e: "emitted pack (co_g c) g' [s]" and bal: "frame_bal pack g0 c" and tp: "g_transport (co_g c) = g_transport g0"
    and c': "co_g c' = g'" "co_given c' = co_given c @ [s]" "co_from c' = co_from c @ [r]" "co_hit c' = co_hit c"
  shows "frame_bal pack g0 c'"
proof -
  have "\<exists>msgs. all_sent pack (ex_frames (g_export g0)) (g_export g') msgs \<and> length msgs = Suc (length (co_given c)) \<and>
      (\<forall>i < Suc (length (co_given c)). i \<in> co_hit c \<or> msgs ! i = msg_of ((co_given c @ [s]) ! i))"
    if i: "g_initialized g0" "g_transport g0"
  proof -
    obtain msgs where m: "all_sent pack (ex_frames (g_export g0)) (g_export (co_g c)) msgs" "length msgs = length (co_given c)"
      "\<forall>i < length (co_given c). i \<in> co_hit c \<or> msgs ! i = msg_of (co_given c ! i)"
      using bal i by (auto simp: frame_bal_def)
    have "all_sent pack (ex_frames (g_export g0)) (g_export g') (msgs @ [msg_of s])"
      using e m(1) tp i(2) by (auto simp: emitted_def)
    then show ?thesis
      using m(2,3) by (intro exI[of _ "msgs @ [msg_of s]"]) (auto simp: nth_append less_Suc_eq)
  qed
  then show ?thesis
    using bal by (simp add: frame_bal_def c')
qed

lemma step_frames:
  assumes "conc_step pack t c c'" and inv: "conc_inv g0 c" and bal: "frame_bal pack g0 c"
  shows "frame_bal pack g0 c'"
proof -
  have tp: "g_transport (co_g c) = g_transport g0"
    using conc_invD(3)[OF inv] by (simp add: config_def)
  from assms(1) show ?thesis
  proof (cases rule: conc_step_cases)
    case (on_span op g h)
    show ?thesis
      by (rule span_frames[OF inv bal span_step_effect(2)[OF inv on_span(2-6)]]) (simp_all add: on_span(1))
  next
    case (emit j a m h ctx g')
    from emit_effect[OF inv emit(2-4), of pack] emit(5) have "emitted pack (co_g c) g' [cx_ring ctx ! slot_index ctx m]"
      by auto
    then show ?thesis
      by (rule emit_frames[OF _ bal tp]) (simp_all add: emit(1))
  next
    case (finish j h)
    have b: "batch_ok (ex_otlp (g_export (co_g c)))"
      using work_batch(2)[OF inv, of t] finish(2) by simp
    have x: "g_export (sink_end h) = flushed pack (g_transport (co_g c)) (g_export (co_g c))"
      using finish_export(1)[OF finish(3)] flush_ok[OF b, of pack "g_transport (co_g c)"] by simp
    show ?thesis
      using finish(1) bal tp all_sent_flush(1)[of pack _ "g_export (co_g c)"]
      by (auto simp: frame_bal_def x)
  qed (use bal begin_export in \<open>auto simp: frame_bal_def\<close>)
qed

subsection \<open>The spans\<close>

definition span_bal :: "otel_global \<Rightarrow> conc \<Rightarrow> bool" where
  "span_bal g0 c \<longleftrightarrow> (\<exists>lost. mset (co_given c) + mset (all_waiting c) + lost + mset (co_off c) = mset (all_queued g0) + mset (co_ended c) \<and>
     g_dropped_spans (co_g c) = g_dropped_spans g0 + of_nat (size lost))"

lemma span_bal_same:
  assumes "span_bal g0 c" and "all_waiting c' = all_waiting c" and "co_given c' = co_given c" and "co_ended c' = co_ended c"
    and "co_off c' = co_off c" and "g_dropped_spans (co_g c') = g_dropped_spans (co_g c)"
  shows "span_bal g0 c'"
  using assms by (simp add: span_bal_def)

lemma span_bal_owner:
  assumes bal: "span_bal g0 c" and inv: "conc_inv g0 c" and t: "co_pc c t = Outside"
    and e: "app_effect t (co_g c) h new lost"
  shows "span_bal g0 (c\<lparr>co_g := h, co_ended := co_ended c @ new @ lost, co_hit := k\<rparr>)"
proof -
  let ?c = "c\<lparr>co_g := h, co_ended := co_ended c @ new @ lost, co_hit := k\<rparr>"
  have w: "walker ?c = walker c"
    by (simp add: walker_def cong: option.case_cong)
  have "mset (all_waiting ?c) = mset (all_waiting c) + mset new"
  proof (cases "g_tls (co_g c) t")
    case None
    then show ?thesis
      using e app_fields(1)[OF e] all_waiting_same[OF w] by (simp add: app_effect_def)
  next
    case (Some a)
    then have own: "ctx_own (co_g c) (co_pc c) t = Some a"
      using t by (simp add: ctx_own_def)
    then have a: "a \<in> set (g_threads (co_g c))"
      using ctx_invD(6)[OF conc_invD(2)[OF inv] own] t by simp
    obtain ctx ctx' where ctx: "g_ctx (co_g c) a = Some ctx" "g_ctx h a = Some ctx'" "ctx_grows ctx ctx' new"
      using e Some by (auto simp: app_effect_def)
    obtain h' where i: "inside ctx (cursor (walker c) a ctx) h'"
      using cursor_inside[OF inv ctx(1)] by blast
    have "cursor (walker c) a ctx' = cursor (walker c) a ctx"
      using ctx(3) by (simp add: cursor_def ctx_grows_def split: option.split)
    then have "waiting_in (walker ?c) h a = waiting_in (walker c) (co_g c) a @ new"
      using ctx ctx_grows_inside(2)[OF ctx(3) i] w by (simp add: waiting_in_def)
    moreover have "waiting_in (walker ?c) h b = waiting_in (walker c) (co_g c) b" if "b \<noteq> a" for b
      using e Some that w by (simp add: waiting_in_def app_effect_def)
    ultimately show ?thesis
      using all_waiting_one[OF inv _ a, of ?c] app_fields(1)[OF e] by simp
  qed
  moreover obtain l where "mset (co_given c) + mset (all_waiting c) + l + mset (co_off c) = mset (all_queued g0) + mset (co_ended c)"
    "g_dropped_spans (co_g c) = g_dropped_spans g0 + of_nat (size l)"
    using bal by (auto simp: span_bal_def)
  ultimately show ?thesis
    using app_fields(7)[OF e] unfolding span_bal_def
    by (intro exI[of _ "l + mset lost"]) (simp add: ac_simps)
qed

lemma step_spans:
  assumes step: "conc_step pack t c c'" and inv: "conc_inv g0 c" and bal: "span_bal g0 c"
  shows "span_bal g0 c'"
proof -
  note d = ctx_invD[OF conc_invD(2)[OF inv]]
  have w: "walk_ok (co_g c) t (co_pc c t)"
    using conc_invD(6)[OF inv] .
  have lock: "lock_inv c" "lock_inv c'"
    using conc_invD(1)[OF inv] lock_inv_step[OF step] by auto
  note own = walker_own[OF lock(1), of t] walker_own[OF lock(2), of t]
  have other: "walker c' = walker c" if "\<not> in_drain (co_pc c t)" "co_drain c' = co_drain c"
    using walker_other[OF lock(1) that step_pc[OF step]] .
  have ring: "a \<in> set (g_threads (co_g c))" if "walker c = Some (a, m)" for a m
    using walker_ring[OF inv that] by blast
  have queued: "waiting_in (walker c) (co_g c) a = queued (co_g c) a" if "a \<notin> set (g_threads (co_g c))" for a
    using ring that by (intro waiting_queued) auto
  have same: ?thesis if "walker c' = walker c" "g_threads (co_g c') = g_threads (co_g c)" "g_ctx (co_g c') = g_ctx (co_g c)"
      "g_dropped_spans (co_g c') = g_dropped_spans (co_g c)" "co_given c' = co_given c" "co_ended c' = co_ended c" "co_off c' = co_off c"
    using span_bal_same[OF bal all_waiting_same that(5-7)] that(1-4) by simp
  from step show ?thesis
  proof (cases rule: conc_step_cases)
    case (on_span op g h)
    from span_step_effect(1)[OF inv on_span(2-6)] obtain new lost where
      e: "app_effect t (co_g c) h new lost" "new @ lost = ended_by op" by blast
    show ?thesis
      using span_bal_owner[OF bal inv on_span(2) e(1)] on_span(1) e(2) by simp
  next
    case (reg_call seed now)
    have "all_waiting c' = all_waiting c"
      using reg_call d(2) other by (intro all_waiting_same) auto
    then show ?thesis
      using span_bal_same[OF bal] reg_call by simp
  next
    case (reg_link a)
    have o: "ctx_own (co_g c) (co_pc c) t = Some a"
      using reg_link(2) by (simp add: ctx_own_def)
    have "waiting_in (walker c) (co_g c) a = []" "walker c' = walker c"
      using queued[of a] d(6)[OF o] reg_link w other by simp_all
    then have "all_waiting c' = all_waiting c"
      using reg_link(1) by (simp add: all_waiting_def)
    then show ?thesis
      using span_bal_same[OF bal] reg_link by simp
  next
    case (emit j a m h ctx g')
    let ?s = "cx_ring ctx ! slot_index ctx m"
    from emit_effect[OF inv emit(2-4), of pack] emit(5) have "same_threads (co_g c) g'"
      using same_threads_emitted by auto
    note s = same_threadsD[OF this]
    have a: "a \<in> set (g_threads (co_g c))" "inside ctx m h"
      using w emit(2,4) by auto
    have wk: "walker c = Some (a, m)" "walker c' = Some (a, m + 1)"
      using own emit(1,2) by simp_all
    have "waiting_in (walker c) (co_g c) a = ?s # waiting_in (walker c') (co_g c') a"
      using inside_next(2)[OF a(2) emit(3)] emit(1,4) wk s(3) by (simp add: waiting_in_def)
    moreover have "mset (all_waiting c') + mset (waiting_in (walker c) (co_g c) a) =
        mset (all_waiting c) + mset (waiting_in (walker c') (co_g c') a)"
      using emit(1) s wk a(1) by (intro all_waiting_one[OF inv]) (simp_all add: waiting_in_def split: option.split)
    ultimately have m: "mset (all_waiting c) = add_mset ?s (mset (all_waiting c'))"
      by simp
    then show ?thesis
      using bal emit(1) s(5) by (auto simp: span_bal_def)
  next
    case (publish j a h ctx)
    have wk: "walker c = Some (a, h)" "walker c' = None"
      using own publish(1,2) by simp_all
    have "waiting_in (walker c') (co_g c') b = waiting_in (walker c) (co_g c) b" for b
      using publish(1,3) wk by (simp add: waiting_in_def cursor_def rest_from_def ring_window_def slot_index_def split: option.split)
    then have "all_waiting c' = all_waiting c"
      using publish(1) by (intro all_waiting_eq) simp_all
    then show ?thesis
      using span_bal_same[OF bal] publish(1) by simp
  next
    case (unlink a)
    have "queued (co_g c) a = []"
      using w unlink(2,3) by (simp add: own_empty_def)
    moreover have wk: "walker c = None" "walker c' = None"
      using own unlink(1,2) by simp_all
    moreover have m: "mset (all_waiting c) = mset (all_waiting c') + mset (queued (co_g c) a)"
      using leave_waiting[OF inv _ wk, of t a] unlink(1,2,3) by simp
    ultimately show ?thesis
      using bal unlink(1) by (simp add: span_bal_def)
  next
    case (unlink_off a)
    have "walker c = None" "walker c' = None"
      using own unlink_off(1,2) by simp_all
    then have "mset (all_waiting c) = mset (all_waiting c') + mset (queued (co_g c) a)"
      using leave_waiting[OF inv, of t a c'] unlink_off(1,2,3) by simp
    then show ?thesis
      using bal unlink_off(1) by (simp add: span_bal_def ac_simps)
  next
    case (free a)
    have o: "ctx_own (co_g c) (co_pc c) t = Some a"
      using free(2,3) by (simp add: ctx_own_def)
    have "a \<notin> set (g_threads (co_g c))"
      using d(6)[OF o] free(2) by simp
    then have "all_waiting c' = all_waiting c"
      using free(1,2) other by (intro all_waiting_same) auto
    then show ?thesis
      using span_bal_same[OF bal] free(1) by simp
  next
    case (unlock_drain j)
    then have "walker c = None" "walker c' = None"
      using own(1) by (simp_all add: walker_def)
    then show ?thesis
      using same unlock_drain(1) by simp
  next
    case (lock_drain j)
    then have "walker c = None" "walker c' = None"
      by (simp_all add: walker_def)
    then show ?thesis
      using same lock_drain(1) by simp
  next
    case (reg_tls a)
    then have "all_waiting c' = all_waiting c"
      using other by (intro all_waiting_same) auto
    then show ?thesis
      using span_bal_same[OF bal] reg_tls(1) by simp
  next
    case begin_drain
    then show ?thesis using same same_threadsD[OF same_threads_begin] own by simp
  next
    case begin_unreg
    then show ?thesis using same same_threadsD[OF same_threads_begin] own by simp
  next
    case (finish j h)
    then show ?thesis using same same_threadsD[OF same_threads_finish[OF finish(3)]] own by simp
  next
    case (load j a ctx)
    then have wk: "walker c = None" "walker c' = Some (a, cx_tail ctx)"
      using own by simp_all
    have "waiting_in (walker c') (co_g c') b = waiting_in (walker c) (co_g c) b" for b
      using load(1,3) wk by (auto simp: waiting_in_def cursor_def split: option.split)
    then have "all_waiting c' = all_waiting c"
      using load(1) by (intro all_waiting_eq) simp_all
    then show ?thesis
      using span_bal_same[OF bal] load(1) by simp
  qed (use same own other in auto)
qed

subsection \<open>Tracing that is never switched off\<close>

definition live_bal :: "conc \<Rightarrow> bool" where
  "live_bal c \<longleftrightarrow> co_live c \<longrightarrow> g_enabled (co_g c) \<and> co_off c = [] \<and> (\<forall>t. co_pc c t \<noteq> Skipped)"

lemma step_live:
  assumes step: "conc_step pack t c c'" and inv: "conc_inv g0 c" and bal: "live_bal c"
  shows "live_bal c'"
proof -
  have same: ?thesis if "co_live c' = co_live c" "co_live c \<Longrightarrow> g_enabled (co_g c') = g_enabled (co_g c)"
      "co_live c \<Longrightarrow> co_off c' = co_off c" "co_live c \<Longrightarrow> co_pc c' t \<noteq> Skipped"
    using bal that step_pc[OF step] unfolding live_bal_def by (metis (full_types))
  from step show ?thesis
  proof (cases rule: conc_step_cases)
    case (on_span op g h)
    from span_step_effect(1)[OF inv on_span(2-6)] obtain new lost where
      "app_effect t (co_g c) h new lost" by blast
    then show ?thesis
      using on_span(1,2) same app_fields(4) by simp
  next
    case (emit j a m h ctx g')
    then show ?thesis
      using same same_threadsD(8)[OF same_threads_emit[OF emit(5)]] by simp
  next
    case (enable_store b)
    then show ?thesis
      using bal by (simp add: live_bal_def)
  qed (use same bal same_threadsD(8)[OF same_threads_begin] same_threadsD(8)[OF same_threads_finish] in
      \<open>auto simp: live_bal_def split: job.split\<close>)
qed

end
