(* ===== verification/Otel_Concurrent_Live.thy ===== *)
theory Otel_Concurrent_Live
  imports Otel_Concurrent_Inv
begin

text \<open>
  Progress: some thread inside a call can always step, and every call ends after a bounded number
  of its own steps, whatever spans the other threads record meanwhile.
\<close>

subsection \<open>No deadlock\<close>

fun waits :: "call_pc \<Rightarrow> bool" where
  "waits (RegWant a) = True" | "waits (WantDrain j) = True" | "waits (WantReg j) = True" | "waits _ = False"

lemma running_steps:
  assumes inv: "conc_inv g0 c" and p: "co_pc c t \<noteq> Outside" "\<not> waits (co_pc c t)"
  shows "\<exists>c'. conc_step pack t c c'"
proof -
  have w: "walk_ok (co_g c) t (co_pc c t)"
    using conc_invD(6)[OF inv] .
  note d = ctx_invD[OF conc_invD(2)[OF inv]]
  have own: "\<exists>a. g_tls (co_g c) t = Some a" if "leaving (co_pc c t)"
    using d(9)[OF that] by blast
  show ?thesis
  proof (cases "co_pc c t")
    case (Locked j)
    then show ?thesis
      using begin_drain[of c t pack] begin_unreg[of c t pack] begin_off[of c t pack] by (cases j) blast+
  next
    case (At j x)
    show ?thesis
    proof (cases x)
      case None
      then show ?thesis
        using finish[of c t j pack] finish_ok[OF inv, of t j None pack] At by blast
    next
      case (Some a)
      then have "live_ctx (co_g c) a"
        using w At d(3) by simp
      then show ?thesis
        using load[of c t j a _ pack] At Some by (auto simp: live_ctx_def)
    qed
  next
    case (Ring j a m h)
    then obtain ctx where ctx: "g_ctx (co_g c) a = Some ctx"
      using w by auto
    show ?thesis
    proof (cases "m = h")
      case True
      then show ?thesis using publish[of c t j a h ctx pack] Ring ctx by blast
    next
      case False
      then show ?thesis
        using emit_effect[OF inv Ring False ctx, of pack] emit[OF Ring False ctx, of pack] by blast
    qed
  next
    case (Ended j)
    then show ?thesis
      using own unlink[of c t _ pack] unlock_read[of c t pack] by (cases j) auto
  next
    case Skipped
    then show ?thesis using own unlink_off[of c t _ pack] by auto
  next
    case Freeing
    then show ?thesis using own free[of c t _ pack] by auto
  qed (use p enable_read[of c t pack] enable_store[of c t _ pack] sampler_store[of c t _ pack] reg_link[of c t _ pack] reg_unlock[of c t _ pack] reg_tls[of c t _ pack] unlock_write[of c t pack]
      unlock_drain[of c t _ pack] in auto)
qed

lemma waits_not: "in_write p \<Longrightarrow> \<not> waits p" "in_read p \<Longrightarrow> \<not> waits p" "in_write p \<Longrightarrow> p \<noteq> Outside" "in_drain p \<Longrightarrow> p \<noteq> Outside"
  by (cases p; simp)+

text \<open>A thread that waits for the registry finds a holder of it that runs, or gets it.\<close>

lemma registry_steps:
  assumes inv: "conc_inv g0 c" and free: "\<And>t'. in_read (co_pc c t') \<Longrightarrow> False"
    and p: "co_pc c t = RegWant a \<or> co_pc c t = WantReg j"
  shows "\<exists>t c'. co_pc c t \<noteq> Outside \<and> conc_step pack t c c'"
proof (cases "co_writer c")
  case (Some t')
  then have "in_write (co_pc c t')"
    using conc_invD(1)[OF inv] unfolding lock_inv_def by blast
  then show ?thesis
    using running_steps[OF inv, of t' pack] waits_not(1,3) by blast
next
  case None
  have "co_readers c = {}"
    using conc_invD(1)[OF inv] free unfolding lock_inv_def by blast
  then have "\<exists>c'. conc_step pack t c c'"
    using None p reg_lock[of c t a pack] lock_read[of c t pack] lock_write[of c t pack]
    by (cases j) blast+
  moreover have "co_pc c t \<noteq> Outside"
    using p by auto
  ultimately show ?thesis by blast
qed

lemma no_deadlock:
  assumes inv: "conc_inv g0 c" and t: "co_pc c t \<noteq> Outside"
  shows "\<exists>t c'. co_pc c t \<noteq> Outside \<and> conc_step pack t c c'"
proof -
  have lock: "lock_inv c"
    using conc_invD(1)[OF inv] .
  have run: ?thesis if "co_pc c t' \<noteq> Outside" "\<not> waits (co_pc c t')" for t'
    using running_steps[OF inv that] that(1) by blast
  show ?thesis
  proof (cases "co_drain c")
    case (Some d)
    then have in_d: "in_drain (co_pc c d)"
      using lock unfolding lock_inv_def by blast
    show ?thesis
    proof (cases "waits (co_pc c d)")
      case False
      then show ?thesis using run waits_not(4)[OF in_d] by blast
    next
      case True
      then obtain j where j: "co_pc c d = WantReg j"
        using in_d by (cases "co_pc c d") auto
      have "\<not> in_read (co_pc c t')" for t'
        using drain_alone[OF lock in_d in_read_drain, of t'] j by (cases "t' = d") auto
      then show ?thesis
        using registry_steps[OF inv, of d _ j] j by blast
    qed
  next
    case None
    then have "\<not> in_drain (co_pc c t')" for t'
      using lock unfolding lock_inv_def by (metis option.distinct(1))
    then have nr: "\<not> in_read (co_pc c t')" "\<not> in_drain (co_pc c t)" for t'
      using in_read_drain by blast+
    show ?thesis
    proof (cases "waits (co_pc c t)")
      case True
      then consider a where "co_pc c t = RegWant a" | j where "co_pc c t = WantDrain j"
        using nr(2) by (cases "co_pc c t") auto
      then show ?thesis
      proof cases
        case 1
        then show ?thesis
          using registry_steps[OF inv, of t a] nr(1) by blast
      next
        case 2
        then show ?thesis
          using lock_drain[OF 2 None, of pack] t by blast
      qed
    qed (use run t in blast)
  qed
qed

subsection \<open>Every call ends\<close>

text \<open>A visit to a ring is at most \<open>2 ^ 31\<close> spans; \<open>remaining\<close> counts the steps a call may still take.\<close>

definition ring_steps :: nat where
  "ring_steps = 2 ^ 32 + 3"

fun left_of :: "job \<Rightarrow> nat \<Rightarrow> nat list \<Rightarrow> nat" where
  "left_of JUnreg a xs = 1"
| "left_of JDrain a xs = length (dropWhile (\<lambda>x. x \<noteq> a) xs)"

fun remaining :: "nat \<Rightarrow> nat list \<Rightarrow> call_pc \<Rightarrow> nat" where
  "remaining n ts Outside = 0"
| "remaining n ts (RegWant a) = 4" | "remaining n ts (RegHeld a) = 3" | "remaining n ts (RegLinked a) = 2"
| "remaining n ts (RegUnlocked a) = 1"
| "remaining n ts (WantDrain j) = 8 + (n + 1) * ring_steps" | "remaining n ts (WantReg j) = 7 + (n + 1) * ring_steps"
| "remaining n ts (Locked j) = 6 + (n + 1) * ring_steps"
| "remaining n ts (At j (Some a)) = 5 + left_of j a ts * ring_steps" | "remaining n ts (At j None) = 5"
| "remaining n ts (Ring j a m h) = 6 + (left_of j a ts - 1) * ring_steps + unat (h - m)"
| "remaining n ts (Ended j) = 4" | "remaining n ts Unlinked = 3" | "remaining n ts Skipped = 4" | "remaining n ts (RelDrain j) = 2" | "remaining n ts Freeing = 1"
| "remaining n ts EnStored = 2" | "remaining n ts (EnRead b) = 1" | "remaining n ts (SmStored sm) = 1"

lemma left_of_pos: "a \<in> set xs \<Longrightarrow> 0 < left_of j a xs"
  by (cases j) auto

lemma left_of_le: "left_of j a xs \<le> Suc (length xs)"
  by (cases j) (auto intro: le_SucI length_dropWhile_le)

lemma left_of_next:
  assumes "distinct xs" and "a \<in> set xs" and "next_ctx a xs = Some b"
  shows "left_of JDrain b xs < left_of JDrain a xs"
  using assms
proof (induction xs)
  case (Cons x xs)
  show ?case
  proof (cases "x = a")
    case True
    then have "b \<in> set xs" "x \<noteq> b"
      using Cons.prems by (auto simp: first_ctx_def split: list.splits)
    then show ?thesis
      using True length_dropWhile_le[of "\<lambda>x. x \<noteq> b" xs] by simp
  next
    case False
    then have "b \<in> set xs"
      using Cons.prems next_ctx_in[of a xs b] by simp
    then show ?thesis
      using Cons False by auto
  qed
qed simp

lemma remaining_threads: "\<not> in_read p \<Longrightarrow> remaining n ts p = remaining n ts' p"
  by (cases "(n, ts, p)" rule: remaining.cases) (auto, (metis job_cases left_of.simps(1))+)

lemma threads_bound:
  assumes "ctx_inv g pc"
  shows "length (g_threads g) \<le> g_next g"
proof -
  have "set (g_threads g) \<subseteq> {..<g_next g}"
    using ctx_invD(2)[OF assms] by blast
  then show ?thesis
    using ctx_invD(1)[OF assms] by (metis card_lessThan card_mono distinct_card finite_lessThan)
qed

definition work :: "conc \<Rightarrow> nat" where
  "work c = (\<Sum>t \<in> {t. co_pc c t \<noteq> Outside}. remaining (g_next (co_g c)) (g_threads (co_g c)) (co_pc c t))"

text \<open>A step of thread \<open>t\<close> inside a call brings that call nearer to its end.\<close>

lemma first_left: "first_ctx xs = Some a \<Longrightarrow> left_of JDrain a xs = length xs"
  by (auto simp: first_ctx_def split: list.splits)

lemma begin_less:
  assumes "length ts \<le> n"
  shows "remaining n ts (At JDrain (first_ctx ts)) < remaining n ts (Locked JDrain)"
    and "remaining n ts (At JUnreg x) < remaining n ts (Locked JUnreg)"
proof -
  have "length ts * ring_steps \<le> (n + 1) * ring_steps"
    using assms by (intro mult_le_mono1) simp
  then show "remaining n ts (At JDrain (first_ctx ts)) < remaining n ts (Locked JDrain)"
    by (cases "first_ctx ts") (simp_all del: left_of.simps add: first_left)
  show "remaining n ts (At JUnreg x) < remaining n ts (Locked JUnreg)"
    by (cases x) simp_all
qed

lemma load_less:
  assumes "ctx_wf ctx" and "a \<in> set ts"
  shows "remaining n ts (Ring j a (cx_tail ctx) (cx_head ctx)) < remaining n ts (At j (Some a))"
proof -
  obtain k where "k \<le> 31" "unat (cx_capacity ctx) = 2 ^ k" "unat (cx_head ctx - cx_tail ctx) \<le> unat (cx_capacity ctx)"
    using assms(1) by (auto simp: ctx_wf_def ring_ok_def)
  then have "unat (cx_head ctx - cx_tail ctx) \<le> 2 ^ 31"
    using power_increasing[of k 31 "2 :: nat"] by linarith
  moreover obtain m where "left_of j a ts = Suc m"
    using left_of_pos[OF assms(2)] gr0_implies_Suc by blast
  ultimately show ?thesis
    by (simp add: ring_steps_def)
qed

lemma publish_less:
  assumes "distinct ts" and "a \<in> set ts"
  shows "remaining n ts (At j (case j of JDrain \<Rightarrow> next_ctx a ts | JUnreg \<Rightarrow> None)) < remaining n ts (Ring j a h h)"
proof (cases "case j of JDrain \<Rightarrow> next_ctx a ts | JUnreg \<Rightarrow> None")
  case (Some b)
  then have "j = JDrain" "next_ctx a ts = Some b"
    by (cases j; simp)+
  moreover from this left_of_next[OF assms] have "left_of JDrain b ts \<le> left_of JDrain a ts - 1"
    by fastforce
  then have "left_of JDrain b ts * ring_steps \<le> (left_of JDrain a ts - 1) * ring_steps"
    by (rule mult_le_mono1)
  ultimately show ?thesis
    by (simp del: left_of.simps add: less_Suc_eq_le)
qed simp

lemma own_step_less:
  assumes step: "conc_step pack t c c'" and inv: "conc_inv g0 c" and p: "co_pc c t \<noteq> Outside"
  shows "g_next (co_g c') = g_next (co_g c)"
    and "remaining (g_next (co_g c')) (g_threads (co_g c')) (co_pc c' t) <
      remaining (g_next (co_g c)) (g_threads (co_g c)) (co_pc c t)"
proof -
  note d = ctx_invD[OF conc_invD(2)[OF inv]]
  have w: "walk_ok (co_g c) t (co_pc c t)"
    using conc_invD(6)[OF inv] .
  have len: "length (g_threads (co_g c)) \<le> g_next (co_g c)"
    using threads_bound[OF conc_invD(2)[OF inv]] .
  note sb = same_threadsD[OF same_threads_begin]
  from step have "g_next (co_g c') = g_next (co_g c) \<and> remaining (g_next (co_g c')) (g_threads (co_g c')) (co_pc c' t) <
      remaining (g_next (co_g c)) (g_threads (co_g c)) (co_pc c t)"
  proof (cases rule: conc_step_cases)
    case begin_drain
    then show ?thesis using begin_less(1)[OF len] sb by simp
  next
    case begin_unreg
    then show ?thesis using begin_less(2)[OF len] sb by simp
  next
    case (load j a ctx)
    then have "a \<in> set (g_threads (co_g c))" "ctx_wf ctx"
      using w d(3)[of a] by (auto simp: live_ctx_def)
    then show ?thesis using load load_less by simp
  next
    case (emit j a m h ctx g')
    from emit_effect[OF inv emit(2-4), of pack] emit(5) have "same_threads (co_g c) g'"
      using same_threads_emitted by auto
    then show ?thesis
      using emit(1,2) same_threadsD unat_diff_step[of m h] emit(3) by simp
  next
    case (publish j a h ctx)
    then have "a \<in> set (g_threads (co_g c))"
      using w by auto
    then show ?thesis using publish publish_less[OF d(1)] by simp
  next
    case (finish j h)
    then show ?thesis using same_threadsD[OF same_threads_finish[OF finish(3)]] by simp
  next
    case (unlock_drain j)
    then show ?thesis by (cases j) simp_all
  qed (use p in auto)
  then show "g_next (co_g c') = g_next (co_g c)" and "remaining (g_next (co_g c')) (g_threads (co_g c')) (co_pc c' t) <
      remaining (g_next (co_g c)) (g_threads (co_g c)) (co_pc c t)" by auto
qed

text \<open>The registry changes only while no other thread walks it.\<close>

lemma step_threads:
  assumes step: "conc_step pack t c c'" and inv: "conc_inv g0 c" and "t' \<noteq> t"
  shows "in_read (co_pc c t') \<Longrightarrow> g_threads (co_g c') = g_threads (co_g c)"
proof -
  assume r: "in_read (co_pc c t')"
  have lock: "lock_inv c"
    using conc_invD(1)[OF inv] .
  then have "co_writer c = None"
    using r unfolding lock_inv_def by auto
  then have nw: "\<not> in_write (co_pc c t)"
    using lock unfolding lock_inv_def by auto
  from step show ?thesis
  proof (cases rule: conc_step_cases)
    case (on_span op g h)
    from span_step_effect(1)[OF inv on_span(2-6)] obtain new lost where
      "app_effect t (co_g c) h new lost" by blast
    then show ?thesis using on_span(1) app_fields(1) by simp
  next
    case (emit j a m h ctx g')
    from emit_effect[OF inv emit(2-4), of pack] emit(5) have "same_threads (co_g c) g'"
      using same_threads_emitted by auto
    then show ?thesis using emit(1) same_threadsD by simp
  qed (use nw same_threadsD(1)[OF same_threads_begin] same_threadsD(1)[OF same_threads_finish] in auto)
qed

lemma finite_busy:
  assumes "conc_reachable pack g c"
  shows "finite {t. co_pc c t \<noteq> Outside}"
  using assms unfolding conc_reachable_def
proof (induction rule: rtranclp_induct)
  case (step c c')
  then obtain t where "conc_step pack t c c'" by blast
  then have "{t'. co_pc c' t' \<noteq> Outside} \<subseteq> insert t {t'. co_pc c t' \<noteq> Outside}"
    using step_pc by fastforce
  then show ?case
    using step.IH by (auto intro: finite_subset)
qed (simp add: conc_start_def)

lemma work_less:
  assumes step: "conc_step pack t c c'" and inv: "conc_inv g0 c" and p: "co_pc c t \<noteq> Outside"
    and fin: "finite {t. co_pc c t \<noteq> Outside}"
  shows "work c' < work c"
proof -
  let ?B = "{t. co_pc c t \<noteq> Outside}"
  let ?f = "\<lambda>c t. remaining (g_next (co_g c)) (g_threads (co_g c)) (co_pc c t)"
  note own = own_step_less[OF step inv p]
  have other: "?f c' t' = ?f c t'" if "t' \<noteq> t" for t'
    using step_threads[OF step inv that] remaining_threads step_pc[OF step that] own(1)
    by (cases "in_read (co_pc c t')") auto
  have "{t. co_pc c' t \<noteq> Outside} \<subseteq> ?B"
    using step_pc[OF step] p by (metis (mono_tags, lifting) Collect_mono)
  then have "work c' = (\<Sum>t \<in> ?B. ?f c' t)"
    unfolding work_def using fin by (intro sum.mono_neutral_left) auto
  also have "\<dots> < (\<Sum>t \<in> ?B. ?f c t)"
  proof (rule sum_strict_mono_ex1[OF fin])
    have "?f c' t' \<le> ?f c t'" for t'
      using own(2) other[of t'] by (cases "t' = t") auto
    then show "\<forall>t' \<in> ?B. ?f c' t' \<le> ?f c t'" by blast
    show "\<exists>t' \<in> ?B. ?f c' t' < ?f c t'"
      using p own(2) by blast
  qed
  finally show ?thesis
    by (simp add: work_def)
qed

lemma work_same:
  assumes step: "conc_step pack t c c'" and inv: "conc_inv g0 c" and p: "co_pc c t = Outside" "co_pc c' t = Outside"
  shows "work c' = work c \<and> {t. co_pc c' t \<noteq> Outside} = {t. co_pc c t \<noteq> Outside}"
  using step
proof (cases rule: conc_step_cases)
  case (on_span op g h)
  from span_step_effect(1)[OF inv on_span(2-6)] obtain new lost where
    "app_effect t (co_g c) h new lost" by blast
  then show ?thesis using on_span(1) app_fields(1,3) by (simp add: work_def)
next
  case (capacity_call n cap)
  then show ?thesis by (simp add: work_def)
qed (use p in auto)

text \<open>\<open>serves pack c n c'\<close>: from \<open>c\<close> to \<open>c'\<close> the threads that were inside a call took \<open>n\<close> steps, while the
  other threads called on spans or set the ring capacity.\<close>

inductive serves :: "(span_msg list \<Rightarrow> byte list) \<Rightarrow> conc \<Rightarrow> nat \<Rightarrow> conc \<Rightarrow> bool" for pack c where
  serves_refl: "serves pack c 0 c"
| serves_call: "serves pack c n c' \<Longrightarrow> co_pc c' t \<noteq> Outside \<Longrightarrow> conc_step pack t c' c'' \<Longrightarrow> serves pack c (Suc n) c''"
| serves_span: "serves pack c n c' \<Longrightarrow> co_pc c' t = Outside \<Longrightarrow> conc_step pack t c' c'' \<Longrightarrow> co_pc c'' t = Outside \<Longrightarrow> serves pack c n c''"

lemma serves_bound:
  assumes "serves pack c n c'" and "conc_inv g0 c" and "finite {t. co_pc c t \<noteq> Outside}"
  shows "n + work c' \<le> work c \<and> conc_inv g0 c' \<and> finite {t. co_pc c' t \<noteq> Outside}"
  using assms
proof (induction rule: serves.induct)
  case (serves_call n c' t c'')
  then have i: "conc_inv g0 c'" "finite {t. co_pc c' t \<noteq> Outside}" "n + work c' \<le> work c" by auto
  moreover have "{t. co_pc c'' t \<noteq> Outside} \<subseteq> insert t {t. co_pc c' t \<noteq> Outside}"
    using step_pc[OF serves_call.hyps(3)] by fastforce
  moreover have "work c'' < work c'" "conc_inv g0 c''"
    using work_less[OF serves_call.hyps(3) i(1) serves_call.hyps(2) i(2)] conc_inv_step[OF serves_call.hyps(3) i(1)] by blast+
  ultimately show ?case
    by (auto intro: finite_subset)
next
  case (serves_span n c' t c'')
  then have "conc_inv g0 c'" "finite {t. co_pc c' t \<noteq> Outside}" "n + work c' \<le> work c" by auto
  then show ?case
    using work_same[OF serves_span.hyps(3) _ serves_span.hyps(2,4)] conc_inv_step[OF serves_span.hyps(3)] by simp
qed simp

end
