(* ===== verification/Otel_Concurrent_Alone.thy ===== *)
theory Otel_Concurrent_Alone
  imports Otel_Concurrent_Inv
begin

text \<open>
  The steps of one call, taken without interference, are the sequential operation of
  \<open>Otel_Tracer\<close>.
\<close>

abbreviation steps :: "(span_msg list \<Rightarrow> byte list) \<Rightarrow> nat \<Rightarrow> conc \<Rightarrow> conc \<Rightarrow> bool" where
  "steps pack t \<equiv> (conc_step pack t)\<^sup>*\<^sup>*"

lemma step_steps: "conc_step pack t c c' \<Longrightarrow> steps pack t c' c'' \<Longrightarrow> steps pack t c c''"
  by (rule converse_rtranclp_into_rtranclp)

lemma goto_goto: "goto t p (goto t q c) = goto t p c"
  by (simp add: goto_def)

lemma goto_upd:
  "(goto t p c)\<lparr>co_g := g\<rparr> = goto t p (c\<lparr>co_g := g\<rparr>)" "(goto t p c)\<lparr>co_given := ss\<rparr> = goto t p (c\<lparr>co_given := ss\<rparr>)"
  "(goto t p c)\<lparr>co_from := rs\<rparr> = goto t p (c\<lparr>co_from := rs\<rparr>)"
  "(goto t p c)\<lparr>co_drain := d\<rparr> = goto t p (c\<lparr>co_drain := d\<rparr>)" "(goto t p c)\<lparr>co_writer := w\<rparr> = goto t p (c\<lparr>co_writer := w\<rparr>)"
  "(goto t p c)\<lparr>co_readers := r\<rparr> = goto t p (c\<lparr>co_readers := r\<rparr>)"
  "c\<lparr>co_given := ss, co_from := rs, co_g := g\<rparr> = c\<lparr>co_g := g, co_given := ss, co_from := rs\<rparr>"
  "(goto t p c)\<lparr>co_off := us\<rparr> = goto t p (c\<lparr>co_off := us\<rparr>)"
  by (simp_all add: goto_def)

lemma goto_self: "co_pc c t = p \<Longrightarrow> goto t p c = c"
  by (simp add: goto_def fun_upd_idem)

subsection \<open>Registering\<close>

lemma register_alone:
  assumes "co_pc c t = Outside" and "co_writer c = None" and "co_readers c = {}" and "g_tls (co_g c) t = None"
  shows "(conc_step pack t)\<^sup>*\<^sup>* c (c\<lparr>co_g := otel_thread_register t seed now (co_g c)\<rparr>)"
proof -
  let ?a = "g_next (co_g c)"
  let ?g = "(co_g c)\<lparr>g_ctx := (g_ctx (co_g c))(?a \<mapsto> fresh_ctx seed now (co_g c)), g_next := ?a + 1\<rparr>"
  define c1 where "c1 = goto t (RegWant ?a) (c\<lparr>co_g := ?g\<rparr>)"
  define c2 where "c2 = goto t (RegHeld ?a) (c1\<lparr>co_writer := Some t\<rparr>)"
  define c3 where "c3 = goto t (RegLinked ?a) (c2\<lparr>co_g := ?g\<lparr>g_threads := ?a # g_threads ?g\<rparr>\<rparr>)"
  define c4 where "c4 = goto t (RegUnlocked ?a) (c3\<lparr>co_writer := None\<rparr>)"
  define c5 where "c5 = goto t Outside (c4\<lparr>co_g := (co_g c4)\<lparr>g_tls := (g_tls (co_g c4))(t \<mapsto> ?a)\<rparr>\<rparr>)"
  have 1: "conc_step pack t c c1"
    unfolding c1_def by (rule reg_call) fact+
  have 2: "conc_step pack t c1 c2"
    unfolding c2_def by (rule reg_lock) (simp_all add: c1_def assms)
  have 3: "conc_step pack t c2 c3"
    using reg_link[of c2 t ?a pack] by (simp add: c3_def c2_def c1_def)
  have 4: "conc_step pack t c3 c4"
    unfolding c4_def by (rule reg_unlock[where a = ?a]) (simp add: c3_def)
  have 5: "conc_step pack t c4 c5"
    unfolding c5_def by (rule reg_tls) (simp add: c4_def)
  have "c5 = c\<lparr>co_g := otel_thread_register t seed now (co_g c)\<rparr>"
    using assms by (intro conc.equality)
      (simp_all add: c5_def c4_def c3_def c2_def c1_def goto_def otel_thread_register_def fresh_ctx_def Let_def fun_upd_idem)
  moreover have "(conc_step pack t)\<^sup>*\<^sup>* c c5"
    using 1 2 3 4 5 by (meson converse_rtranclp_into_rtranclp rtranclp.rtrancl_refl)
  ultimately show ?thesis by simp
qed

subsection \<open>Draining a ring\<close>

definition emit_all :: "(span_msg list \<Rightarrow> byte list) \<Rightarrow> otel_span list \<Rightarrow> otel_global option \<Rightarrow> otel_global option" where
  "emit_all pack = fold (\<lambda>s st. do { g \<leftarrow> st; otel_emit_span pack s g })"

lemma emit_all_None: "emit_all pack ss None = None"
  by (induction ss) (simp_all add: emit_all_def)

lemma emit_all_Cons:
  assumes "emit_all pack (s # ss) (Some g) = Some h"
  obtains g1 where "otel_emit_span pack s g = Some g1" and "emit_all pack ss (Some g1) = Some h"
  using assms emit_all_None[of pack ss] by (cases "otel_emit_span pack s g") (auto simp: emit_all_def)

lemma emit_all_same: "emit_all pack ss (Some g) = Some h \<Longrightarrow> same_threads g h"
proof (induction ss arbitrary: g)
  case Nil
  then show ?case by (simp add: emit_all_def same_threads_refl)
next
  case (Cons s ss)
  from Cons.prems obtain g1 where "otel_emit_span pack s g = Some g1" "emit_all pack ss (Some g1) = Some h"
    by (rule emit_all_Cons)
  then show ?case
    using same_threads_trans[OF same_threads_emit Cons.IH] by blast
qed

lemma ring_alone:
  assumes "co_pc c t = Ring j a m h" and "g_ctx (co_g c) a = Some ctx" and "emit_all pack (ring_window ctx m h) (Some (co_g c)) = Some g"
  shows "\<exists>ss rs. steps pack t c (goto t (Ring j a h h) (c\<lparr>co_g := g, co_given := ss, co_from := rs\<rparr>))"
  using assms
proof (induction "unat (h - m)" arbitrary: c m)
  case 0
  then have "m = h"
    by (metis diff_eq_eq diff_self unsigned_eq_0_iff add_0)
  then have "goto t (Ring j a h h) (c\<lparr>co_g := g, co_given := co_given c, co_from := co_from c\<rparr>) = c"
    using 0 by (simp add: emit_all_def goto_self)
  then show ?case
    by (metis rtranclp.rtrancl_refl)
next
  case (Suc n)
  then have ne: "m \<noteq> h" by auto
  have n: "n = unat (h - (m + 1))"
    using unat_diff_step[OF ne] Suc.hyps(2) by simp
  let ?s = "cx_ring ctx ! slot_index ctx m"
  obtain g1 where g1: "otel_emit_span pack ?s (co_g c) = Some g1" "emit_all pack (ring_window ctx (m + 1) h) (Some g1) = Some g"
    using Suc.prems(3) emit_all_Cons unfolding ring_window_Cons[OF ne] by blast
  define c1 where "c1 = goto t (Ring j a (m + 1) h) (c\<lparr>co_g := g1, co_given := co_given c @ [?s], co_from := co_from c @ [(a, slot_index ctx m)]\<rparr>)"
  have 1: "conc_step pack t c c1"
    unfolding c1_def by (rule emit[OF Suc.prems(1) ne Suc.prems(2) g1(1)])
  have c1: "co_pc c1 t = Ring j a (m + 1) h" "g_ctx (co_g c1) a = Some ctx"
    "emit_all pack (ring_window ctx (m + 1) h) (Some (co_g c1)) = Some g"
    using same_threadsD(3)[OF same_threads_emit[OF g1(1)]] Suc.prems(2) g1(2) by (simp_all add: c1_def)
  from Suc.hyps(1)[OF n c1] obtain ss rs where
    "steps pack t c1 (goto t (Ring j a h h) (c1\<lparr>co_g := g, co_given := ss, co_from := rs\<rparr>))" by blast
  with 1 have "steps pack t c (goto t (Ring j a h h) (c1\<lparr>co_g := g, co_given := ss, co_from := rs\<rparr>))"
    by (rule step_steps)
  then show ?case
    by (auto simp: c1_def goto_upd goto_goto)
qed

lemma visit_alone:
  assumes p: "co_pc c t = At j (Some a)" and d: "drain_one pack a (co_g c) = Some (g, n)"
  shows "\<exists>ss rs. steps pack t c (goto t (At j (case j of JDrain \<Rightarrow> next_ctx a (g_threads (co_g c)) | JUnreg \<Rightarrow> None))
    (c\<lparr>co_g := g, co_given := ss, co_from := rs\<rparr>)) \<and> g_threads g = g_threads (co_g c)"
proof -
  obtain ctx where ctx: "g_ctx (co_g c) a = Some ctx"
    using d by (cases "g_ctx (co_g c) a") (simp_all add: drain_one_def)
  then obtain g1 where g1: "emit_all pack (ring_contents ctx) (Some (co_g c)) = Some g1"
    "g = g1\<lparr>g_ctx := (g_ctx g1)(a \<mapsto> ctx\<lparr>cx_tail := cx_head ctx\<rparr>)\<rparr>"
    using d by (cases "emit_all pack (ring_contents ctx) (Some (co_g c))")
      (auto simp: drain_one_def otel_drain_ctx_eq emit_all_def)
  define c1 where "c1 = goto t (Ring j a (cx_tail ctx) (cx_head ctx)) c"
  have 1: "conc_step pack t c c1"
    unfolding c1_def by (rule load[OF p ctx])
  have "co_pc c1 t = Ring j a (cx_tail ctx) (cx_head ctx)" "g_ctx (co_g c1) a = Some ctx"
    "emit_all pack (ring_window ctx (cx_tail ctx) (cx_head ctx)) (Some (co_g c1)) = Some g1"
    using ctx g1(1) by (simp_all add: c1_def ring_contents_def)
  from ring_alone[OF this] obtain ss rs where
    2: "steps pack t c1 (goto t (Ring j a (cx_head ctx) (cx_head ctx)) (c1\<lparr>co_g := g1, co_given := ss, co_from := rs\<rparr>))" by blast
  note s = same_threadsD[OF emit_all_same[OF g1(1)]]
  let ?q = "At j (case j of JDrain \<Rightarrow> next_ctx a (g_threads (co_g c)) | JUnreg \<Rightarrow> None)"
  have 3: "conc_step pack t (goto t (Ring j a (cx_head ctx) (cx_head ctx)) (c1\<lparr>co_g := g1, co_given := ss, co_from := rs\<rparr>))
      (goto t ?q (c\<lparr>co_g := g, co_given := ss, co_from := rs\<rparr>))"
    using publish[of "goto t (Ring j a (cx_head ctx) (cx_head ctx)) (c1\<lparr>co_g := g1, co_given := ss, co_from := rs\<rparr>)" t j a "cx_head ctx" ctx pack]
      ctx s g1(2) by (simp add: c1_def goto_upd goto_goto cong: job.case_cong)
  have "steps pack t c (goto t ?q (c\<lparr>co_g := g, co_given := ss, co_from := rs\<rparr>))"
    using step_steps[OF 1] 2 3 by (meson rtranclp.rtrancl_into_rtrancl)
  then show ?thesis
    using g1(2) s(1) by auto
qed

subsection \<open>A whole drain\<close>

lemma next_first: "a \<notin> set pre \<Longrightarrow> next_ctx a (pre @ a # as) = first_ctx as"
  by (induction pre) auto

lemma same_given: "c\<lparr>co_g := co_g c, co_given := co_given c, co_from := co_from c\<rparr> = c"
  by simp

lemma loop_alone:
  assumes "co_pc c t = At JDrain (first_ctx as)" and "g_threads (co_g c) = pre @ as" and "distinct (pre @ as)"
    and "drain_all pack as n (co_g c) = Some (g, m)"
  shows "\<exists>ss rs. steps pack t c (goto t (At JDrain None) (c\<lparr>co_g := g, co_given := ss, co_from := rs\<rparr>))"
  using assms
proof (induction as arbitrary: c pre n)
  case Nil
  then have "goto t (At JDrain None) (c\<lparr>co_g := g, co_given := co_given c, co_from := co_from c\<rparr>) = c"
    by (simp add: first_ctx_def goto_self)
  then show ?case
    by (metis rtranclp.rtrancl_refl)
next
  case (Cons a as)
  obtain g1 k where g1: "drain_one pack a (co_g c) = Some (g1, k)" "drain_all pack as (n + k) g1 = Some (g, m)"
    using Cons.prems(4) by (cases "drain_one pack a (co_g c)") auto
  have "co_pc c t = At JDrain (Some a)"
    using Cons.prems(1) by (simp add: first_ctx_def)
  from visit_alone[OF this g1(1)] obtain ss rs where
    1: "steps pack t c (goto t (At JDrain (next_ctx a (g_threads (co_g c)))) (c\<lparr>co_g := g1, co_given := ss, co_from := rs\<rparr>))"
    and th: "g_threads g1 = g_threads (co_g c)" by auto
  define c1 where "c1 = goto t (At JDrain (first_ctx as)) (c\<lparr>co_g := g1, co_given := ss, co_from := rs\<rparr>)"
  have "next_ctx a (g_threads (co_g c)) = first_ctx as"
    using Cons.prems(2,3) next_first by simp
  with 1 have 2: "steps pack t c c1"
    by (simp add: c1_def)
  have "co_pc c1 t = At JDrain (first_ctx as)" "g_threads (co_g c1) = (pre @ [a]) @ as" "distinct ((pre @ [a]) @ as)"
    "drain_all pack as (n + k) (co_g c1) = Some (g, m)"
    using Cons.prems(2,3) th g1(2) by (simp_all add: c1_def)
  from Cons.IH[OF this] obtain ss' rs' where
    "steps pack t c1 (goto t (At JDrain None) (c1\<lparr>co_g := g, co_given := ss', co_from := rs'\<rparr>))" by blast
  with 2 have "steps pack t c (goto t (At JDrain None) (c1\<lparr>co_g := g, co_given := ss', co_from := rs'\<rparr>))"
    by (rule rtranclp_trans)
  then show ?case
    by (auto simp: c1_def goto_upd goto_goto)
qed

lemma drain_alone_ok:
  assumes p: "co_pc c t = Outside" and free: "co_drain c = None" "co_writer c = None" "t \<notin> co_readers c"
    and d: "distinct (g_threads (co_g c))" and run: "otel_drain pack (co_g c) = Some (g, n)"
  shows "\<exists>ss rs. steps pack t c (c\<lparr>co_g := g, co_given := ss, co_from := rs\<rparr>)"
proof (cases "g_enabled (co_g c)")
  case False
  then have "c\<lparr>co_g := g, co_given := co_given c, co_from := co_from c\<rparr> = c"
    using run by (simp add: otel_drain_def)
  then show ?thesis by (metis rtranclp.rtrancl_refl)
next
  case True
  then obtain g1 gf where g1: "drain_all pack (g_threads (sink_begin (co_g c))) 0 (sink_begin (co_g c)) = Some (g1, n)"
    "otlp_flush_g pack g1 = Some gf" "g = sink_end gf"
    using run same_threadsD(1)[OF same_threads_begin, of "co_g c"]
    by (auto simp: otel_drain_def split: bind_splits)
  let ?ts = "g_threads (sink_begin (co_g c))"
  have ts: "?ts = g_threads (co_g c)"
    using same_threadsD(1)[OF same_threads_begin] .
  define l where "l = c\<lparr>co_drain := Some t, co_readers := insert t (co_readers c)\<rparr>"
  have 1: "steps pack t c (goto t (Locked JDrain) l)"
    using drain_call[OF p True, of pack] lock_drain[of "goto t (WantDrain JDrain) c" t JDrain pack]
      lock_read[of "goto t (WantReg JDrain) (c\<lparr>co_drain := Some t\<rparr>)" t pack] free
    by (simp add: l_def goto_upd goto_goto)
  have 2: "conc_step pack t (goto t (Locked JDrain) l) (goto t (At JDrain (first_ctx ?ts)) (l\<lparr>co_g := sink_begin (co_g c)\<rparr>))"
    using begin_drain[of "goto t (Locked JDrain) l" t pack] ts by (simp add: l_def goto_upd goto_goto)
  have "\<exists>ss rs. steps pack t (goto t (At JDrain (first_ctx ?ts)) (l\<lparr>co_g := sink_begin (co_g c)\<rparr>))
      (goto t (At JDrain None) (goto t (At JDrain (first_ctx ?ts)) (l\<lparr>co_g := sink_begin (co_g c)\<rparr>)\<lparr>co_g := g1, co_given := ss, co_from := rs\<rparr>))"
    by (rule loop_alone[where pre = "[]" and n = 0 and m = n]) (use d g1(1) ts in simp_all)
  then obtain ss rs where 3: "steps pack t (goto t (At JDrain (first_ctx ?ts)) (l\<lparr>co_g := sink_begin (co_g c)\<rparr>))
      (goto t (At JDrain None) (l\<lparr>co_g := g1, co_given := ss, co_from := rs\<rparr>))"
    by (auto simp: goto_upd goto_goto l_def)
  have 4: "conc_step pack t (goto t (At JDrain None) (l\<lparr>co_g := g1, co_given := ss, co_from := rs\<rparr>))
      (goto t (Ended JDrain) (l\<lparr>co_g := g, co_given := ss, co_from := rs\<rparr>))"
    using finish[of "goto t (At JDrain None) (l\<lparr>co_g := g1, co_given := ss, co_from := rs\<rparr>)" t JDrain pack gf] g1(2,3)
    by (simp add: goto_upd goto_goto)
  have "co_readers c - {t} = co_readers c"
    using free by simp
  then have 5: "conc_step pack t (goto t (Ended JDrain) (l\<lparr>co_g := g, co_given := ss, co_from := rs\<rparr>))
      (goto t (RelDrain JDrain) (c\<lparr>co_drain := Some t, co_g := g, co_given := ss, co_from := rs\<rparr>))"
    using unlock_read[of "goto t (Ended JDrain) (l\<lparr>co_g := g, co_given := ss, co_from := rs\<rparr>)" t pack]
    by (simp add: l_def goto_upd goto_goto)
  have eq: "c\<lparr>co_g := g, co_given := ss, co_from := rs, co_drain := None\<rparr> = c\<lparr>co_g := g, co_given := ss, co_from := rs\<rparr>"
    using free(1) by (intro conc.equality) simp_all
  have 6: "conc_step pack t (goto t (RelDrain JDrain) (c\<lparr>co_drain := Some t, co_g := g, co_given := ss, co_from := rs\<rparr>))
      (c\<lparr>co_g := g, co_given := ss, co_from := rs\<rparr>)"
    using unlock_drain[of "goto t (RelDrain JDrain) (c\<lparr>co_drain := Some t, co_g := g, co_given := ss, co_from := rs\<rparr>)" t JDrain pack] p eq
    by (simp add: goto_upd goto_goto goto_self)
  show ?thesis
    using 1 2 3 4 5 6 by (meson rtranclp.rtrancl_into_rtrancl rtranclp_trans)
qed

lemma drain_one_fields:
  assumes "drain_one pack a g = Some (h, n)"
  shows "g_tls h = g_tls g" and "g_threads h = g_threads g" and "g_enabled h = g_enabled g"
proof -
  obtain ctx where ctx: "g_ctx g a = Some ctx"
    using assms by (cases "g_ctx g a") (simp_all add: drain_one_def)
  then obtain g1 where g1: "emit_all pack (ring_contents ctx) (Some g) = Some g1" "\<exists>c. h = g1\<lparr>g_ctx := c\<rparr>"
    using assms by (cases "emit_all pack (ring_contents ctx) (Some g)") (auto simp: drain_one_def otel_drain_ctx_eq emit_all_def)
  show "g_tls h = g_tls g" and "g_threads h = g_threads g" and "g_enabled h = g_enabled g"
    using same_threadsD[OF emit_all_same[OF g1(1)]] g1(2) by (auto simp: config_def)
qed

text \<open>From the unlinked context to the end of \<^verbatim>\<open>otel_thread_unregister\<close>.\<close>

lemma leave_alone:
  assumes p: "co_pc c t = Outside" and free: "co_drain c = None" "co_writer c = None" and a: "g_tls g t = Some a"
  shows "steps pack t (goto t Unlinked (c\<lparr>co_drain := Some t, co_writer := Some t, co_g := g, co_given := ss, co_from := rs, co_off := us\<rparr>))
    (c\<lparr>co_g := g\<lparr>g_ctx := (g_ctx g)(a := None), g_tls := (g_tls g)(t := None)\<rparr>, co_given := ss, co_from := rs, co_off := us\<rparr>)"
proof -
  define c2 where "c2 = goto t Unlinked (c\<lparr>co_drain := Some t, co_writer := Some t, co_g := g, co_given := ss, co_from := rs, co_off := us\<rparr>)"
  define c3 where "c3 = goto t (RelDrain JUnreg) (c\<lparr>co_drain := Some t, co_g := g, co_given := ss, co_from := rs, co_off := us\<rparr>)"
  define c4 where "c4 = goto t Freeing (c\<lparr>co_g := g, co_given := ss, co_from := rs, co_off := us\<rparr>)"
  let ?h = "g\<lparr>g_ctx := (g_ctx g)(a := None), g_tls := (g_tls g)(t := None)\<rparr>"
  have "goto t (RelDrain JUnreg) (c2\<lparr>co_writer := None\<rparr>) = c3" "goto t Freeing (c3\<lparr>co_drain := None\<rparr>) = c4"
    "goto t Outside (c4\<lparr>co_g := ?h\<rparr>) = c\<lparr>co_g := ?h, co_given := ss, co_from := rs, co_off := us\<rparr>"
    using free p by (auto intro!: conc.equality simp: c2_def c3_def c4_def goto_def)
  then have "conc_step pack t c2 c3" "conc_step pack t c3 c4" "conc_step pack t c4 (c\<lparr>co_g := ?h, co_given := ss, co_from := rs, co_off := us\<rparr>)"
    using unlock_write[of c2 t pack] unlock_drain[of c3 t JUnreg pack] Otel_Concurrent.free[of c4 t a pack] a
    by (simp_all add: c2_def c3_def c4_def)
  then have "steps pack t c2 (c\<lparr>co_g := ?h, co_given := ss, co_from := rs, co_off := us\<rparr>)"
    by (meson converse_rtranclp_into_rtranclp rtranclp.rtrancl_refl)
  then show ?thesis
    by (simp add: c2_def)
qed

text \<open>A pass over the own ring, with tracing on.\<close>

lemma pass_alone:
  assumes p: "co_pc c t = Locked JUnreg" and en: "g_enabled (co_g c)" and a: "g_tls (co_g c) t = Some a"
    and d: "drain_one pack a (sink_begin (co_g c)) = Some (g, n)" and f: "otlp_flush_g pack g = Some gf"
  shows "\<exists>ss rs. steps pack t c (goto t (Ended JUnreg) (c\<lparr>co_g := sink_end gf, co_given := ss, co_from := rs\<rparr>))"
proof -
  define c1 where "c1 = goto t (At JUnreg (Some a)) (c\<lparr>co_g := sink_begin (co_g c)\<rparr>)"
  have 1: "conc_step pack t c c1"
    using begin_unreg[OF p en, of pack] a by (simp add: c1_def)
  have "co_pc c1 t = At JUnreg (Some a)" "drain_one pack a (co_g c1) = Some (g, n)"
    using d by (simp_all add: c1_def)
  from visit_alone[OF this] obtain ss rs where
    2: "steps pack t c1 (goto t (At JUnreg None) (c\<lparr>co_g := g, co_given := ss, co_from := rs\<rparr>))"
    by (auto simp: c1_def goto_upd goto_goto)
  have 3: "conc_step pack t (goto t (At JUnreg None) (c\<lparr>co_g := g, co_given := ss, co_from := rs\<rparr>))
      (goto t (Ended JUnreg) (c\<lparr>co_g := sink_end gf, co_given := ss, co_from := rs\<rparr>))"
    using finish[of "goto t (At JUnreg None) (c\<lparr>co_g := g, co_given := ss, co_from := rs\<rparr>)" t JUnreg pack gf] f by (simp add: goto_upd goto_goto)
  show ?thesis
    using step_steps[OF 1 2] 3 by (meson rtranclp.rtrancl_into_rtrancl)
qed

lemma unregister_alone_ok:
  assumes p: "co_pc c t = Outside" and free: "co_drain c = None" "co_writer c = None" "co_readers c = {}"
    and run: "otel_thread_unregister pack t (co_g c) = Some g"
  shows "\<exists>ss rs us. steps pack t c (c\<lparr>co_g := g, co_given := ss, co_from := rs, co_off := us\<rparr>)"
proof (cases "g_tls (co_g c) t")
  case None
  then have "c\<lparr>co_g := g, co_given := co_given c, co_from := co_from c, co_off := co_off c\<rparr> = c"
    using run by (simp add: otel_thread_unregister_def)
  then show ?thesis by (metis rtranclp.rtrancl_refl)
next
  case (Some a)
  obtain ctx where ctx: "g_ctx (co_g c) a = Some ctx"
    using run Some by (cases "g_ctx (co_g c) a") (simp_all add: otel_thread_unregister_def)
  define l where "l = goto t (Locked JUnreg) (c\<lparr>co_drain := Some t, co_writer := Some t\<rparr>)"
  have 1: "steps pack t c l"
    using unreg_call[OF p, of pack] lock_drain[of "goto t (WantDrain JUnreg) c" t JUnreg pack]
      lock_write[of "goto t (WantReg JUnreg) (c\<lparr>co_drain := Some t\<rparr>)" t pack] free Some
    by (simp add: l_def goto_upd goto_goto)
  have out: ?thesis if h: "steps pack t l (goto t Unlinked (l\<lparr>co_g := h, co_given := ss, co_from := rs, co_off := us\<rparr>))" "g_tls h t = Some a"
      "g = h\<lparr>g_ctx := (g_ctx h)(a := None), g_tls := (g_tls h)(t := None)\<rparr>" for h ss rs us
  proof -
    have "goto t Unlinked (l\<lparr>co_g := h, co_given := ss, co_from := rs, co_off := us\<rparr>) =
      goto t Unlinked (c\<lparr>co_drain := Some t, co_writer := Some t, co_g := h, co_given := ss, co_from := rs, co_off := us\<rparr>)"
      by (simp add: l_def goto_upd goto_goto)
    then have "steps pack t c (c\<lparr>co_g := g, co_given := ss, co_from := rs, co_off := us\<rparr>)"
      using rtranclp_trans[OF rtranclp_trans[OF 1 h(1)]] leave_alone[OF p free(1,2) h(2), where pack = pack and ss = ss and rs = rs and us = us] h(3) by simp
    then show ?thesis by blast
  qed
  show ?thesis
  proof (cases "g_enabled (co_g c)")
    case False
    define h where "h = (co_g c)\<lparr>g_threads := remove1 a (g_threads (co_g c))\<rparr>"
    have "conc_step pack t l (goto t Skipped l)"
      using begin_off[of l t pack] False by (simp add: l_def)
    moreover have "conc_step pack t (goto t Skipped l)
        (goto t Unlinked (l\<lparr>co_g := h, co_given := co_given c, co_from := co_from c, co_off := co_off c @ queued (co_g c) a\<rparr>))"
      using unlink_off[of "goto t Skipped l" t a pack] Some
      by (auto simp: l_def h_def goto_def intro!: back_subst[where P = "conc_step pack t _"] conc.equality)
    ultimately have "steps pack t l (goto t Unlinked (l\<lparr>co_g := h, co_given := co_given c, co_from := co_from c, co_off := co_off c @ queued (co_g c) a\<rparr>))"
      by (meson converse_rtranclp_into_rtranclp rtranclp.rtrancl_refl)
    then show ?thesis
      by (rule out) (use run Some ctx False in \<open>simp_all add: h_def otel_thread_unregister_def\<close>)
  next
    case True
    obtain g1 n gf where g1: "drain_one pack a (sink_begin (co_g c)) = Some (g1, n)" and gf: "otlp_flush_g pack g1 = Some gf"
      using run Some True ctx by (auto simp: otel_thread_unregister_def split: bind_splits)
    define g2 where "g2 = sink_end gf"
    have tls: "g_tls g2 t = Some a"
      using drain_one_fields(1)[OF g1] same_threadsD(2)[OF same_threads_begin] same_threadsD(2)[OF same_threads_finish[OF gf]] Some
      by (simp add: g2_def)
    obtain ss rs where 2: "steps pack t l (goto t (Ended JUnreg) (l\<lparr>co_g := g2, co_given := ss, co_from := rs\<rparr>))"
      using pass_alone[of l t a pack g1 n gf] True Some g1 gf by (auto simp: l_def g2_def)
    define e where "e = goto t (Ended JUnreg) (l\<lparr>co_g := g2, co_given := ss, co_from := rs\<rparr>)"
    have "conc_step pack t e (goto t Unlinked (e\<lparr>co_g := (co_g e)\<lparr>g_threads := remove1 a (g_threads (co_g e))\<rparr>\<rparr>))"
      by (rule unlink) (simp_all add: e_def tls)
    moreover have "goto t Unlinked (e\<lparr>co_g := (co_g e)\<lparr>g_threads := remove1 a (g_threads (co_g e))\<rparr>\<rparr>) =
        goto t Unlinked (l\<lparr>co_g := g2\<lparr>g_threads := remove1 a (g_threads g2)\<rparr>, co_given := ss, co_from := rs, co_off := co_off c\<rparr>)"
      by (rule conc.equality) (simp_all add: e_def l_def goto_def)
    ultimately have "steps pack t l (goto t Unlinked (l\<lparr>co_g := g2\<lparr>g_threads := remove1 a (g_threads g2)\<rparr>, co_given := ss, co_from := rs, co_off := co_off c\<rparr>))"
      using 2 unfolding e_def by (metis rtranclp.rtrancl_into_rtrancl)
    then show ?thesis
      by (rule out) (use run Some ctx True g1 gf tls in \<open>simp_all add: otel_thread_unregister_def g2_def\<close>)
  qed
qed

end
