(* ===== verification/Otel_Concurrent_Theorems.thy ===== *)
theory Otel_Concurrent_Theorems
  imports Otel_Concurrent_Balance Otel_Concurrent_Live Otel_Concurrent_Alone Otel_Tracer_Theorems
begin

text \<open>
  What holds of the tracer however its threads are scheduled: calls are safe, spans are conserved,
  calls return, and one call by itself is the sequential operation.
\<close>

subsection \<open>A run to evaluate\<close>

lemma reachable_step: "conc_reachable pack g c \<Longrightarrow> conc_step pack t c c' \<Longrightarrow> conc_reachable pack g c'"
  unfolding conc_reachable_def by (rule rtranclp.rtrancl_into_rtrancl) blast+

text \<open>Thread 1 is about to visit the ring in which thread 0 has a span waiting.\<close>

definition mid_drain :: conc where
  "mid_drain = goto 1 (At JDrain (Some 0)) ((conc_start busy_tracer)\<lparr>co_drain := Some 1, co_readers := {1},
     co_g := sink_begin busy_tracer\<rparr>)"

lemma mid_drain: "conc_reachable pack busy_tracer mid_drain" "co_pc mid_drain 1 = At JDrain (Some 0)"
proof -
  define c0 where "c0 = conc_start busy_tracer"
  define c1 where "c1 = goto 1 (WantDrain JDrain) c0"
  define c2 where "c2 = goto 1 (WantReg JDrain) (c1\<lparr>co_drain := Some 1\<rparr>)"
  define c3 where "c3 = goto 1 (Locked JDrain) (c2\<lparr>co_readers := {1}\<rparr>)"
  have "conc_step pack 1 c0 c1" "conc_step pack 1 c1 c2" "conc_step pack 1 c2 c3" "conc_step pack 1 c3 mid_drain"
    using drain_call[of c0 1 pack] lock_drain[of c1 1 JDrain pack] lock_read[of c2 1 pack] begin_drain[of c3 1 pack]
    by (simp_all add: c0_def c1_def c2_def c3_def mid_drain_def conc_start_def goto_def first_ctx_def)
  moreover have "conc_reachable pack busy_tracer c0"
    by (simp add: conc_reachable_def c0_def)
  ultimately show "conc_reachable pack busy_tracer mid_drain"
    using reachable_step by blast
  show "co_pc mid_drain 1 = At JDrain (Some 0)"
    by (simp add: mid_drain_def)
qed

lemma conc_balance:
  assumes ok: "tracer_ok g" and r: "conc_reachable pack g c"
  shows "sink_bal g c \<and> frame_bal pack g c \<and> span_bal g c \<and> live_bal c"
  using r unfolding conc_reachable_def
proof (induction rule: rtranclp_induct)
  case base
  have "waiting_in None g = queued g"
    by (simp add: fun_eq_iff waiting_queued)
  then have "span_bal g (conc_start g)"
    by (simp add: span_bal_def conc_start_def all_waiting_def walker_def all_queued_def)
  moreover have "frame_bal pack g (conc_start g)"
    using ok by (auto simp: frame_bal_def conc_start_def all_sent_def tracer_ok_def intro!: exI[of _ "[]"])
  ultimately show ?case
    by (simp add: sink_bal_def live_bal_def conc_start_def)
next
  case (step c c')
  then obtain t where s: "conc_step pack t c c'" by blast
  have inv: "conc_inv g c"
    using conc_inv_reachable[OF ok] step.hyps(1) by (simp add: conc_reachable_def)
  show ?case
    using step.IH step_sink[OF s inv] step_frames[OF s inv] step_spans[OF s inv] step_live[OF s inv] by blast
qed

subsection \<open>Properties\<close>




text \<open>C4: no span disappears uncounted while tracing is live, whatever threads come, go, drain and
  record at the same time: at every moment the recorded spans ended so far, with those queued at
  the start, are exactly those given to the consumers, those waiting in a ring, those lost, and
  those freed in the ring of a thread that left while tracing was off; the drop counter moved by the
  number of lost ones (modulo its 64 bits), and if tracing was never off none was freed.  What
  was given is what the sink was called with, in order.  The frames and the open batch hold one
  span for each given one, in order, and it shows what was given unless the span's ring slot was
  written again before the batch was packed (its number is then in \<^verbatim>\<open>co_hit\<close>): the batch points
  into slots that the drain has already given back to the owner of the ring.\<close>

theorem concurrent_spans_conserved:
  assumes "tracer_ok g" and "conc_reachable pack g c"
  shows "(\<exists>lost. mset (co_given c) + mset (all_waiting c) + lost + mset (co_off c) = mset (all_queued g) + mset (co_ended c) \<and>
      g_dropped_spans (co_g c) = g_dropped_spans g + of_nat (size lost)) \<and> (co_live c \<longrightarrow> co_off c = []) \<and>
    filter is_span_event (g_sink_log (co_g c)) =
      filter is_span_event (g_sink_log g) @ (if sink_spans g then map SSpan (co_given c) else []) \<and>
    (g_initialized g \<and> g_transport g \<longrightarrow>
      (\<exists>msgs. all_sent pack (ex_frames (g_export g)) (g_export (co_g c)) msgs \<and> length msgs = length (co_given c) \<and>
        (\<forall>i < length (co_given c). i \<in> co_hit c \<or> msgs ! i = msg_of (co_given c ! i))))"
  using conc_balance[OF assms] unfolding sink_bal_def frame_bal_def span_bal_def live_bal_def by blast

lemma concurrent_spans_conserved_witness:
  "\<exists>lost. mset (co_given mid_drain) + mset (all_waiting mid_drain) + lost = {#sample_span#}"
proof -
  have "co_ended mid_drain = []" "co_live mid_drain"
    by (simp_all add: mid_drain_def conc_start_def)
  then show ?thesis
    using concurrent_spans_conserved[OF busy_tracer(2) mid_drain(1)[of "\<lambda>ms. []"]] by (auto simp: busy_queued)
qed

text \<open>C6: no schedule deadlocks and every call returns: from any reachable state the calls going on take
  a bounded number of further steps in all, even if other threads keep recording spans, and as
  long as one of them has not returned, one of them can step.\<close>

theorem concurrent_calls_return:
  assumes "tracer_ok g" and "conc_reachable pack g c"
  shows "\<exists>bound. \<forall>n c'. serves pack c n c' \<longrightarrow> n \<le> bound \<and>
    ((\<exists>t. co_pc c' t \<noteq> Outside) \<longrightarrow> (\<exists>t c''. co_pc c' t \<noteq> Outside \<and> conc_step pack t c' c''))"
proof (intro exI[of _ "work c"] allI impI)
  fix n c' assume s: "serves pack c n c'"
  from serves_bound[OF s conc_inv_reachable[OF assms] finite_busy[OF assms(2)]]
  have "n + work c' \<le> work c" "conc_inv g c'" by auto
  then show "n \<le> work c \<and> ((\<exists>t. co_pc c' t \<noteq> Outside) \<longrightarrow> (\<exists>t c''. co_pc c' t \<noteq> Outside \<and> conc_step pack t c' c''))"
    using no_deadlock by auto
qed

lemma concurrent_calls_return_witness:
  "\<exists>t c''. co_pc mid_drain t \<noteq> Outside \<and> conc_step (\<lambda>ms. []) t mid_drain c''"
proof -
  have "co_pc mid_drain 1 \<noteq> Outside"
    using mid_drain(2) by simp
  then show ?thesis
    using concurrent_calls_return[OF busy_tracer(2) mid_drain(1)[of "\<lambda>ms. []"]] serves_refl[of "\<lambda>ms. []" mid_drain] by blast
qed

text \<open>C19: a call that meets no interference does what the sequential model of the tracer says: with the
  locks free, the steps of one thread lead from the state before \<^verbatim>\<open>otel_thread_register\<close>, \<^verbatim>\<open>otel_drain\<close>
  or \<^verbatim>\<open>otel_thread_unregister\<close> to the state that the operation returns.\<close>

theorem calls_alone_are_sequential:
  assumes "co_pc c t = Outside" and "co_drain c = None" and "co_writer c = None" and "co_readers c = {}"
    and "distinct (g_threads (co_g c))"
  shows "(g_tls (co_g c) t \<noteq> None \<or> (conc_step pack t)\<^sup>*\<^sup>* c (c\<lparr>co_g := otel_thread_register t seed now (co_g c)\<rparr>)) \<and>
    (\<forall>g n. otel_drain pack (co_g c) = Some (g, n) \<longrightarrow>
       (\<exists>ss rs. (conc_step pack t)\<^sup>*\<^sup>* c (c\<lparr>co_g := g, co_given := ss, co_from := rs\<rparr>))) \<and>
    (\<forall>g. otel_thread_unregister pack t (co_g c) = Some g \<longrightarrow>
       (\<exists>ss rs us. (conc_step pack t)\<^sup>*\<^sup>* c (c\<lparr>co_g := g, co_given := ss, co_from := rs, co_off := us\<rparr>)))"
  using register_alone[OF assms(1,3,4)] drain_alone_ok[OF assms(1-3) _ assms(5)] unregister_alone_ok[OF assms(1-4)] assms(4)
  by blast

lemma calls_alone_are_sequential_witness:
  "\<exists>h ss rs. otel_drain (\<lambda>ms. []) busy_tracer = Some (h, 1) \<and>
     (conc_step (\<lambda>ms. []) 1)\<^sup>*\<^sup>* (conc_start busy_tracer) ((conc_start busy_tracer)\<lparr>co_g := h, co_given := ss, co_from := rs\<rparr>)"
proof -
  obtain h where h: "otel_drain (\<lambda>ms. []) busy_tracer = Some (h, 1)"
    using drain_ok[OF busy_tracer(2), of "\<lambda>ms. []"] by (auto simp: busy_queued)
  moreover have "\<exists>ss rs. (conc_step (\<lambda>ms. []) 1)\<^sup>*\<^sup>* (conc_start busy_tracer) ((conc_start busy_tracer)\<lparr>co_g := h, co_given := ss, co_from := rs\<rparr>)"
    using calls_alone_are_sequential[of "conc_start busy_tracer" 1 "\<lambda>ms. []"] h by (simp add: conc_start_def)
  ultimately show ?thesis by blast
qed

subsection \<open>Two threads that switch tracing\<close>

text \<open>\<^verbatim>\<open>otel_set_enabled\<close> takes no lock: of two calls at the same time, one that turns tracing off can
  return after the last store of \<^verbatim>\<open>OT.runtime_on\<close> and still leave tracing on.\<close>

lemma enabled_flag_race:
  assumes "g_enabled (otel_recompute_enabled (g\<lparr>g_runtime_on := True\<rparr>))"
  shows "\<exists>c. conc_reachable pack g c \<and> (\<forall>t. co_pc c t = Outside) \<and> \<not> g_runtime_on (co_g c) \<and> g_enabled (co_g c)"
proof -
  define c0 where "c0 = conc_start g"
  define c1 where "c1 = goto 0 EnStored (c0\<lparr>co_g := g\<lparr>g_runtime_on := True\<rparr>\<rparr>)"
  define c2 where "c2 = goto 0 (EnRead True) c1"
  define c3 where "c3 = goto 1 EnStored (c2\<lparr>co_g := g\<lparr>g_runtime_on := False\<rparr>\<rparr>)"
  define c4 where "c4 = goto 1 (EnRead False) c3"
  define c5 where "c5 = goto 1 Outside (c4\<lparr>co_g := (co_g c4)\<lparr>g_enabled := False\<rparr>, co_live := co_live c4 \<and> False\<rparr>)"
  define c6 where "c6 = goto 0 Outside (c5\<lparr>co_g := (co_g c5)\<lparr>g_enabled := True\<rparr>, co_live := co_live c5 \<and> True\<rparr>)"
  note defs = c0_def c1_def c2_def c3_def c4_def c5_def c6_def conc_start_def
  have "conc_step pack 0 c0 c1" "conc_step pack 0 c1 c2" "conc_step pack 1 c2 c3"
    using enable_call[of c0 0 pack True] enable_read[of c1 0 pack] enable_call[of c2 1 pack False] assms
    by (simp_all add: defs)
  moreover have "conc_step pack 1 c3 c4" "conc_step pack 1 c4 c5" "conc_step pack 0 c5 c6"
    using enable_read[of c3 1 pack] enable_store[of c4 1 False pack] enable_store[of c5 0 True pack]
    by (simp_all add: defs otel_recompute_enabled_def)
  moreover have "conc_reachable pack g c0"
    by (simp add: conc_reachable_def c0_def)
  ultimately have "conc_reachable pack g c6"
    using reachable_step by blast
  moreover have "co_pc c6 t = Outside" for t
    by (simp add: defs)
  moreover have "\<not> g_runtime_on (co_g c6)" "g_enabled (co_g c6)"
    by (simp_all add: defs)
  ultimately show ?thesis by blast
qed

end
