(* ===== verification/Otel_Sink_Race.thy ===== *)
theory Otel_Sink_Race
  imports Otel_Tracer
begin

text \<open>
  Replacing the sink while another thread drains.  \<^verbatim>\<open>otel_set_span_sink\<close> takes no lock: it stores
  \<^verbatim>\<open>OT.sink\<close>, then \<^verbatim>\<open>OT.sink_present\<close>.  A drain tests \<^verbatim>\<open>OT.sink_present\<close> and then loads \<^verbatim>\<open>OT.sink\<close> for
  the test of the callback, for the call and for its \<^verbatim>\<open>priv\<close>.  A step is one of these accesses.
\<close>

subsection \<open>Accesses\<close>

text \<open>The callbacks a pass calls: one begin, one call per span, one end.\<close>

datatype sink_use = UBegin | USpan | UEnd

fun callback :: "sink_use \<Rightarrow> span_sink \<Rightarrow> bool" where
  "callback UBegin sk = sk_begin sk" | "callback USpan sk = sk_span sk" | "callback UEnd sk = sk_end sk"

datatype setter_pc = StoreSink | StorePresent | SetDone

datatype user_pc =
  TestPresent   \<comment> \<open>about to test \<^verbatim>\<open>OT.sink_present\<close>\<close>
| TestCallback  \<comment> \<open>about to test \<^verbatim>\<open>OT.sink->begin\<close>\<close>
| LoadCallback  \<comment> \<open>about to load it for the call\<close>
| LoadPriv      \<comment> \<open>about to load \<^verbatim>\<open>OT.sink->priv\<close>\<close>
| Fault         \<comment> \<open>followed or called a null pointer\<close>

record sink_race =
  sr_sink :: "span_sink option"
  sr_present :: bool
  sr_setter :: setter_pc
  sr_user :: user_pc
  sr_uses :: "sink_use list"   \<comment> \<open>the callbacks the pass has still to call\<close>

definition race_start :: "span_sink option \<Rightarrow> sink_use list \<Rightarrow> sink_race" where
  "race_start old uses = \<lparr>sr_sink = old, sr_present = (old \<noteq> None), sr_setter = StoreSink, sr_user = TestPresent, sr_uses = uses\<rparr>"

fun set_step :: "span_sink option \<Rightarrow> sink_race \<Rightarrow> sink_race option" where
  "set_step new r = (case sr_setter r of
     StoreSink \<Rightarrow> Some (r\<lparr>sr_sink := new, sr_setter := StorePresent\<rparr>)
   | StorePresent \<Rightarrow> Some (r\<lparr>sr_present := (new \<noteq> None), sr_setter := SetDone\<rparr>)
   | SetDone \<Rightarrow> None)"

definition use_done :: "sink_race \<Rightarrow> sink_race" where
  "use_done r = r\<lparr>sr_user := TestPresent, sr_uses := tl (sr_uses r)\<rparr>"

fun use_step :: "sink_race \<Rightarrow> sink_race option" where
  "use_step r = (case sr_uses r of [] \<Rightarrow> None | u # _ \<Rightarrow>
     (case (sr_user r, sr_sink r) of
        (TestPresent, _) \<Rightarrow> Some (if sr_present r then r\<lparr>sr_user := TestCallback\<rparr> else use_done r)
      | (Fault, _) \<Rightarrow> None
      | (_, None) \<Rightarrow> Some (r\<lparr>sr_user := Fault\<rparr>)
      | (TestCallback, Some sk) \<Rightarrow> Some (if callback u sk then r\<lparr>sr_user := LoadCallback\<rparr> else use_done r)
      | (LoadCallback, Some sk) \<Rightarrow> Some (if callback u sk then r\<lparr>sr_user := LoadPriv\<rparr> else r\<lparr>sr_user := Fault\<rparr>)
      | (LoadPriv, Some sk) \<Rightarrow> Some (use_done r)))"

inductive race_step :: "span_sink option \<Rightarrow> sink_race \<Rightarrow> sink_race \<Rightarrow> bool" for new r where
  race_set: "set_step new r = Some r' \<Longrightarrow> race_step new r r'"
| race_use: "use_step r = Some r' \<Longrightarrow> race_step new r r'"

definition race_reachable :: "span_sink option \<Rightarrow> span_sink option \<Rightarrow> sink_use list \<Rightarrow> sink_race \<Rightarrow> bool" where
  "race_reachable old new uses r \<longleftrightarrow> (race_step new)\<^sup>*\<^sup>* (race_start old uses) r"

subsection \<open>When it is safe\<close>

text \<open>The replacements that let the pass follow a null pointer.\<close>

definition bad_swap :: "span_sink option \<Rightarrow> span_sink option \<Rightarrow> sink_use list \<Rightarrow> bool" where
  "bad_swap old new uses \<longleftrightarrow> (case (old, new) of
     (Some a, None) \<Rightarrow> uses \<noteq> []
   | (Some a, Some b) \<Rightarrow> (\<exists>u \<in> set uses. callback u a \<and> \<not> callback u b)
   | (None, _) \<Rightarrow> False)"

fun uses_sink :: "user_pc \<Rightarrow> bool" where
  "uses_sink TestCallback = True" | "uses_sink LoadCallback = True" | "uses_sink LoadPriv = True" | "uses_sink _ = False"

definition race_inv :: "span_sink option \<Rightarrow> span_sink option \<Rightarrow> sink_use list \<Rightarrow> sink_race \<Rightarrow> bool" where
  "race_inv old new uses r \<longleftrightarrow> sr_sink r = (if sr_setter r = StoreSink then old else new) \<and>
     sr_present r = ((if sr_setter r = SetDone then new else old) \<noteq> None) \<and> set (sr_uses r) \<subseteq> set uses \<and>
     sr_user r \<noteq> Fault \<and> (uses_sink (sr_user r) \<longrightarrow> sr_sink r \<noteq> None \<and> sr_uses r \<noteq> []) \<and>
     (sr_user r = LoadCallback \<longrightarrow> (\<forall>sk. sr_sink r = Some sk \<longrightarrow> callback (hd (sr_uses r)) sk))"

lemma good_swap:
  assumes "\<not> bad_swap old new uses" and "old = Some a" and "u \<in> set uses"
  shows "new \<noteq> None" and "callback u a \<Longrightarrow> new = Some b \<Longrightarrow> callback u b"
proof -
  show n: "new \<noteq> None"
    using assms by (cases new) (auto simp: bad_swap_def)
  show "callback u a \<Longrightarrow> new = Some b \<Longrightarrow> callback u b"
    using assms by (auto simp: bad_swap_def)
qed

lemma race_invD:
  assumes "race_inv old new uses r"
  shows "sr_sink r = (if sr_setter r = StoreSink then old else new)" "set (sr_uses r) \<subseteq> set uses" "sr_user r \<noteq> Fault"
    "sr_present r = ((if sr_setter r = SetDone then new else old) \<noteq> None)"
    "uses_sink (sr_user r) \<Longrightarrow> sr_sink r \<noteq> None" "uses_sink (sr_user r) \<Longrightarrow> sr_uses r \<noteq> []"
    "sr_user r = LoadCallback \<Longrightarrow> sr_sink r = Some sk \<Longrightarrow> callback (hd (sr_uses r)) sk"
  using assms by (auto simp: race_inv_def)

lemma race_inv_set:
  assumes "race_inv old new uses r" and "\<not> bad_swap old new uses" and "set_step new r = Some r'"
  shows "race_inv old new uses r'"
proof (cases "sr_setter r")
  case StoreSink
  note d = race_invD[OF assms(1)]
  have r': "r' = r\<lparr>sr_sink := new, sr_setter := StorePresent\<rparr>"
    using assms(3) StoreSink by simp
  have "new \<noteq> None \<and> sr_uses r \<noteq> [] \<and> (sr_user r = LoadCallback \<longrightarrow> (\<forall>sk. new = Some sk \<longrightarrow> callback (hd (sr_uses r)) sk))"
    if u: "uses_sink (sr_user r)"
  proof -
    obtain a where a: "old = Some a"
      using d(1,5) u StoreSink by auto
    have h: "sr_uses r \<noteq> []" "hd (sr_uses r) \<in> set uses"
      using d(2,6) u hd_in_set[of "sr_uses r"] by auto
    show ?thesis
      using good_swap[OF assms(2) a h(2)] h(1) d(1) d(7)[of a] a StoreSink by auto
  qed
  then show ?thesis
    using d(2-4) StoreSink by (auto simp: r' race_inv_def)
next
  case StorePresent
  then show ?thesis
    using assms(1,3) by (auto simp: race_inv_def)
qed (use assms(3) in simp)

lemma race_inv_user:
  assumes "race_inv old new uses r" and "p \<noteq> Fault" and "uses_sink p \<Longrightarrow> sr_sink r \<noteq> None \<and> sr_uses r \<noteq> []"
    and "p = LoadCallback \<Longrightarrow> (\<forall>sk. sr_sink r = Some sk \<longrightarrow> callback (hd (sr_uses r)) sk)"
  shows "race_inv old new uses (r\<lparr>sr_user := p\<rparr>)"
  using assms race_invD(1,2,4)[OF assms(1)] by (simp add: race_inv_def)

lemma race_inv_done: "race_inv old new uses r \<Longrightarrow> race_inv old new uses (use_done r)"
  by (cases "sr_uses r") (simp_all add: race_inv_def use_done_def)

lemma race_inv_use:
  assumes "race_inv old new uses r" and "\<not> bad_swap old new uses" and "use_step r = Some r'"
  shows "race_inv old new uses r'"
proof (cases "sr_uses r")
  case (Cons u us)
  note d = race_invD[OF assms(1)] and to = race_inv_user[OF assms(1)] and fin = race_inv_done[OF assms(1)]
  show ?thesis
  proof (cases "sr_user r")
    case TestPresent
    have "sr_sink r \<noteq> None" if "sr_present r"
    proof (cases old)
      case None
      then show ?thesis using d(1,4) that by (auto split: if_splits)
    next
      case (Some a)
      have "u \<in> set uses" using d(2) Cons by simp
      then show ?thesis using good_swap(1)[OF assms(2) Some] d(1) Some by auto
    qed
    then show ?thesis
      using assms(3) Cons TestPresent to[of TestCallback] fin by (auto split: if_splits)
  next
    case TestCallback
    then obtain sk where "sr_sink r = Some sk" using d(5) by auto
    then show ?thesis
      using assms(3) Cons TestCallback to[of LoadCallback] fin by (auto split: if_splits)
  next
    case LoadCallback
    then obtain sk where sk: "sr_sink r = Some sk" using d(5) by auto
    then have "callback u sk" using d(7) LoadCallback Cons by simp
    then show ?thesis
      using assms(3) Cons LoadCallback sk to[of LoadPriv] by simp
  next
    case LoadPriv
    then obtain sk where "sr_sink r = Some sk" using d(5) by auto
    then show ?thesis
      using assms(3) Cons LoadPriv fin by simp
  qed (use d(3) in simp)
qed (use assms(3) in simp)

lemma race_safe:
  assumes "\<not> bad_swap old new uses" and "race_reachable old new uses r"
  shows "race_inv old new uses r"
  using assms(2) unfolding race_reachable_def
proof (induction rule: rtranclp_induct)
  case base
  then show ?case by (simp add: race_inv_def race_start_def)
next
  case (step r r')
  from step.hyps(2) show ?case
    by (rule race_step.cases) (use race_inv_set[OF step.IH assms(1)] race_inv_use[OF step.IH assms(1)] in blast)+
qed

subsection \<open>When it is not\<close>

text \<open>The pass runs undisturbed up to the use of a callback.\<close>

lemma race_skip:
  assumes "sr_sink r = Some sk" and "sr_present r" and "sr_user r = TestPresent" and "sr_uses r = us @ us'"
  shows "(race_step new)\<^sup>*\<^sup>* r (r\<lparr>sr_uses := us'\<rparr>)"
  using assms
proof (induction us arbitrary: r)
  case (Cons u us)
  let ?n = "r\<lparr>sr_user := TestPresent, sr_uses := us @ us'\<rparr>"
  have r: "?n\<lparr>sr_user := TestPresent\<rparr> = ?n" "r\<lparr>sr_user := TestPresent\<rparr> = r"
    using Cons.prems(3) by (simp_all add: sink_race.equality)
  let ?r1 = "r\<lparr>sr_user := TestCallback\<rparr>" and ?r2 = "r\<lparr>sr_user := LoadCallback\<rparr>" and ?r3 = "r\<lparr>sr_user := LoadPriv\<rparr>"
  have 1: "race_step new r ?r1"
    using Cons.prems by (intro race_use) simp
  have "(race_step new)\<^sup>*\<^sup>* ?r1 ?n"
  proof (cases "callback u sk")
    case True
    then have "race_step new ?r1 ?r2" "race_step new ?r2 ?r3" "race_step new ?r3 ?n"
      using Cons.prems by (auto intro!: race_use simp: use_done_def)
    then show ?thesis by (meson converse_rtranclp_into_rtranclp rtranclp.rtrancl_refl)
  next
    case False
    then have "race_step new ?r1 ?n"
      using Cons.prems by (auto intro!: race_use simp: use_done_def)
    then show ?thesis by blast
  qed
  moreover have "(race_step new)\<^sup>*\<^sup>* ?n (?n\<lparr>sr_uses := us'\<rparr>)"
    by (rule Cons.IH) (use Cons.prems in simp_all)
  moreover have "?n\<lparr>sr_uses := us'\<rparr> = r\<lparr>sr_uses := us'\<rparr>"
    using Cons.prems(3) by (simp add: sink_race.equality)
  ultimately show ?case
    using 1 by (metis converse_rtranclp_into_rtranclp rtranclp_trans)
next
  case Nil
  then have "r\<lparr>sr_uses := us'\<rparr> = r"
    by (intro sink_race.equality) simp_all
  then show ?case by simp
qed

lemma race_fault:
  assumes "bad_swap old new uses"
  shows "\<exists>r. race_reachable old new uses r \<and> sr_user r = Fault"
proof -
  obtain a where old: "old = Some a"
    using assms by (auto simp: bad_swap_def split: option.splits)
  let ?r0 = "race_start old uses"
  have skip: "(race_step new)\<^sup>*\<^sup>* ?r0 (?r0\<lparr>sr_uses := us'\<rparr>)" if "uses = us @ us'" for us us'
    using old that by (intro race_skip[where sk = a and us = us]) (simp_all add: race_start_def)
  show ?thesis
  proof (cases new)
    case None
    then obtain u us where uses: "uses = u # us"
      using assms old by (cases uses) (auto simp: bad_swap_def)
    define r1 where "r1 = ?r0\<lparr>sr_user := TestCallback\<rparr>"
    define r2 where "r2 = r1\<lparr>sr_sink := new, sr_setter := StorePresent\<rparr>"
    have "race_step new ?r0 r1" "race_step new r1 r2" "race_step new r2 (r2\<lparr>sr_user := Fault\<rparr>)"
      using uses old None race_use[of ?r0 r1 new] race_set[of new r1 r2] race_use[of r2 "r2\<lparr>sr_user := Fault\<rparr>" new]
      by (simp_all add: r1_def r2_def race_start_def)
    then have "(race_step new)\<^sup>*\<^sup>* ?r0 (r2\<lparr>sr_user := Fault\<rparr>)"
      by (meson converse_rtranclp_into_rtranclp rtranclp.rtrancl_refl)
    then show ?thesis
      unfolding race_reachable_def by (intro exI[of _ "r2\<lparr>sr_user := Fault\<rparr>"]) simp
  next
    case (Some b)
    then obtain u where u: "u \<in> set uses" "callback u a" "\<not> callback u b"
      using assms old by (auto simp: bad_swap_def)
    then obtain us us' where uses: "uses = us @ u # us'"
      by (meson split_list)
    define r0 where "r0 = ?r0\<lparr>sr_uses := u # us'\<rparr>"
    define r1 where "r1 = r0\<lparr>sr_user := TestCallback\<rparr>"
    define r2 where "r2 = r1\<lparr>sr_user := LoadCallback\<rparr>"
    define r3 where "r3 = r2\<lparr>sr_sink := new, sr_setter := StorePresent\<rparr>"
    have "race_step new r0 r1" "race_step new r1 r2" "race_step new r2 r3" "race_step new r3 (r3\<lparr>sr_user := Fault\<rparr>)"
      using old Some u race_use[of r0 r1 new] race_use[of r1 r2 new] race_set[of new r2 r3] race_use[of r3 "r3\<lparr>sr_user := Fault\<rparr>" new]
      by (simp_all add: r0_def r1_def r2_def r3_def race_start_def)
    then have "(race_step new)\<^sup>*\<^sup>* r0 (r3\<lparr>sr_user := Fault\<rparr>)"
      by (meson converse_rtranclp_into_rtranclp rtranclp.rtrancl_refl)
    with skip[OF uses] have "(race_step new)\<^sup>*\<^sup>* ?r0 (r3\<lparr>sr_user := Fault\<rparr>)"
      unfolding r0_def by (rule rtranclp_trans)
    then show ?thesis
      unfolding race_reachable_def by (intro exI[of _ "r3\<lparr>sr_user := Fault\<rparr>"]) simp
  qed
qed

subsection \<open>Property\<close>

text \<open>C35: replacing the sink while another thread is in a drain can make that drain follow or call a null
  pointer exactly when a registered sink is taken away, or is replaced by one that lacks a
  callback the drain still has to call; attaching a first sink is safe in every interleaving,
  because the pointer is stored before the flag.\<close>

theorem sink_swap_faults:
  "(\<exists>r. race_reachable old new uses r \<and> sr_user r = Fault) \<longleftrightarrow>
   (case (old, new) of
      (Some a, None) \<Rightarrow> uses \<noteq> []
    | (Some a, Some b) \<Rightarrow> \<exists>u \<in> set uses. callback u a \<and> \<not> callback u b
    | (None, _) \<Rightarrow> False)"
  using race_safe[of old new uses] race_fault[of old new uses] unfolding bad_swap_def[symmetric] race_inv_def by blast

end
