(* ===== verification/Otel_Wire.thy ===== *)
theory Otel_Wire
  imports Otel_Tracer Otel_Text
begin

text \<open>
  What a collector reads.  \<^verbatim>\<open>otel_init\<close> prepares the resource and scope every request carries; the
  generated packing function writes a request in the protobuf encoding of the messages in
  \<^verbatim>\<open>opentelemetry/proto\<close>.  \<open>wire_request\<close> is that encoding and \<open>read_request\<close> a reader of it.
\<close>

subsection \<open>The scaffolding of a request\<close>

record request_scaffold =
  sf_attrs :: "otlp_kv list"
  sf_name :: "byte list"
  sf_version :: "byte list"

definition otlp_scaffold :: "otel_global \<Rightarrow> request_scaffold" where
  "otlp_scaffold g = \<lparr>sf_attrs = [(ascii ''service.name'', AnyStr (g_service g)), (ascii ''host.name'', AnyStr (g_hostname g))],
     sf_name = g_service g, sf_version = ascii ''0.1.0''\<rparr>"

subsection \<open>Protobuf fields\<close>

text \<open>A message is a list of numbered fields: a varint, eight bytes, or a length and that many bytes.\<close>

datatype wire = WVarint nat | WI64 u64 | WLen "byte list"

fun varint :: "nat \<Rightarrow> byte list" where
  "varint n = (if n < 128 then [of_nat n] else of_nat (128 + n mod 128) # varint (n div 128))"

declare varint.simps [simp del]

fun put_field :: "nat \<times> wire \<Rightarrow> byte list" where
  "put_field (f, WVarint n) = varint (8 * f) @ varint n"
| "put_field (f, WI64 w) = varint (8 * f + 1) @ le_bytes 8 w"
| "put_field (f, WLen bs) = varint (8 * f + 2) @ varint (length bs) @ bs"

definition msg :: "(nat \<times> wire) list \<Rightarrow> byte list" where
  "msg fs = concat (map put_field fs)"

text \<open>A field that has its default value is left out.\<close>

definition opt_len :: "nat \<Rightarrow> byte list \<Rightarrow> (nat \<times> wire) list" where
  "opt_len f bs = (if bs = [] then [] else [(f, WLen bs)])"

definition opt_var :: "nat \<Rightarrow> nat \<Rightarrow> (nat \<times> wire) list" where
  "opt_var f n = (if n = 0 then [] else [(f, WVarint n)])"

definition opt_fix :: "nat \<Rightarrow> u64 \<Rightarrow> (nat \<times> wire) list" where
  "opt_fix f w = (if w = 0 then [] else [(f, WI64 w)])"

subsection \<open>The messages\<close>

fun any_fields :: "otlp_any \<Rightarrow> (nat \<times> wire) list" where
  "any_fields (AnyStr s) = [(1, WLen s)]"
| "any_fields (AnyBool b) = [(2, WVarint (if b = 0 then 0 else 1))]"
| "any_fields (AnyInt w) = [(3, WVarint (unat w))]"
| "any_fields (AnyDbl w) = [(4, WI64 w)]"

definition kv_fields :: "otlp_kv \<Rightarrow> (nat \<times> wire) list" where
  "kv_fields kv = opt_len 1 (fst kv) @ [(2, WLen (msg (any_fields (snd kv))))]"

definition repeated :: "nat \<Rightarrow> ('a \<Rightarrow> (nat \<times> wire) list) \<Rightarrow> 'a list \<Rightarrow> (nat \<times> wire) list" where
  "repeated f enc xs = map (\<lambda>x. (f, WLen (msg (enc x)))) xs"

definition event_fields :: "event_msg \<Rightarrow> (nat \<times> wire) list" where
  "event_fields e = opt_fix 1 (me_time e) @ opt_len 2 (me_name e) @ repeated 3 kv_fields (me_attrs e) @ opt_var 4 (me_dropped e)"

fun kind_number :: "otlp_kind \<Rightarrow> nat" where
  "kind_number KIND_INTERNAL = 1" | "kind_number KIND_SERVER = 2" | "kind_number KIND_CLIENT = 3"
| "kind_number KIND_PRODUCER = 4" | "kind_number KIND_CONSUMER = 5"

fun status_number :: "otlp_status \<Rightarrow> nat" where
  "status_number STATUS_UNSET = 0" | "status_number STATUS_OK = 1" | "status_number STATUS_ERROR = 2"

definition span_fields :: "span_msg \<Rightarrow> (nat \<times> wire) list" where
  "span_fields m = opt_len 1 (ms_trace_id m) @ [(2, WLen (le_bytes 8 (ms_span_id m)))] @
     (case ms_parent_span_id m of None \<Rightarrow> [] | Some p \<Rightarrow> [(4, WLen (le_bytes 8 p))]) @
     opt_len 5 (ms_name m) @ [(6, WVarint (kind_number (ms_kind m)))] @
     opt_fix 7 (ms_start_time m) @ opt_fix 8 (ms_end_time m) @ repeated 9 kv_fields (ms_attrs m) @
     opt_var 10 (ms_dropped_attrs m) @ repeated 11 event_fields (ms_events m) @ opt_var 12 (ms_dropped_events m) @
     [(15, WLen (msg (opt_len 2 (ms_message m) @ opt_var 3 (status_number (ms_status m)))))]"

definition wire_request :: "request_scaffold \<Rightarrow> span_msg list \<Rightarrow> byte list" where
  "wire_request sc ms =
     msg [(1, WLen (msg [(1, WLen (msg (repeated 1 kv_fields (sf_attrs sc)))),
       (2, WLen (msg ((1, WLen (msg (opt_len 1 (sf_name sc) @ opt_len 2 (sf_version sc)))) # repeated 2 span_fields ms)))]))]"

subsection \<open>Reading fields\<close>

fun get_varint :: "byte list \<Rightarrow> (nat \<times> byte list) option" where
  "get_varint [] = None"
| "get_varint (b # bs) = (if unat b < 128 then Some (unat b, bs)
     else do { (n, r) \<leftarrow> get_varint bs; Some (unat b - 128 + 128 * n, r) })"

definition get_field :: "byte list \<Rightarrow> ((nat \<times> wire) \<times> byte list) option" where
  "get_field bs = do {
     (tag, bs) \<leftarrow> get_varint bs;
     (if tag mod 8 = 0 then do { (n, bs) \<leftarrow> get_varint bs; Some ((tag div 8, WVarint n), bs) }
      else if tag mod 8 = 1 then (if length bs < 8 then None else Some ((tag div 8, WI64 (of_le (take 8 bs))), drop 8 bs))
      else if tag mod 8 = 2 then do { (n, bs) \<leftarrow> get_varint bs;
        (if length bs < n then None else Some ((tag div 8, WLen (take n bs)), drop n bs)) }
      else None) }"

text \<open>A field has at least one byte, so the length of the input bounds the number of fields.\<close>

fun get_fields :: "nat \<Rightarrow> byte list \<Rightarrow> (nat \<times> wire) list option" where
  "get_fields k [] = Some []"
| "get_fields 0 (b # bs) = None"
| "get_fields (Suc k) (b # bs) = do { (x, r) \<leftarrow> get_field (b # bs); fs \<leftarrow> get_fields k r; Some (x # fs) }"

definition read_msg :: "byte list \<Rightarrow> (nat \<times> wire) list option" where
  "read_msg bs = get_fields (length bs) bs"

lemma unat_byte: "n < 256 \<Longrightarrow> unat (of_nat n :: byte) = n"
  by (rule unat_of_nat_small) simp

lemma get_put_varint: "get_varint (varint n @ r) = Some (n, r)"
proof (induction n rule: varint.induct)
  case (1 n)
  show ?case
  proof (cases "n < 128")
    case True
    then show ?thesis by (simp add: varint.simps[of n] unat_byte)
  next
    case False
    have "unat (of_nat (128 + n mod 128) :: byte) = 128 + n mod 128"
      by (rule unat_byte) (use mod_less_divisor[of 128 n] in linarith)
    then show ?thesis
      using 1[OF False] False by (simp add: varint.simps[of n] del: of_nat_add)
  qed
qed

lemma varint_not_Nil [simp]: "varint n \<noteq> []"
  by (subst varint.simps) simp

lemma get_put_field: "get_field (put_field x @ r) = Some (x, r)"
proof (cases x)
  case (Pair f w)
  have "(8 * f + k) mod 8 = k \<and> (8 * f + k) div 8 = f" if "k < 8" for k
    using that by simp
  from this[of 0] this[of 1] this[of 2] show ?thesis
    by (cases w) (simp_all add: Pair get_field_def get_put_varint of_le_le_bytes)
qed

lemma put_field_not_Nil [simp]: "put_field x \<noteq> []"
  by (cases x rule: put_field.cases) simp_all

lemma get_put_fields: "length (msg fs) \<le> k \<Longrightarrow> get_fields k (msg fs) = Some fs"
proof (induction fs arbitrary: k)
  case Nil
  then show ?case by (simp add: msg_def)
next
  case (Cons x fs)
  obtain b bs where b: "put_field x = b # bs"
    by (meson list.exhaust put_field_not_Nil)
  then obtain k' where k: "k = Suc k'" "length (msg fs) \<le> k'"
    using Cons.prems by (cases k) (auto simp: msg_def)
  have "get_field (b # bs @ msg fs) = Some (x, msg fs)"
    using get_put_field[of x "msg fs"] b by simp
  then show ?case
    using Cons.IH[OF k(2)] b k(1) by (simp add: msg_def)
qed

lemma read_msg_fields [simp]: "read_msg (msg fs) = Some fs"
  by (simp add: read_msg_def get_put_fields)

subsection \<open>Reading a request\<close>

text \<open>The values of one field number; for a field that is not repeated the last one counts.\<close>

fun lens :: "nat \<Rightarrow> (nat \<times> wire) list \<Rightarrow> byte list list" where
  "lens f [] = []"
| "lens f ((g, WLen bs) # fs) = (if g = f then bs # lens f fs else lens f fs)"
| "lens f (x # fs) = lens f fs"

fun vars :: "nat \<Rightarrow> (nat \<times> wire) list \<Rightarrow> nat list" where
  "vars f [] = []"
| "vars f ((g, WVarint n) # fs) = (if g = f then n # vars f fs else vars f fs)"
| "vars f (x # fs) = vars f fs"

fun fixs :: "nat \<Rightarrow> (nat \<times> wire) list \<Rightarrow> u64 list" where
  "fixs f [] = []"
| "fixs f ((g, WI64 w) # fs) = (if g = f then w # fixs f fs else fixs f fs)"
| "fixs f (x # fs) = fixs f fs"

definition last_of :: "'a \<Rightarrow> 'a list \<Rightarrow> 'a" where
  "last_of d xs = (if xs = [] then d else last xs)"

fun read_any :: "(nat \<times> wire) list \<Rightarrow> otlp_any option" where
  "read_any [(f, WLen s)] = (if f = 1 then Some (AnyStr s) else None)"
| "read_any [(f, WVarint n)] = (if f = 2 then Some (AnyBool (of_nat n)) else if f = 3 then Some (AnyInt (of_nat n)) else None)"
| "read_any [(f, WI64 w)] = (if f = 4 then Some (AnyDbl w) else None)"
| "read_any _ = None"

definition read_kv :: "byte list \<Rightarrow> otlp_kv option" where
  "read_kv bs = do { fs \<leftarrow> read_msg bs; as \<leftarrow> read_msg (last_of [] (lens 2 fs)); v \<leftarrow> read_any as;
     Some (last_of [] (lens 1 fs), v) }"

definition read_event :: "byte list \<Rightarrow> event_msg option" where
  "read_event bs = do { fs \<leftarrow> read_msg bs; kvs \<leftarrow> those (map read_kv (lens 3 fs));
     Some \<lparr>me_time = last_of 0 (fixs 1 fs), me_name = last_of [] (lens 2 fs), me_attrs = kvs, me_dropped = last_of 0 (vars 4 fs)\<rparr> }"

definition read_kind :: "nat \<Rightarrow> otlp_kind" where
  "read_kind n = (if n = 2 then KIND_SERVER else if n = 3 then KIND_CLIENT else if n = 4 then KIND_PRODUCER
     else if n = 5 then KIND_CONSUMER else KIND_INTERNAL)"

definition read_status :: "nat \<Rightarrow> otlp_status" where
  "read_status n = (if n = 1 then STATUS_OK else if n = 2 then STATUS_ERROR else STATUS_UNSET)"

definition read_span :: "byte list \<Rightarrow> span_msg option" where
  "read_span bs = do { fs \<leftarrow> read_msg bs;
     kvs \<leftarrow> those (map read_kv (lens 9 fs)); evs \<leftarrow> those (map read_event (lens 11 fs));
     st \<leftarrow> read_msg (last_of [] (lens 15 fs));
     Some \<lparr>ms_trace_id = last_of [] (lens 1 fs), ms_span_id = of_le (last_of [] (lens 2 fs)),
       ms_parent_span_id = (if lens 4 fs = [] then None else Some (of_le (last (lens 4 fs)))),
       ms_name = last_of [] (lens 5 fs), ms_kind = read_kind (last_of 0 (vars 6 fs)),
       ms_start_time = last_of 0 (fixs 7 fs), ms_end_time = last_of 0 (fixs 8 fs),
       ms_status = read_status (last_of 0 (vars 3 st)), ms_message = last_of [] (lens 2 st),
       ms_dropped_attrs = last_of 0 (vars 10 fs), ms_dropped_events = last_of 0 (vars 12 fs),
       ms_attrs = kvs, ms_events = evs\<rparr> }"

definition read_request :: "byte list \<Rightarrow> (request_scaffold \<times> span_msg list) option" where
  "read_request bs = do { req \<leftarrow> read_msg bs; rs \<leftarrow> read_msg (last_of [] (lens 1 req));
     res \<leftarrow> read_msg (last_of [] (lens 1 rs)); ss \<leftarrow> read_msg (last_of [] (lens 2 rs));
     scope \<leftarrow> read_msg (last_of [] (lens 1 ss));
     kvs \<leftarrow> those (map read_kv (lens 1 res)); spans \<leftarrow> those (map read_span (lens 2 ss));
     Some (\<lparr>sf_attrs = kvs, sf_name = last_of [] (lens 1 scope), sf_version = last_of [] (lens 2 scope)\<rparr>, spans) }"

subsection \<open>The reader inverts the encoding\<close>

definition present :: "'a \<Rightarrow> 'a \<Rightarrow> 'a list" where
  "present d x = (if x = d then [] else [x])"

lemma lens_simps [simp]:
  "lens f (xs @ ys) = lens f xs @ lens f ys" "lens f (opt_len g bs) = (if g = f then present [] bs else [])"
  "lens f (opt_var g n) = []" "lens f (opt_fix g w) = []"
  "lens f (repeated g enc as) = (if g = f then map (\<lambda>x. msg (enc x)) as else [])"
proof -
  show "lens f (xs @ ys) = lens f xs @ lens f ys"
    by (induction f xs rule: lens.induct) auto
  show "lens f (repeated g enc as) = (if g = f then map (\<lambda>x. msg (enc x)) as else [])"
    by (induction as) (auto simp: repeated_def)
qed (auto simp: opt_len_def opt_var_def opt_fix_def present_def)

lemma vars_simps [simp]:
  "vars f (xs @ ys) = vars f xs @ vars f ys" "vars f (opt_len g bs) = []"
  "vars f (opt_var g n) = (if g = f then present 0 n else [])" "vars f (opt_fix g w) = []" "vars f (repeated g enc as) = []"
proof -
  show "vars f (xs @ ys) = vars f xs @ vars f ys"
    by (induction f xs rule: vars.induct) auto
  show "vars f (repeated g enc as) = []"
    by (induction as) (auto simp: repeated_def)
qed (auto simp: opt_len_def opt_var_def opt_fix_def present_def)

lemma fixs_simps [simp]:
  "fixs f (xs @ ys) = fixs f xs @ fixs f ys" "fixs f (opt_len g bs) = []"
  "fixs f (opt_fix g w) = (if g = f then present 0 w else [])" "fixs f (opt_var g n) = []" "fixs f (repeated g enc as) = []"
proof -
  show "fixs f (xs @ ys) = fixs f xs @ fixs f ys"
    by (induction f xs rule: fixs.induct) auto
  show "fixs f (repeated g enc as) = []"
    by (induction as) (auto simp: repeated_def)
qed (auto simp: opt_len_def opt_var_def opt_fix_def present_def)

lemma last_of_simps [simp]: "last_of d [] = d" "last_of d [x] = x" "last_of d (present d x) = x"
  by (simp_all add: last_of_def present_def)

lemma those_map: "(\<And>x. x \<in> set xs \<Longrightarrow> h x = Some x) \<Longrightarrow> those (map h xs) = Some xs"
  by (induction xs) auto

text \<open>A boolean attribute holds zero or one.\<close>

fun kv_ok :: "otlp_kv \<Rightarrow> bool" where
  "kv_ok (k, AnyBool b) \<longleftrightarrow> b = 0 \<or> b = 1"
| "kv_ok _ \<longleftrightarrow> True"

definition msg_ok :: "span_msg \<Rightarrow> bool" where
  "msg_ok m \<longleftrightarrow> (\<forall>kv \<in> set (ms_attrs m). kv_ok kv) \<and> (\<forall>e \<in> set (ms_events m). \<forall>kv \<in> set (me_attrs e). kv_ok kv)"

lemma read_kv_fields: "kv_ok kv \<Longrightarrow> read_kv (msg (kv_fields kv)) = Some kv"
  by (cases kv rule: kv_ok.cases) (auto simp: read_kv_def kv_fields_def)

lemma read_event_fields: "\<forall>kv \<in> set (me_attrs e). kv_ok kv \<Longrightarrow> read_event (msg (event_fields e)) = Some e"
  by (cases e) (auto simp: read_event_def event_fields_def those_map read_kv_fields comp_def)

lemma read_kind_number [simp]: "read_kind (kind_number k) = k"
  by (cases k) (simp_all add: read_kind_def)

lemma read_status_number [simp]: "read_status (status_number st) = st"
  by (cases st) (simp_all add: read_status_def)

lemma read_span_fields:
  assumes "msg_ok m"
  shows "read_span (msg (span_fields m)) = Some m"
proof -
  have kvs: "those (map (\<lambda>x. read_kv (msg (kv_fields x))) (ms_attrs m)) = Some (ms_attrs m)"
    using assms by (intro those_map) (simp add: msg_ok_def read_kv_fields)
  have evs: "those (map (\<lambda>x. read_event (msg (event_fields x))) (ms_events m)) = Some (ms_events m)"
    using assms by (intro those_map) (simp add: msg_ok_def read_event_fields)
  show ?thesis
    using kvs evs by (cases m; cases "ms_parent_span_id m")
      (simp_all add: read_span_def span_fields_def comp_def of_le_le_bytes)
qed

lemma request_roundtrip:
  assumes "list_all msg_ok ms"
  shows "read_request (wire_request (otlp_scaffold g) ms) = Some (otlp_scaffold g, ms)"
proof -
  have "those (map (\<lambda>x. read_span (msg (span_fields x))) ms) = Some ms"
    using assms by (intro those_map) (simp add: list_all_iff read_span_fields)
  moreover have "those (map (\<lambda>x. read_kv (msg (kv_fields x))) (sf_attrs (otlp_scaffold g))) = Some (sf_attrs (otlp_scaffold g))"
    by (intro those_map) (auto simp: otlp_scaffold_def read_kv_fields)
  ultimately show ?thesis
    by (simp add: read_request_def wire_request_def comp_def)
qed

end
