(* ===== verification/Otel_Wire_Size.thy ===== *)
theory Otel_Wire_Size
  imports Otel_Wire
begin

text \<open>
  How long a packed span can get.  \<open>weight\<close> adds up what the records of a span view took from the
  arena's 4024 bytes; a field costs at most twice its share in the encoding, so a span stays
  below \<^verbatim>\<open>OTEL_SPAN_SERIALIZATION\<close>, the bound the frame buffer was sized with.
\<close>

subsection \<open>The share of the arena\<close>

fun value_weight :: "otel_value \<Rightarrow> nat" where
  "value_weight (VStr s) = length s" | "value_weight _ = 0"

definition attr_weight :: "byte list \<times> otel_value \<Rightarrow> nat" where
  "attr_weight a = length (fst a) + 17 + value_weight (snd a)"

definition event_weight :: "event_view \<Rightarrow> nat" where
  "event_weight e = length (evw_name e) + 24 + sum_list (map attr_weight (evw_attrs e))"

definition weight :: "span_view \<Rightarrow> nat" where
  "weight v = length (vw_name v) + length (vw_message v) + sum_list (map attr_weight (vw_attrs v)) +
     sum_list (map event_weight (vw_events v))"

text \<open>A boolean is recorded as zero or one.\<close>

fun value_ok :: "otel_value \<Rightarrow> bool" where
  "value_ok (VBool b) \<longleftrightarrow> b = 0 \<or> b = 1" | "value_ok _ \<longleftrightarrow> True"

definition values_ok :: "(byte list \<times> otel_value) list \<Rightarrow> bool" where
  "values_ok as \<longleftrightarrow> (\<forall>a \<in> set as. value_ok (snd a))"

lemma values_ok_snoc [simp]: "values_ok [] " "values_ok (as @ [a]) \<longleftrightarrow> values_ok as \<and> value_ok (snd a)"
  by (auto simp: values_ok_def)

text \<open>\<open>spare n v\<close>: the records of \<open>v\<close> took what they weigh, and \<open>n\<close> bytes more are taken.\<close>

definition spare :: "nat \<Rightarrow> span_view \<Rightarrow> bool" where
  "spare n v \<longleftrightarrow> weight v + n \<le> vw_used v \<and> vw_used v \<le> OTEL_SPAN_ARENA \<and> vw_dropped_attrs v \<le> 255 \<and>
     vw_dropped_events v \<le> 255 \<and> values_ok (vw_attrs v) \<and>
     (\<forall>e \<in> set (vw_events v). evw_dropped e \<le> 255 \<and> values_ok (evw_attrs e))"

lemma spare_less: "spare n v \<Longrightarrow> m \<le> n \<Longrightarrow> spare m v"
  by (simp add: spare_def)

lemma spare_reserve:
  assumes "spare n v" and "spec_reserve v m = (v', ok)"
  shows "spare (n + (if ok then m else 0)) v'"
  using assms round8_ge[of m] by (auto simp: spec_reserve_def spare_def weight_def split: if_splits)

lemma spare_put:
  assumes "spare n v" and "spec_put v c = (v', ok)"
  shows "spare (n + (if ok then Suc (length (the c)) else 0)) v'" and "ok \<Longrightarrow> c \<noteq> None"
  using assms spare_reserve[OF assms(1), of "Suc (length (the c))"] by (auto simp: spec_put_def split: option.splits)

lemma c_str_le: "length (c_str bs) \<le> length bs"
  by (simp add: c_str_def length_takeWhile_le)

lemma spare_value:
  assumes "spare n v" and "spec_value v arg = (v', x)"
  shows "spare (n + value_weight x) v'" and "value_ok x"
proof -
  show "value_ok x"
    using assms(2) by (cases arg) (auto simp: Let_def split: prod.splits)
  show "spare (n + value_weight x) v'"
proof (cases arg)
  case (ArgStr str)
  obtain w ok where w: "spec_put v (map_option c_str str) = (w, ok)" by fastforce
  from spare_put[OF assms(1) w] show ?thesis
    using assms(2) ArgStr w by (auto intro: spare_less split: if_splits)
next
  case (ArgStrn str len)
  let ?c = "map_option (take (unat len)) str"
  obtain w ok where w: "spec_put v ?c = (w, ok)" by fastforce
  have x: "v' = w" "x = VStr (if ok then c_str (the ?c) else [])"
    using assms(2) ArgStrn w by auto
  have "n + value_weight x \<le> n + (if ok then Suc (length (the ?c)) else 0)"
    using c_str_le[of "the ?c"] x(2) by simp
  then show ?thesis
    using spare_less[OF spare_put(1)[OF assms(1) w]] x(1) by simp
qed (use assms in auto)
qed

lemma sum_list_upd:
  fixes f :: "'a \<Rightarrow> nat"
  shows "i < length xs \<Longrightarrow> sum_list (map f (xs[i := y])) + f (xs ! i) = sum_list (map f xs) + f y"
proof (induction xs arbitrary: i)
  case (Cons x xs)
  then show ?case
    by (cases i) (auto simp: add.assoc)
qed simp

lemma spare_event:
  assumes "spare n v" and "event_weight e \<le> event_weight (vw_events v ! i) + n" and "evw_dropped e \<le> 255 \<and> values_ok (evw_attrs e)"
  shows "spare 0 (v\<lparr>vw_events := (vw_events v)[i := e]\<rparr>)"
proof (cases "i < length (vw_events v)")
  case True
  then have "sum_list (map event_weight ((vw_events v)[i := e])) \<le> sum_list (map event_weight (vw_events v)) + n"
    using sum_list_upd[of i "vw_events v" event_weight e] assms(2) by linarith
  then show ?thesis
    using assms(1,3) by (auto simp: spare_def weight_def dest: set_update_subset_insert[THEN subsetD])
next
  case False
  then show ?thesis
    using assms(1) by (simp add: spare_def weight_def list_update_beyond)
qed

lemma spare_add:
  assumes "spare (attr_weight a) v" and "value_ok (snd a)"
  shows "spare 0 (place_upd pl (\<lambda>xs. xs @ [a]) v)"
proof (cases pl)
  case OfSpan
  then show ?thesis
    using assms by (simp add: spare_def weight_def)
next
  case (OfEvent i)
  show ?thesis
  proof (cases "i < length (vw_events v)")
    case True
    then have "evw_dropped (vw_events v ! i) \<le> 255 \<and> values_ok (evw_attrs (vw_events v ! i))"
      using assms by (simp add: spare_def)
    then show ?thesis
      using OfEvent spare_event[OF assms(1)] assms(2) by (simp add: event_weight_def)
  next
    case False
    then show ?thesis
      using OfEvent spare_less[OF assms(1), of 0] by (simp add: list_update_beyond)
  qed
qed

lemma spare_drop:
  assumes "spare n v"
  shows "spare 0 (place_drop pl v)"
proof (cases pl)
  case OfSpan
  then show ?thesis
    using assms by (simp add: spare_def weight_def count_drop_def)
next
  case (OfEvent i)
  show ?thesis
  proof (cases "i < length (vw_events v)")
    case True
    then have "evw_dropped (vw_events v ! i) \<le> 255 \<and> values_ok (evw_attrs (vw_events v ! i))"
      using assms by (simp add: spare_def)
    then show ?thesis
      using OfEvent spare_event[OF assms, of _ i] by (simp add: event_weight_def count_drop_def)
  next
    case False
    then show ?thesis
      using OfEvent spare_less[OF assms, of 0] by (simp add: list_update_beyond)
  qed
qed

lemma spare_attr:
  assumes "spare 0 v"
  shows "spare 0 (spec_attr pl v key arg)"
proof -
  obtain v1 k where 1: "spec_put v (map_option c_str key) = (v1, k)" by fastforce
  obtain v2 r where 2: "spec_reserve v1 16 = (v2, r)" by fastforce
  obtain v3 x where 3: "spec_value v2 arg = (v3, x)" by fastforce
  have eq: "spec_attr pl v key arg = (if k \<and> r then place_upd pl (\<lambda>xs. xs @ [(c_str (the key), x)]) v3 else place_drop pl v2)"
    by (simp add: spec_attr_def 1 2 3)
  note s1 = spare_put[OF assms 1] and s2 = spare_reserve[OF spare_put(1)[OF assms 1] 2]
  show ?thesis
  proof (cases "k \<and> r")
    case True
    then have "spare (attr_weight (c_str (the key), x)) v3"
      using spare_value(1)[OF s2 3] s1(2) by (auto simp: attr_weight_def elim: spare_less)
    then show ?thesis
      unfolding eq using True spare_add spare_value(2)[OF s2 3] by auto
  next
    case False
    then show ?thesis
      unfolding eq using spare_drop[OF s2] by auto
  qed
qed

lemma spare_new_event:
  assumes "spare 0 v"
  shows "spare 0 (fst (spec_event v name now))"
proof -
  obtain v1 k where 1: "spec_put v (map_option c_str name) = (v1, k)" by fastforce
  obtain v2 r where 2: "spec_reserve v1 24 = (v2, r)" by fastforce
  note s1 = spare_put[OF assms 1] and s2 = spare_reserve[OF spare_put(1)[OF assms 1] 2]
  show ?thesis
    using s1(2) s2 by (auto simp: spec_event_def 1 2 spare_def weight_def event_weight_def count_drop_def split: if_splits)
qed

lemma spare_call:
  assumes "spare 0 (fst vh)"
  shows "spare 0 (fst (spec_call vh c))"
proof (cases vh)
  case (Pair v hs)
  then have v: "spare 0 v"
    using assms by simp
  show ?thesis
  proof (cases c)
    case (CSetName name)
    obtain w ok where w: "spec_put v (map_option c_str name) = (w, ok)" by fastforce
    from spare_put[OF v w] show ?thesis
      using Pair CSetName w by (auto simp: spare_def weight_def)
  next
    case (CSetStatus st m)
    obtain w ok where w: "spec_put v (map_option c_str m) = (w, ok)" by fastforce
    from spare_put[OF v w] show ?thesis
      using Pair CSetStatus w by (auto simp: spare_def weight_def)
  next
    case (CEvent name now)
    then show ?thesis
      using Pair spare_new_event[OF v, of name now] by (cases "spec_event v name now") simp
  next
    case (CEventAttr k key arg)
    then show ?thesis
      using Pair v spare_attr[OF v] by (simp split: option.splits)
  qed (use Pair spare_attr[OF v] in simp)
qed

lemma recorded_spare:
  assumes "recorded_span s v"
  shows "spare 0 v"
proof -
  obtain name calls where v: "v = fst (spec_run (spec_init name) calls)"
    using assms by (auto simp: recorded_span_def)
  have "spare 0 (fst (foldl spec_call vh cs))" if "spare 0 (fst vh)" for vh cs
    using that by (induction cs arbitrary: vh) (simp_all add: spare_call)
  moreover have "spare 0 (spec_init name)"
  proof -
    let ?v = "\<lparr>vw_name = [], vw_status = OTEL_STATUS_UNSET, vw_message = [], vw_attrs = [], vw_events = [],
      vw_dropped_attrs = 0, vw_dropped_events = 0, vw_used = 0\<rparr>"
    obtain w ok where w: "spec_put ?v (map_option c_str name) = (w, ok)" by fastforce
    have "spare 0 ?v"
      by (simp add: spare_def weight_def)
    from spare_put[OF this w] show ?thesis
      using w by (auto simp: spec_init_def spare_def weight_def)
  qed
  ultimately show ?thesis
    by (simp add: v spec_run_def)
qed

subsection \<open>The length of an encoding\<close>

lemma length_varint: "n < 128 ^ Suc k \<Longrightarrow> length (varint n) \<le> Suc k"
proof (induction k arbitrary: n)
  case 0
  then show ?case by (simp add: varint.simps[of n])
next
  case (Suc k)
  then have "n div 128 < 128 ^ Suc k"
    by (simp add: less_mult_imp_div_less)
  then show ?case
    using Suc.IH[of "n div 128"] by (simp add: varint.simps[of n])
qed

lemma length_varint_1: "n < 128 \<Longrightarrow> length (varint n) = 1"
  by (simp add: varint.simps[of n])

lemma length_varint_2: "n < 16384 \<Longrightarrow> length (varint n) \<le> 2"
  using length_varint[of n 1] by simp

lemma length_msg [simp]: "length (msg []) = 0" "length (msg (x # xs)) = length (put_field x) + length (msg xs)"
  "length (msg (xs @ ys)) = length (msg xs) + length (msg ys)"
  by (simp_all add: msg_def)

text \<open>Field numbers up to fifteen make one byte with the kind of the field.\<close>

lemma length_fields:
  assumes "f \<le> 15"
  shows "length bs < 16384 \<Longrightarrow> length (put_field (f, WLen bs)) \<le> 3 + length bs"
    and "length (put_field (f, WI64 w)) = 9"
    and "n < 16384 \<Longrightarrow> length (put_field (f, WVarint n)) \<le> 3"
  using assms length_varint_2[of "length bs"] length_varint_2[of n] by (simp_all add: length_varint_1)

lemma length_opt:
  assumes "f \<le> 15"
  shows "length bs < 16384 \<Longrightarrow> length (msg (opt_len f bs)) \<le> 3 + length bs"
    and "length (msg (opt_fix f w)) \<le> 9"
    and "n < 16384 \<Longrightarrow> length (msg (opt_var f n)) \<le> 3"
  using length_fields[OF assms] by (auto simp: opt_len_def opt_fix_def opt_var_def simp del: put_field.simps)

lemma length_repeated:
  assumes "f \<le> 15" and "\<And>x. x \<in> set xs \<Longrightarrow> length (msg (enc x)) + 3 \<le> b x \<and> length (msg (enc x)) < 16384"
  shows "length (msg (repeated f enc xs)) \<le> sum_list (map b xs)"
  using assms(2)
proof (induction xs)
  case (Cons x xs)
  have "length (put_field (f, WLen (msg (enc x)))) \<le> 3 + length (msg (enc x))"
    by (rule length_fields(1)[OF assms(1)]) (use Cons.prems in simp)
  then show ?case
    using Cons by (fastforce simp: repeated_def simp del: put_field.simps)
qed (simp add: repeated_def)

lemma length_any:
  assumes "value_weight x < 4096"
  shows "length (msg (any_fields (any_of x))) \<le> 11 + value_weight x"
proof -
  have "length (varint (unat (w :: u64))) \<le> 10" for w
  proof (rule length_varint[of _ 9, simplified])
    have "unat w < 2 ^ 64"
      using unsigned_less[of w, where ?'a = nat] by simp
    then show "unat w < 1180591620717411303424" by simp
  qed
  then show ?thesis
    using assms length_varint_2[of "value_weight x"] by (cases x) (simp_all add: length_varint_1)
qed

lemma length_kv:
  assumes "attr_weight a \<le> 4096"
  shows "length (msg (kv_fields (kv_msg a))) + 3 \<le> 2 * attr_weight a"
proof -
  have w: "length (fst a) < 4096" "value_weight (snd a) < 4096" "length (fst a) + value_weight (snd a) + 17 \<le> attr_weight a"
    using assms by (simp_all add: attr_weight_def)
  have any: "length (msg (any_fields (any_of (snd a)))) \<le> 11 + value_weight (snd a)"
    by (rule length_any[OF w(2)])
  then have "length (put_field (2, WLen (msg (any_fields (any_of (snd a)))))) \<le> 14 + value_weight (snd a)"
    using length_fields(1)[of 2 "msg (any_fields (any_of (snd a)))"] w(2) by simp
  moreover have "length (msg (opt_len 1 (fst a))) \<le> 3 + length (fst a)"
    by (rule length_opt) (use w(1) in simp_all)
  ultimately show ?thesis
    using w(3) by (simp add: kv_fields_def kv_msg_def del: put_field.simps)
qed

lemma sum_list_member: "x \<in> set xs \<Longrightarrow> f x \<le> sum_list (map f xs)" for f :: "'a \<Rightarrow> nat"
  by (induction xs) auto

lemma length_kvs:
  assumes "sum_list (map attr_weight as) \<le> 4096" and "f \<le> 15"
  shows "length (msg (repeated f kv_fields (map kv_msg as))) \<le> 2 * sum_list (map attr_weight as)"
proof -
  have a: "length (msg (kv_fields (kv_msg a))) + 3 \<le> 2 * attr_weight a \<and> length (msg (kv_fields (kv_msg a))) < 16384" if "a \<in> set as" for a
    using length_kv[of a] sum_list_member[OF that, of attr_weight] assms(1) by auto
  have "length (msg (repeated f (kv_fields \<circ> kv_msg) as)) \<le> sum_list (map (\<lambda>a. 2 * attr_weight a) as)"
    by (rule length_repeated[OF assms(2)]) (use a in simp)
  then show ?thesis
    by (simp add: repeated_def comp_def sum_list_const_mult)
qed

lemma length_event:
  assumes "event_weight e \<le> 4096" and "evw_dropped e \<le> 255"
  shows "length (msg (event_fields (event_to_msg e))) + 3 \<le> 2 * event_weight e"
proof -
  let ?a = "sum_list (map attr_weight (evw_attrs e))"
  have w: "length (evw_name e) + 24 + ?a = event_weight e"
    by (simp add: event_weight_def)
  have "length (msg (opt_fix 1 (evw_time e))) \<le> 9" "length (msg (opt_len 2 (evw_name e))) \<le> 3 + length (evw_name e)"
    "length (msg (opt_var 4 (evw_dropped e))) \<le> 3"
    using w assms by (auto intro: length_opt)
  moreover have "length (msg (repeated 3 kv_fields (map kv_msg (evw_attrs e)))) \<le> 2 * ?a"
    using w assms(1) by (intro length_kvs) simp_all
  ultimately show ?thesis
    using w by (simp add: event_fields_def event_to_msg_def)
qed

lemma length_events:
  assumes "sum_list (map event_weight es) \<le> 4096" and "\<forall>e \<in> set es. evw_dropped e \<le> 255" and "f \<le> 15"
  shows "length (msg (repeated f event_fields (map event_to_msg es))) \<le> 2 * sum_list (map event_weight es)"
proof -
  have e: "length (msg (event_fields (event_to_msg e))) + 3 \<le> 2 * event_weight e \<and> length (msg (event_fields (event_to_msg e))) < 16384"
    if "e \<in> set es" for e
    using length_event[of e] sum_list_member[OF that, of event_weight] assms(1,2) that by auto
  have "length (msg (repeated f (event_fields \<circ> event_to_msg) es)) \<le> sum_list (map (\<lambda>e. 2 * event_weight e) es)"
    by (rule length_repeated[OF assms(3)]) (use e in simp)
  then show ?thesis
    by (simp add: repeated_def comp_def sum_list_const_mult)
qed

lemma length_status:
  assumes "length m \<le> 4096"
  shows "length (put_field (15, WLen (msg (opt_len 2 m @ opt_var 3 (status_number st))))) \<le> 9 + length m"
proof -
  have "status_number st < 16384"
    by (cases st) simp_all
  then have b: "length (msg (opt_len 2 m @ opt_var 3 (status_number st))) \<le> 6 + length m"
    using length_opt(1)[of 2 m] length_opt(3)[of 3 "status_number st"] assms by simp
  then have "length (put_field (15, WLen (msg (opt_len 2 m @ opt_var 3 (status_number st))))) \<le>
      3 + length (msg (opt_len 2 m @ opt_var 3 (status_number st)))"
    using assms by (intro length_fields(1)) simp_all
  then show ?thesis
    using b by linarith
qed

lemma length_span:
  assumes v: "spare 0 v" and id: "length (sp_trace_id s) = 16"
  shows "length (msg (span_fields (span_to_msg s v))) \<le> 8128"
proof -
  let ?a = "sum_list (map attr_weight (vw_attrs v))" and ?e = "sum_list (map event_weight (vw_events v))"
  have w: "length (vw_name v) + length (vw_message v) + ?a + ?e \<le> 4024"
    using v by (simp add: spare_def weight_def)
  have "length (msg (opt_len 1 (sp_trace_id s))) \<le> 19" "length (msg (opt_len 5 (vw_name v))) \<le> 3 + length (vw_name v)"
    "length (msg (opt_fix 7 (sp_start_unix_ns s))) \<le> 9" "length (msg (opt_fix 8 (sp_end_unix_ns s))) \<le> 9"
    "length (msg (opt_var 10 (vw_dropped_attrs v))) \<le> 3" "length (msg (opt_var 12 (vw_dropped_events v))) \<le> 3"
    using length_opt(1)[of 1 "sp_trace_id s"] w v id by (auto intro: length_opt simp: spare_def)
  moreover have "length (put_field (2, WLen (le_bytes 8 (sp_span_id s)))) \<le> 11"
    "length (put_field (4, WLen (le_bytes 8 (sp_parent_id s)))) \<le> 11"
    using length_fields(1)[of 2 "le_bytes 8 (sp_span_id s)"] length_fields(1)[of 4 "le_bytes 8 (sp_parent_id s)"] by simp_all
  moreover have "kind_number k < 16384" for k
    by (cases k) simp_all
  then have "length (put_field (6, WVarint (kind_number (otlp_kind_of (sp_kind s))))) \<le> 3"
    by (intro length_fields) simp_all
  moreover have "length (put_field (15, WLen (msg (opt_len 2 (vw_message v) @ opt_var 3 (status_number (status_msg (vw_status v))))))) \<le>
      9 + length (vw_message v)"
    using w by (intro length_status) simp
  moreover have "length (msg (repeated 9 kv_fields (map kv_msg (vw_attrs v)))) \<le> 2 * ?a"
    using w by (intro length_kvs) simp_all
  moreover have "length (msg (repeated 11 event_fields (map event_to_msg (vw_events v)))) \<le> 2 * ?e"
    using w v by (intro length_events) (simp_all add: spare_def)
  ultimately show ?thesis
    using w by (cases "sp_parent_id s = 0") (simp_all add: span_fields_def span_to_msg_def del: put_field.simps status_msg.simps)
qed

lemma length_repeated_const:
  assumes "f \<le> 15" and "\<And>x. x \<in> set xs \<Longrightarrow> length (msg (enc x)) \<le> k" and "k < 16384"
  shows "length (msg (repeated f enc xs)) \<le> length xs * (k + 3)"
proof -
  have "length (msg (repeated f enc xs)) \<le> sum_list (map (\<lambda>_. k + 3) xs)"
    by (rule length_repeated[OF assms(1)]) (use assms(2,3) in fastforce)
  then show ?thesis
    by (simp add: sum_list_triv)
qed

lemma length_string_kv:
  assumes "length k \<le> 12" and "length w \<le> 127"
  shows "length (msg (kv_fields (k, AnyStr w))) \<le> 148"
proof -
  have "length (put_field (1, WLen w)) \<le> 130" "length (msg (opt_len 1 k)) \<le> 15"
    using length_fields(1)[of 1 w] length_opt(1)[of 1 k] assms by simp_all
  moreover from this(1) have "length (put_field (2, WLen (msg [(1, WLen w)]))) \<le> 133"
    using length_fields(1)[of 2 "msg [(1, WLen w)]"] by simp
  ultimately show ?thesis
    by (simp add: kv_fields_def del: put_field.simps)
qed

lemma length_packed_request:
  assumes n: "length ms \<le> 256" and spans: "\<And>m. m \<in> set ms \<Longrightarrow> length (msg (span_fields m)) \<le> 8128"
    and g: "length (g_service g) \<le> 127" "length (g_hostname g) \<le> 127"
  shows "length (wire_request (otlp_scaffold g) ms) \<le> 256 * 8192"
proof -
  have long: "length (put_field (f, WLen bs)) \<le> 5 + length bs" if "f \<le> 15" "length bs < 268435456" for f bs
    using length_varint[of "length bs" 3] that by (simp add: length_varint_1)
  let ?spans = "msg (repeated 2 span_fields ms)"
  have "length ?spans \<le> length ms * 8131"
    using length_repeated_const[of 2 ms span_fields 8128] spans by simp
  then have 1: "length ?spans \<le> 256 * 8131"
    using n by linarith
  let ?scope = "msg (opt_len 1 (g_service g) @ opt_len 2 (ascii ''0.1.0''))"
  have "length ?scope \<le> 138"
    using length_opt(1)[of 1 "g_service g"] length_opt(1)[of 2 "ascii ''0.1.0''"] g by simp
  then have 2: "length (put_field (1, WLen ?scope)) \<le> 141"
    using length_fields(1)[of 1 ?scope] by simp
  let ?ss = "msg ((1, WLen ?scope) # repeated 2 span_fields ms)"
  have 3: "length ?ss \<le> 141 + 256 * 8131"
    using 1 2 by (simp del: put_field.simps)
  let ?res = "msg (repeated 1 kv_fields [(ascii ''service.name'', AnyStr (g_service g)), (ascii ''host.name'', AnyStr (g_hostname g))])"
  have "length (msg (kv_fields x)) \<le> 148"
    if "x \<in> set [(ascii ''service.name'', AnyStr (g_service g)), (ascii ''host.name'', AnyStr (g_hostname g))]" for x
    using that g length_string_kv[of "ascii ''service.name''" "g_service g"] length_string_kv[of "ascii ''host.name''" "g_hostname g"]
    by (auto simp del: ascii_simps(2) simp: ascii_def)
  then have "length ?res \<le> 2 * 151"
    using length_repeated_const[of 1 "[(ascii ''service.name'', AnyStr (g_service g)), (ascii ''host.name'', AnyStr (g_hostname g))]"
        kv_fields 148] by (simp del: ascii_simps)
  then have 4: "length (put_field (1, WLen ?res)) \<le> 305"
    using length_fields(1)[of 1 ?res] by simp
  have 5: "length (put_field (2, WLen ?ss)) \<le> 5 + length ?ss"
    using 3 by (intro long) simp_all
  let ?rs = "msg [(1, WLen ?res), (2, WLen ?ss)]"
  have 6: "length ?rs \<le> 451 + 256 * 8131"
    using 3 4 5 by (simp del: put_field.simps)
  have "length (put_field (1, WLen ?rs)) \<le> 5 + length ?rs"
    using 6 by (intro long) simp_all
  then show ?thesis
    using 6 by (simp add: wire_request_def otlp_scaffold_def del: put_field.simps)
qed

end
