(* ===== verification/Otel_Wire_Theorems.thy ===== *)
theory Otel_Wire_Theorems
  imports Otel_Wire_Size Otel_Tracer_Theorems
begin

text \<open>
  The frames a transport gets when the packing function follows the protobuf encoding: they fit
  the buffer, and a collector reads from them what was recorded.  The locale \<open>request_codec\<close> is what
  the export relies on of a pair of a packing function and a reader; the protobuf encoding of
  \<open>Otel_Wire\<close> and its reader provide it.
\<close>

text \<open>\<^verbatim>\<open>o->buf_size\<close>: the frame header and \<^verbatim>\<open>OTEL_SPAN_SERIALIZATION\<close> bytes for each span of a batch.\<close>

definition otlp_buf_size :: nat where
  "otlp_buf_size = 5 + OTEL_BATCH_SPANS * 8192"

text \<open>A collector checks the header and reads the payload.\<close>

definition read_frame_by :: "(byte list \<Rightarrow> 'a option) \<Rightarrow> byte list \<Rightarrow> 'a option" where
  "read_frame_by read f = (if take 1 f = [0] \<and> unat (otel_load_be32 (take 4 (drop 1 f))) = length (drop 5 f)
     then read (drop 5 f) else None)"

definition read_frame :: "byte list \<Rightarrow> (request_scaffold \<times> span_msg list) option" where
  "read_frame = read_frame_by read_request"

subsection \<open>What the export needs of a packing function\<close>

locale request_codec =
  fixes pack :: "span_msg list \<Rightarrow> byte list"
    and read :: "byte list \<Rightarrow> ('h \<times> span_msg list) option"
    and head :: 'h
    and good :: "span_msg \<Rightarrow> bool"
    and cap :: nat
  assumes pack_size: "list_all good ms \<Longrightarrow> length ms \<le> OTEL_BATCH_SPANS \<Longrightarrow> length (pack ms) \<le> cap"
    and cap_less: "cap < 2 ^ 32"
    and read_pack: "list_all good ms \<Longrightarrow> read (pack ms) = Some (head, ms)"
begin

lemma frame_size: "list_all good ms \<Longrightarrow> length ms \<le> OTEL_BATCH_SPANS \<Longrightarrow> length (frame_of pack ms) \<le> 5 + cap"
  using pack_size[of ms] by (simp add: frame_of_def)

lemma frame_read:
  assumes "list_all good ms" and "length ms \<le> OTEL_BATCH_SPANS"
  shows "read_frame_by read (frame_of pack ms) = Some (head, ms)"
proof -
  have "unat (of_nat (length (pack ms)) :: u32) = length (pack ms)"
    using pack_size[OF assms] cap_less by (intro unat_of_nat_small) simp
  then show ?thesis
    using read_pack[OF assms(1)] by (simp add: read_frame_by_def frame_of_def load_store_be32)
qed

lemma those_frames:
  assumes "\<forall>ms \<in> set batches. list_all good ms \<and> length ms \<le> OTEL_BATCH_SPANS"
  shows "those (map (read_frame_by read) (map (frame_of pack) batches)) = Some (map (Pair head) batches)"
  using assms by (induction batches) (simp_all add: frame_read)

lemma exported_frames:
  assumes "list_all2 exportable ss vs" and "list_all good (map2 span_to_msg ss vs)"
  shows "\<exists>ex ex' reqs. export_spans pack True ss \<lparr>ex_otlp = otlp_init, ex_frames = []\<rparr> = Some ex \<and>
    otlp_flush pack True ex = Some ex' \<and> (\<forall>f \<in> set (ex_frames ex'). length f \<le> 5 + cap) \<and>
    those (map (read_frame_by read) (ex_frames ex')) = Some reqs \<and>
    concat (map snd reqs) = map2 span_to_msg ss vs \<and> (\<forall>r \<in> set reqs. fst r = head)"
proof -
  from export_spans_sent[OF assms(1) all_sent_init[where frames = "[]"], of pack] obtain ex where
    1: "export_spans pack True ss \<lparr>ex_otlp = otlp_init, ex_frames = []\<rparr> = Some ex"
    "all_sent pack [] ex (map2 span_to_msg ss vs)" by auto
  from all_sent_flush[OF 1(2)] obtain batches where
    2: "ex_frames (flushed pack True ex) = map (frame_of pack) batches" "concat batches = map2 span_to_msg ss vs"
    "\<forall>b \<in> set batches. length b \<le> 256"
    by (auto simp: all_sent_def)
  have "\<forall>m \<in> set (concat batches). good m"
    using assms(2) unfolding 2(2) by (simp add: list_all_iff)
  then have b: "\<forall>ms \<in> set batches. list_all good ms \<and> length ms \<le> OTEL_BATCH_SPANS"
    using 2(3) by (auto simp: list_all_iff)
  moreover have "otlp_flush pack True ex = Some (flushed pack True ex)"
    using 1(2) by (simp add: all_sent_def flush_ok)
  moreover have "\<exists>reqs. (\<forall>f \<in> set (ex_frames (flushed pack True ex)). length f \<le> 5 + cap) \<and>
      those (map (read_frame_by read) (ex_frames (flushed pack True ex))) = Some reqs \<and>
      concat (map snd reqs) = map2 span_to_msg ss vs \<and> (\<forall>r \<in> set reqs. fst r = head)"
    using 2(2) those_frames[OF b] frame_size b by (intro exI[of _ "map (Pair head) batches"]) (auto simp: 2(1) comp_def)
  ultimately show ?thesis
    using 1(1) by blast
qed

end

subsection \<open>The protobuf encoding\<close>

lemma values_kv_ok: "values_ok as \<Longrightarrow> \<forall>kv \<in> set (map kv_msg as). kv_ok kv"
proof -
  have "kv_ok (kv_msg a)" if "value_ok (snd a)" for a
    using that by (cases "snd a") (auto simp: kv_msg_def)
  then show "values_ok as \<Longrightarrow> ?thesis" by (auto simp: values_ok_def)
qed

lemma spare_msg_ok: "spare 0 v \<Longrightarrow> msg_ok (span_to_msg s v)"
  using values_kv_ok by (auto simp: spare_def msg_ok_def span_to_msg_def event_to_msg_def)

lemma init_names:
  assumes "\<not> g_initialized g0"
  shows "length (g_service (fst (otel_init service host b g0))) \<le> 127" "length (g_hostname (fst (otel_init service host b g0))) \<le> 127"
  using assms by (auto simp: otel_init_def split: option.split)

text \<open>The request is the same whatever was in the global state before \<^verbatim>\<open>otel_init\<close>.\<close>

lemma scaffold_fresh: "\<not> g_initialized g0 \<Longrightarrow>
    otlp_scaffold (fst (otel_init service host b g0)) = otlp_scaffold (fst (otel_init service host True tracer_zero))"
  by (simp add: otel_init_def otlp_scaffold_def tracer_zero_def)

definition span_fits :: "span_msg \<Rightarrow> bool" where
  "span_fits m \<longleftrightarrow> length (msg (span_fields m)) \<le> 8128 \<and> msg_ok m"

interpretation wire: request_codec "wire_request (otlp_scaffold (fst (otel_init service host True tracer_zero)))"
  read_request "otlp_scaffold (fst (otel_init service host True tracer_zero))" span_fits "256 * 8192"
proof
  have "\<not> g_initialized tracer_zero"
    by (simp add: tracer_zero_def)
  note names = init_names[OF this, of service host True]
  fix ms assume ms: "list_all span_fits ms"
  show "length (wire_request (otlp_scaffold (fst (otel_init service host True tracer_zero))) ms) \<le> 256 * 8192"
    if "length ms \<le> OTEL_BATCH_SPANS"
    using length_packed_request[OF _ _ names, of ms] that ms by (simp add: list_all_iff span_fits_def)
  have "list_all msg_ok ms"
    using ms by (simp add: list_all_iff span_fits_def)
  then show "read_request (wire_request (otlp_scaffold (fst (otel_init service host True tracer_zero))) ms) =
      Some (otlp_scaffold (fst (otel_init service host True tracer_zero)), ms)"
    by (rule request_roundtrip)
qed simp

lemma recorded_fits:
  assumes rec: "list_all2 recorded_span ss vs" and ids: "\<forall>s \<in> set ss. length (sp_trace_id s) = 16"
  shows "list_all2 exportable ss vs" and "list_all span_fits (map2 span_to_msg ss vs)"
proof -
  show "list_all2 exportable ss vs"
    using rec recorded_exportable by (rule list_all2_mono)
  have "span_fits m" if m: "m \<in> set (map2 span_to_msg ss vs)" for m
  proof -
    obtain s v where "m = span_to_msg s v" "(s, v) \<in> set (zip ss vs)"
      using m by auto
    moreover from this(2) have "recorded_span s v" "s \<in> set ss"
      using rec set_zip_leftD by (auto simp: list_all2_iff)
    ultimately show ?thesis
      using length_span[OF recorded_spare] spare_msg_ok[OF recorded_spare] ids by (auto simp: span_fits_def)
  qed
  then show "list_all span_fits (map2 span_to_msg ss vs)"
    by (simp add: list_all_iff)
qed

lemma sample_trace_id: "length (sp_trace_id sample_span) = 16"
  using span_run_meta[of "otel_span_init zero_span sample_name 2 99" sample_calls]
  by (simp add: sample_span_def span_meta_def) (simp add: zero_span_def)

text \<open>What is relied on of the generated packing function: on the request that \<^verbatim>\<open>otel_init\<close> prepared, it
  writes the protobuf encoding of the messages.\<close>

definition packs_protobuf :: "(span_msg list \<Rightarrow> byte list) \<Rightarrow> otel_global \<Rightarrow> bool" where
  "packs_protobuf pack g \<longleftrightarrow> (\<forall>ms. pack ms = wire_request (otlp_scaffold g) ms)"

lemma packs_protobuf_eq: "packs_protobuf pack g \<longleftrightarrow> pack = wire_request (otlp_scaffold g)"
  by (auto simp: packs_protobuf_def)

lemma packs_fresh: "\<not> g_initialized g0 \<Longrightarrow> packs_protobuf pack (fst (otel_init service host True g0)) \<Longrightarrow>
    pack = wire_request (otlp_scaffold (fst (otel_init service host True tracer_zero)))"
  by (simp add: packs_protobuf_eq scaffold_fresh)

text \<open>C17: however many spans are exported and whatever they hold, no frame is longer than the buffer
  \<^verbatim>\<open>otel_init\<close> allocated for it: a span with its attributes and events packs into less than
  \<^verbatim>\<open>OTEL_SPAN_SERIALIZATION\<close> bytes, with room left for the resource and the scope.\<close>

theorem frames_fit_the_buffer:
  assumes "\<not> g_initialized g0" and "packs_protobuf pack (fst (otel_init service host True g0))"
    and "list_all2 recorded_span ss vs" and "\<forall>s \<in> set ss. length (sp_trace_id s) = 16"
  shows "\<exists>ex ex'. export_spans pack True ss \<lparr>ex_otlp = otlp_init, ex_frames = []\<rparr> = Some ex \<and>
    otlp_flush pack True ex = Some ex' \<and> (\<forall>f \<in> set (ex_frames ex'). length f \<le> otlp_buf_size)"
  using wire.exported_frames[OF recorded_fits[OF assms(3,4)], of service host] packs_fresh[OF assms(1,2)]
  by (auto simp: otlp_buf_size_def)

lemma frames_fit_the_buffer_witness:
  "\<exists>ex ex'. export_spans (wire_request (otlp_scaffold (fst (otel_init None None True tracer_zero)))) True [sample_span, sample_span]
      \<lparr>ex_otlp = otlp_init, ex_frames = []\<rparr> = Some ex \<and>
    otlp_flush (wire_request (otlp_scaffold (fst (otel_init None None True tracer_zero)))) True ex = Some ex' \<and>
    (\<forall>f \<in> set (ex_frames ex'). length f \<le> otlp_buf_size)"
  using sample_recorded sample_trace_id
  by (intro frames_fit_the_buffer[where vs = "[sample_view, sample_view]"]) (simp_all add: tracer_zero_def packs_protobuf_eq)

text \<open>C9: a collector that reads the frames by the protobuf specification gets from them the resource and
  scope set up by \<^verbatim>\<open>otel_init\<close> and exactly the spans that were exported, each once, in order, with
  every attribute and event that was recorded on it.\<close>

theorem collector_reads_what_was_recorded:
  assumes "\<not> g_initialized g0" and "packs_protobuf pack (fst (otel_init service host True g0))"
    and "list_all2 recorded_span ss vs" and "\<forall>s \<in> set ss. length (sp_trace_id s) = 16"
  shows "\<exists>ex ex' reqs. export_spans pack True ss \<lparr>ex_otlp = otlp_init, ex_frames = []\<rparr> = Some ex \<and>
    otlp_flush pack True ex = Some ex' \<and> those (map read_frame (ex_frames ex')) = Some reqs \<and>
    concat (map snd reqs) = map2 span_to_msg ss vs \<and>
    (\<forall>r \<in> set reqs. fst r = otlp_scaffold (fst (otel_init service host True g0)))"
  using wire.exported_frames[OF recorded_fits[OF assms(3,4)], of service host] packs_fresh[OF assms(1,2)]
    scaffold_fresh[OF assms(1), of service host True]
  unfolding read_frame_def by auto

lemma collector_reads_what_was_recorded_witness:
  "\<exists>ex ex' reqs. export_spans (wire_request (otlp_scaffold (fst (otel_init None None True tracer_zero)))) True [sample_span]
      \<lparr>ex_otlp = otlp_init, ex_frames = []\<rparr> = Some ex \<and>
    otlp_flush (wire_request (otlp_scaffold (fst (otel_init None None True tracer_zero)))) True ex = Some ex' \<and>
    those (map read_frame (ex_frames ex')) = Some reqs \<and>
    concat (map snd reqs) = [span_to_msg sample_span sample_view]"
  using collector_reads_what_was_recorded[of tracer_zero _ None None "[sample_span]" "[sample_view]"] sample_recorded sample_trace_id
  by (fastforce simp: tracer_zero_def packs_protobuf_eq)

end
