(* ===== verification/Otel_Disabled.thy ===== *)
theory Otel_Disabled
  imports Otel_Tracer_Theorems
begin

text \<open>
  The two builds of \<^verbatim>\<open>oteltracing.h\<close>.  \<open>enabled_call\<close> is one call of a single-threaded client on the
  library, with the client's span variables; \<open>disabled_call\<close> is the same call in the build with
  \<^verbatim>\<open>OTEL_TRACING == 0\<close>, where every call is a no-op that returns a constant.
\<close>

subsection \<open>Calls and results\<close>

text \<open>Calls name the client's span variables by numbers.  What the environment delivers (seed, clock,
  host name, outcome of the allocation) is part of the call.\<close>

datatype api_call =
  AInit c_string c_string bool | AShutdown | ARegister otel_random_state u64 | AUnregister
| ASetTransport bool | ASetSink "span_sink option" | AServiceName | ACapacity u32 | ASampler c_double
| ASetEnabled bool | ASetClock | ADrain | ADropped
| AStart nat c_string byte u64 | AChild nat c_string byte "nat option" u64
| ARemote nat c_string byte "byte list" u64 bool u64
| ARecording nat | ACall nat span_call | AEnd nat u64

datatype api_result = Done | Status int | Count u64 | Text "byte list" | Flag bool | Handle "nat option"

subsection \<open>Compiled out\<close>

text \<open>Only \<^verbatim>\<open>otel_span_event\<close> among the calls on a span returns something.\<close>

fun disabled_span_call :: "span_call \<Rightarrow> api_result" where
  "disabled_span_call (CEvent name now) = Handle None"
| "disabled_span_call _ = Done"

fun disabled_call :: "api_call \<Rightarrow> api_result" where
  "disabled_call (AInit service host buf_ok) = Status 0"
| "disabled_call AServiceName = Text []"
| "disabled_call ADrain = Status 0"
| "disabled_call ADropped = Count 0"
| "disabled_call (ARecording x) = Flag False"
| "disabled_call (ACall x c) = disabled_span_call c"
| "disabled_call _ = Done"

subsection \<open>Compiled in\<close>

record api_state =
  as_g :: otel_global
  as_spans :: "nat \<Rightarrow> otel_span"
  as_handles :: "nat \<Rightarrow> nat option list"   \<comment> \<open>the event handles returned for a span\<close>

fun span_result :: "span_call \<Rightarrow> nat option list \<Rightarrow> api_result" where
  "span_result (CEvent name now) hs = Handle (last hs)"
| "span_result _ hs = Done"

definition set_span :: "nat \<Rightarrow> (otel_global \<times> otel_span) option \<Rightarrow> api_state \<Rightarrow> (api_state \<times> api_result) option" where
  "set_span x res st = map_option (\<lambda>(g, s). (st\<lparr>as_g := g, as_spans := (as_spans st)(x := s)\<rparr>, Done)) res"

definition set_global :: "otel_global option \<Rightarrow> api_state \<Rightarrow> (api_state \<times> api_result) option" where
  "set_global res st = map_option (\<lambda>g. (st\<lparr>as_g := g\<rparr>, Done)) res"

fun enabled_call :: "(span_msg list \<Rightarrow> byte list) \<Rightarrow> api_state \<Rightarrow> api_call \<Rightarrow> (api_state \<times> api_result) option" where
  "enabled_call pack st (AInit service host buf_ok) =
     (let (g, r) = otel_init service host buf_ok (as_g st) in Some (st\<lparr>as_g := g\<rparr>, Status r))"
| "enabled_call pack st AShutdown = set_global (otel_shutdown pack (as_g st)) st"
| "enabled_call pack st (ARegister seed now) = set_global (Some (otel_thread_register 0 seed now (as_g st))) st"
| "enabled_call pack st AUnregister = set_global (otel_thread_unregister pack 0 (as_g st)) st"
| "enabled_call pack st (ASetTransport fn) = set_global (Some (otel_set_transport fn (as_g st))) st"
| "enabled_call pack st (ASetSink sk) = set_global (Some (otel_set_span_sink sk (as_g st))) st"
| "enabled_call pack st AServiceName = Some (st, Text (otel_service_name (as_g st)))"
| "enabled_call pack st (ACapacity n) = set_global (map_option (\<lambda>c. (as_g st)\<lparr>g_ring_capacity := c\<rparr>) (otel_set_ring_capacity n)) st"
| "enabled_call pack st (ASampler r) = set_global (map_option (\<lambda>sm. (as_g st)\<lparr>g_sampler := sm\<rparr>) (otel_set_sampler r)) st"
| "enabled_call pack st (ASetEnabled b) = set_global (Some (otel_set_enabled b (as_g st))) st"
| "enabled_call pack st ASetClock = Some (st, Done)"
| "enabled_call pack st ADrain = map_option (\<lambda>(g, n). (st\<lparr>as_g := g\<rparr>, Status n)) (otel_drain pack (as_g st))"
| "enabled_call pack st ADropped = Some (st, Count (otel_dropped_spans (as_g st)))"
| "enabled_call pack st (AStart x name kind now) = set_span x (start_span 0 (as_spans st x) name kind now (as_g st)) st"
| "enabled_call pack st (AChild x name kind p now) =
     set_span x (start_child_span 0 (as_spans st x) name kind (map_option (as_spans st) p) now (as_g st)) st"
| "enabled_call pack st (ARemote x name kind tid pid sampled now) =
     set_span x (start_remote_span 0 (as_spans st x) name kind tid pid sampled now (as_g st)) st"
| "enabled_call pack st (ARecording x) = Some (st, Flag (otel_span_recording (as_spans st x)))"
| "enabled_call pack st (ACall x c) =
     (let (s, hs) = exec_call (as_spans st x, as_handles st x) c
      in Some (st\<lparr>as_spans := (as_spans st)(x := s), as_handles := (as_handles st)(x := hs)\<rparr>, span_result c hs))"
| "enabled_call pack st (AEnd x now) = set_span x (otel_span_end 0 now (as_spans st x) (as_g st)) st"

fun enabled_run :: "(span_msg list \<Rightarrow> byte list) \<Rightarrow> api_state \<Rightarrow> api_call list \<Rightarrow> api_result list option" where
  "enabled_run pack st [] = Some []"
| "enabled_run pack st (c # cs) = do { (st, r) \<leftarrow> enabled_call pack st c; rs \<leftarrow> enabled_run pack st cs; Some (r # rs) }"

subsection \<open>A client that never attaches a consumer\<close>

text \<open>The two flags say whether the client has initialised the library and registered its thread.  A
  plain client attaches no consumer, registers only between \<^verbatim>\<open>otel_init\<close> and \<^verbatim>\<open>otel_shutdown\<close>, and
  makes none of the calls on which the builds differ (\<open>builds_differ\<close>): it does not ask for the
  service name, its \<^verbatim>\<open>otel_init\<close> gets its buffer, its ring capacity is at most \<open>2 ^ 31\<close> and its
  sampling ratio is a number.\<close>

fun plain_client :: "bool \<Rightarrow> bool \<Rightarrow> api_call list \<Rightarrow> bool" where
  "plain_client i r [] \<longleftrightarrow> True"
| "plain_client i r (AInit service host buf_ok # cs) \<longleftrightarrow> (i \<or> buf_ok) \<and> plain_client True r cs"
| "plain_client i r (AShutdown # cs) \<longleftrightarrow> \<not> r \<and> plain_client False r cs"
| "plain_client i r (ARegister seed now # cs) \<longleftrightarrow> i \<and> plain_client i True cs"
| "plain_client i r (AUnregister # cs) \<longleftrightarrow> plain_client i False cs"
| "plain_client i r (ASetTransport fn # cs) \<longleftrightarrow> \<not> fn \<and> plain_client i r cs"
| "plain_client i r (ASetSink sk # cs) \<longleftrightarrow> sk = None \<and> plain_client i r cs"
| "plain_client i r (AServiceName # cs) \<longleftrightarrow> False"
| "plain_client i r (ACapacity n # cs) \<longleftrightarrow> unat n \<le> 2 ^ 31 \<and> plain_client i r cs"
| "plain_client i r (ASampler x # cs) \<longleftrightarrow> x \<noteq> NaN \<and> plain_client i r cs"
| "plain_client i r (c # cs) \<longleftrightarrow> plain_client i r cs"

definition idle_global :: "bool \<Rightarrow> bool \<Rightarrow> otel_global \<Rightarrow> bool" where
  "idle_global i r g \<longleftrightarrow> tracer_ok g \<and> g_initialized g = i \<and> \<not> g_transport_present g \<and> \<not> g_sink_present g \<and>
     (g_tls g 0 \<noteq> None \<longrightarrow> r) \<and> set (g_threads g) \<subseteq> set_option (g_tls g 0) \<and> (r \<longrightarrow> i) \<and> g_dropped_spans g = 0"

definition idle_spans :: "api_state \<Rightarrow> bool" where
  "idle_spans st \<longleftrightarrow> (\<forall>x. \<not> otel_span_recording (as_spans st x)) \<and> (\<forall>x. set (as_handles st x) \<subseteq> {None})"

lemma idle_off: "idle_global i r g \<Longrightarrow> \<not> g_enabled g"
  unfolding idle_global_def tracer_ok_def by blast

lemma idle_same:
  assumes "idle_global i r g" and "tracer_ok h" and "g_initialized h = g_initialized g" and "\<not> g_transport_present h"
    and "\<not> g_sink_present h" and "g_tls h = g_tls g" and "g_threads h = g_threads g" and "g_dropped_spans h = g_dropped_spans g"
  shows "idle_global i r h"
  using assms by (simp add: idle_global_def)

lemma idle_init:
  assumes "idle_global i r g" and "i \<or> b"
  shows "idle_global True r (fst (otel_init service host b g)) \<and> snd (otel_init service host b g) = 0"
proof (cases i)
  case True
  then show ?thesis using assms by (simp add: otel_init_def idle_global_def)
next
  case False
  then have th: "g_threads g = []" "\<not> g_initialized g" "b"
    using assms by (auto simp: idle_global_def)
  then have "tracer_ok (fst (otel_init service host b g))"
    using assms tracer_ok_init by (simp add: idle_global_def)
  then show ?thesis
    using assms th by (auto simp: otel_init_def idle_global_def)
qed

lemma idle_shutdown:
  assumes "idle_global i r g" and "\<not> r"
  shows "\<exists>h. otel_shutdown pack g = Some h \<and> idle_global False r h"
proof -
  have th: "g_threads g = []" and ok: "tracer_ok g"
    using assms by (auto simp: idle_global_def)
  obtain h where h: "otel_shutdown pack g = Some h" "tracer_ok h"
    using shutdown_ok[OF ok th] by blast
  then show ?thesis
    using assms idle_off[OF assms(1)] by (cases "g_initialized g") (auto simp: otel_shutdown_def idle_global_def)
qed

lemma idle_register: "idle_global i r g \<Longrightarrow> i \<Longrightarrow> idle_global i True (otel_thread_register 0 seed now g)"
  using tracer_ok_register[of g 0 seed now]
  by (cases "g_tls g 0") (auto simp: idle_global_def otel_thread_register_def Let_def)

lemma idle_unregister:
  assumes "idle_global i r g"
  shows "\<exists>h. otel_thread_unregister pack 0 g = Some h \<and> idle_global i False h"
proof (cases "g_tls g 0")
  case None
  then show ?thesis
    using assms by (simp add: otel_thread_unregister_def idle_global_def)
next
  case (Some a)
  have ok: "tracer_ok g"
    using assms by (simp add: idle_global_def)
  from unregister_ok[OF ok Some, of pack] obtain h where h: "otel_thread_unregister pack 0 g = Some h" "tracer_ok h" by blast
  have "distinct (g_threads g)"
    using ok by (simp add: tracer_ok_def threads_ok_def)
  moreover obtain ctx where "g_ctx g a = Some ctx"
    using h(1) Some by (cases "g_ctx g a") (simp_all add: otel_thread_unregister_def)
  then have "h = g\<lparr>g_threads := remove1 a (g_threads g), g_ctx := (g_ctx g)(a := None), g_tls := (g_tls g)(0 := None)\<rparr>"
    using h(1) Some idle_off[OF assms] by (simp add: otel_thread_unregister_def)
  ultimately show ?thesis
    using h assms Some by (auto simp: idle_global_def)
qed

lemma idle_config:
  assumes "idle_global i r g"
  shows "idle_global i r (otel_set_transport False g)" "idle_global i r (otel_set_span_sink None g)"
    "idle_global i r (otel_set_enabled b g)" "idle_global i r (g\<lparr>g_sampler := sm\<rparr>)" "k \<le> 31 \<Longrightarrow> idle_global i r (g\<lparr>g_ring_capacity := 2 ^ k\<rparr>)"
proof -
  have g: "tracer_ok g" "\<not> g_transport_present g" "\<not> g_sink_present g"
    using assms by (simp_all add: idle_global_def)
  note defs = otel_set_transport_def otel_set_span_sink_def otel_set_enabled_def otel_recompute_enabled_def
  show "idle_global i r (otel_set_transport False g)"
    by (rule idle_same[OF assms tracer_ok_config(1)[OF g(1)]]) (simp_all add: defs g)
  show "idle_global i r (otel_set_span_sink None g)"
    by (rule idle_same[OF assms tracer_ok_config(2)[OF g(1)]]) (simp_all add: defs g)
  show "idle_global i r (otel_set_enabled b g)"
    by (rule idle_same[OF assms tracer_ok_config(3)[OF g(1)]]) (simp_all add: defs g)
  show "idle_global i r (g\<lparr>g_sampler := sm\<rparr>)"
    by (rule idle_same[OF assms tracer_ok_config(4)[OF g(1)]]) (simp_all add: g)
  show "k \<le> 31 \<Longrightarrow> idle_global i r (g\<lparr>g_ring_capacity := 2 ^ k\<rparr>)"
    by (rule idle_same[OF assms tracer_ok_config(5)[OF g(1)]]) (simp_all add: g)
qed

lemma idle_tls_call:
  assumes "idle_global i r g" and "draws_ids f"
  shows "\<exists>h. tls_call 0 f g = Some (h, snd (f (case g_tls g 0 of None \<Rightarrow> None | Some a \<Rightarrow> g_ctx g a))) \<and> idle_global i r h"
proof -
  have "tracer_ok g"
    using assms(1) by (simp add: idle_global_def)
  from tls_call_ok[OF this assms(2), of 0] obtain h s where
    h: "tls_call 0 f g = Some (h, s)" "tracer_ok h" "h = g\<lparr>g_ctx := g_ctx h\<rparr>"
    "s = snd (f (case g_tls g 0 of None \<Rightarrow> None | Some a \<Rightarrow> g_ctx g a))" by blast
  have "g_initialized h = g_initialized g" "g_transport_present h = g_transport_present g" "g_sink_present h = g_sink_present g"
    "g_tls h = g_tls g" "g_threads h = g_threads g" "g_dropped_spans h = g_dropped_spans g"
    by (subst h(3), simp)+
  then show ?thesis
    using h(1,2,4) assms(1) by (simp add: idle_global_def)
qed

lemma idle_set_span: "idle_spans st \<Longrightarrow> \<not> otel_span_recording s \<Longrightarrow> idle_spans (st\<lparr>as_g := g, as_spans := (as_spans st)(x := s)\<rparr>)"
  by (simp add: idle_spans_def)

lemma idle_start:
  assumes "idle_global i r (as_g st)" and "idle_spans st" and "draws_ids f" and "\<And>tls. \<not> otel_span_recording (snd (f tls))"
  shows "\<exists>st'. set_span x (tls_call 0 f (as_g st)) st = Some (st', Done) \<and> idle_global i r (as_g st') \<and> idle_spans st'"
  using idle_tls_call[OF assms(1,3)] idle_set_span[OF assms(2)] assms(4) by (fastforce simp: set_span_def)

lemma idle_starts:
  assumes "\<not> en" and "\<And>x. \<not> otel_span_recording (sp x)"
  shows "\<not> otel_span_recording (snd (otel_span_start en sm tls s name kind now))"
    "\<not> otel_span_recording (snd (otel_span_start_child tls s name kind (map_option sp p) now))"
    "\<not> otel_span_recording (snd (otel_span_start_remote en tls s name kind tid pid b now))"
  using assms by (auto simp: otel_span_start_def otel_span_start_child_def otel_span_start_remote_def split: option.split)

lemma idle_call:
  assumes "idle_spans st"
  shows "\<exists>s hs. exec_call (as_spans st x, as_handles st x) c = (s, hs) \<and> span_result c hs = disabled_span_call c \<and>
    idle_spans (st\<lparr>as_spans := (as_spans st)(x := s), as_handles := (as_handles st)(x := hs)\<rparr>)"
proof -
  obtain s hs where e: "exec_call (as_spans st x, as_handles st x) c = (s, hs)" by fastforce
  have i: "s = as_spans st x" "set hs \<subseteq> {None}"
    using inert_calls[of "as_spans st x" "as_handles st x" c] assms e by (auto simp: idle_spans_def)
  have "span_result c hs = disabled_span_call c"
  proof (cases c)
    case (CEvent name now)
    then have "hs \<noteq> []"
      using e by (auto split: prod.splits)
    then have "last hs = None"
      using i(2) last_in_set[of hs] by blast
    then show ?thesis
      using CEvent by simp
  qed simp_all
  then show ?thesis
    using e i assms by (auto simp: idle_spans_def)
qed

lemma idle_step:
  assumes g: "idle_global i r (as_g st)" and sp: "idle_spans st" and ok: "plain_client i r (c # cs)"
  shows "\<exists>st' i' r'. enabled_call pack st c = Some (st', disabled_call c) \<and> idle_global i' r' (as_g st') \<and> idle_spans st' \<and> plain_client i' r' cs"
proof -
  have glob: "\<exists>st'. set_global (Some h) st = Some (st', Done) \<and> idle_global i' r' (as_g st') \<and> idle_spans st'" if "idle_global i' r' h" for h i' r'
    using that sp by (simp add: set_global_def idle_spans_def)
  have en: "\<not> g_enabled (as_g st)" and rec: "\<And>x. \<not> otel_span_recording (as_spans st x)"
    using idle_off[OF g] sp by (simp_all add: idle_spans_def)
  show ?thesis
  proof (cases c)
    case (AInit service host b)
    obtain h n where h: "otel_init service host b (as_g st) = (h, n)" by fastforce
    then have "idle_global True r h" "n = 0"
      using idle_init[OF g, of b service host] ok AInit by auto
    then show ?thesis
      using AInit h ok sp by (intro exI[of _ "st\<lparr>as_g := h\<rparr>"] exI[of _ True] exI[of _ r]) (simp add: idle_spans_def)
  next
    case AShutdown
    then show ?thesis
      using idle_shutdown[OF g, of pack] ok glob by fastforce
  next
    case (ARegister seed now)
    then show ?thesis
      using idle_register[OF g, of seed now] ok glob by fastforce
  next
    case AUnregister
    then show ?thesis
      using idle_unregister[OF g, of pack] ok glob by fastforce
  next
    case (ASetTransport fn)
    then show ?thesis using idle_config(1)[OF g] ok glob by fastforce
  next
    case (ASetSink sk)
    then show ?thesis using idle_config(2)[OF g] ok glob by fastforce
  next
    case (ASetEnabled b)
    then show ?thesis using idle_config(3)[OF g, of b] ok glob by fastforce
  next
    case (ACapacity n)
    then obtain k where "k \<le> 31" "otel_set_ring_capacity n = Some (2 ^ k)"
      using ok capacity_ok by auto
    then show ?thesis
      using ACapacity idle_config(5)[OF g, of k] ok glob by fastforce
  next
    case (ASampler x)
    then have "otel_set_sampler x \<noteq> None"
      using ok by (cases x) (simp_all add: otel_set_sampler_def)
    then obtain sm where "otel_set_sampler x = Some sm" by blast
    then show ?thesis
      using ASampler idle_config(4)[OF g, of sm] ok glob by fastforce
  next
    case (AStart x name kind now)
    have "\<exists>st'. enabled_call pack st c = Some (st', Done) \<and> idle_global i r (as_g st') \<and> idle_spans st'"
      unfolding AStart enabled_call.simps start_span_def
      by (rule idle_start[OF g sp draws_ids_start(1)]) (simp add: idle_starts(1)[OF en rec])
    then show ?thesis using AStart ok by auto
  next
    case (AChild x name kind p now)
    have "\<exists>st'. enabled_call pack st c = Some (st', Done) \<and> idle_global i r (as_g st') \<and> idle_spans st'"
      unfolding AChild enabled_call.simps start_child_span_def
      by (rule idle_start[OF g sp draws_ids_start(2)]) (simp add: idle_starts(2)[OF en rec])
    then show ?thesis using AChild ok by auto
  next
    case (ARemote x name kind tid pid b now)
    have "\<exists>st'. enabled_call pack st c = Some (st', Done) \<and> idle_global i r (as_g st') \<and> idle_spans st'"
      unfolding ARemote enabled_call.simps start_remote_span_def
      by (rule idle_start[OF g sp draws_ids_start(3)]) (simp add: idle_starts(3)[OF en rec])
    then show ?thesis using ARemote ok by auto
  next
    case (ACall x cl)
    then show ?thesis using idle_call[OF sp, of x cl] g ok by fastforce
  next
    case (AEnd x now)
    then show ?thesis
      using rec[of x] g sp ok by (auto simp: set_span_def otel_span_end_def)
  qed (use g sp ok en rec in \<open>auto simp: otel_drain_def otel_dropped_spans_def idle_global_def idle_spans_def\<close>)
qed

text \<open>What a plain client may not call: on these the builds differ.  (The conversion of a NaN ratio to an
  integer is undefined.)\<close>

lemma builds_differ:
  "\<not> g_initialized (as_g st) \<Longrightarrow> \<exists>st'. enabled_call pack st (AInit service host False) = Some (st', Status (- 1))"
  "disabled_call (AInit service host False) = Status 0"
  "enabled_call pack st AServiceName = Some (st, Text (g_service (as_g st)))" "disabled_call AServiceName = Text []"
  "2 ^ 31 < unat n \<Longrightarrow> enabled_call pack st (ACapacity n) = None" "disabled_call (ACapacity n) = Done"
  "enabled_call pack st (ASampler NaN) = None" "disabled_call (ASampler NaN) = Done"
  using ring_capacity_hangs by (simp_all add: otel_init_def otel_service_name_def set_global_def otel_set_sampler_def)

text \<open>C33: the two builds answer a plain client alike: as long as it attaches no transport and no sink, its
  \<^verbatim>\<open>otel_init\<close> gets its buffer, it asks for at most \<open>2 ^ 31\<close> spans per ring and for a ratio that is
  a number, registers between init and shutdown, and does not read the service name, every
  call it makes on the enabled library returns, with the constant that the build in which
  tracing is compiled out returns.\<close>

theorem disabled_build_is_equivalent:
  assumes "plain_client False False calls"
  shows "enabled_run pack \<lparr>as_g = tracer_zero, as_spans = (\<lambda>_. zero_span), as_handles = (\<lambda>_. [])\<rparr> calls = Some (map disabled_call calls)"
proof -
  have run: "idle_global i r (as_g st) \<Longrightarrow> idle_spans st \<Longrightarrow> plain_client i r calls \<Longrightarrow>
      enabled_run pack st calls = Some (map disabled_call calls)" for i r st
  proof (induction calls arbitrary: i r st)
    case (Cons c cs)
    from idle_step[OF Cons.prems] obtain st' i' r' where
      "enabled_call pack st c = Some (st', disabled_call c)" "idle_global i' r' (as_g st')" "idle_spans st'" "plain_client i' r' cs" by blast
    then show ?case
      using Cons.IH by simp
  qed simp
  have "idle_global False False tracer_zero"
    using tracer_ok_zero by (simp add: idle_global_def tracer_zero_def)
  then show ?thesis
    by (intro run[OF _ _ assms]) (simp_all add: idle_spans_def otel_span_recording_def zero_span_def)
qed

lemma disabled_build_is_equivalent_witness:
  "enabled_run (\<lambda>ms. []) \<lparr>as_g = tracer_zero, as_spans = (\<lambda>_. zero_span), as_handles = (\<lambda>_. [])\<rparr>
     [AInit (Some [115]) None True, ARegister \<lparr>rs_lo = 1, rs_hi = 0\<rparr> 7, AStart 0 (Some [111, 112]) 1 5, ACall 0 (CEvent (Some [101]) 6),
      ARecording 0, AEnd 0 9, ADrain, ADropped, AUnregister, AShutdown] =
   Some [Status 0, Done, Done, Handle None, Flag False, Done, Status 0, Count 0, Done, Done]"
  by (subst disabled_build_is_equivalent) simp_all

end
