(* ===== verification/Spec2Isabelle.thy ===== *)
theory Spec2Isabelle
  imports Otel_Sqlite_Life_Props Otel_Ring_Concurrent Otel_Trace_Tree Otel_Trace_Query Otel_Trace_Args
    Otel_Trace_Durations Otel_Trace_Stored Otel_Clock Otel_Concurrent_Theorems Otel_Sink_Race Otel_Wire_Theorems
    Otel_Disabled
begin

text \<open>
  A verification library for \<^verbatim>\<open>oteltracing-c\<close>, an OpenTelemetry tracer for C programs.

  The program.  A client thread registers, starts spans (root, child of a span, or child of a
  remote one) and fills them with attributes and events (\<^verbatim>\<open>oteltracing.h\<close>); head sampling decides
  once per trace whether anything is recorded.  A span is a fixed block with a 4024-byte
  arena, in which strings, attributes and events are allocated.  Ending a span copies it into
  the ring of its thread, without a lock.  A drain (\<^verbatim>\<open>otel_drain\<close> in \<^verbatim>\<open>oteltracing.c\<close>) visits
  the rings of all registered threads and gives each span to the registered sink and to the
  OTLP batch, which is packed and handed to the transport when full and at the end of the
  drain.  \<^verbatim>\<open>otel_sqlite.c\<close> is a sink that stores spans in a SQLite file, one transaction per drain,
  with a flusher thread of its own; \<^verbatim>\<open>tools/otel-trace.c\<close> queries that file.

  Theories and code.

  \<^item> \<open>Otel_Prelude\<close>, \<open>Otel_Text\<close>: C integers as words, byte memory with little-endian accesses, C
    strings, literals as bytes.
  \<^item> \<open>Otel_Random\<close> is \<^verbatim>\<open>otel_random.h\<close>; \<open>Otel_Platform\<close> is the computing part of \<^verbatim>\<open>otel_platform.h\<close>.
  \<^item> \<open>Otel_Arena\<close> and \<open>Otel_Span\<close>: \<^verbatim>\<open>struct otel_span\<close>, the arena allocator, the accessors and every
    operation on a span, over the bytes of the arena.  \<open>Otel_Span_Spec\<close> is their abstract
    specification on lists; \<open>Otel_Heap\<close>, \<open>Otel_Span_Rep\<close>, \<open>Otel_Event_Refine\<close>, \<open>Otel_Span_Refine\<close> and
    \<open>Otel_Span_Calls\<close> prove the simulation, \<open>Otel_Span_Props\<close> draws the conclusions.
  \<^item> \<open>Otel_Ring\<close>: the ring of a thread (\<^verbatim>\<open>otel_span_end_\<close>, \<^verbatim>\<open>otel_drain_ctx\<close>, \<^verbatim>\<open>otel_set_ring_capacity\<close>) as
    sequential code against the locale \<open>bounded_queue\<close>; \<open>Otel_Ring_Concurrent\<close>: every interleaving
    of its accesses to shared memory.
  \<^item> \<open>Otel_Clock\<close>: \<^verbatim>\<open>OT.clock\<close>, \<^verbatim>\<open>otel_set_clock\<close> and the default clock; elsewhere the times it returned are
    arguments.
  \<^item> \<open>Otel_Start\<close>: sampling and the three ways to start a span.
  \<^item> \<open>Otel_Export\<close>: the OTLP batch and its three pools; \<open>Otel_Export_Props\<close>: what is sent.
    \<open>Otel_Wire\<close>: the resource and scope of a request and the protobuf encoding of the messages in
    \<^verbatim>\<open>opentelemetry/proto\<close>, with a reader; \<open>Otel_Wire_Size\<close>: the size of a packed span, from the
    budget of its arena; \<open>Otel_Wire_Theorems\<close>: the frame buffer and what a collector reads.
  \<^item> \<open>Otel_Tracer\<close>: the global state and every operation on it, \<^verbatim>\<open>otel_init\<close> to \<^verbatim>\<open>otel_shutdown\<close>;
    \<open>Otel_Tracer_Props\<close>: the invariant; \<open>Otel_Tracer_Theorems\<close>: the properties of whole runs.
  \<^item> \<open>Otel_Borrow\<close>: what of a span the batch copies and what it points at, and what it shows after
    a slot it points into has been written.
  \<^item> \<open>Otel_Concurrent\<close>: register, unregister and drain in any number of threads, a step being a lock
    operation, an access to the registry, a visit of the drain loop or a call on a span;
    \<open>Otel_Concurrent_Props\<close> (locks, ownership of contexts), \<open>Otel_Concurrent_Walk\<close> (a ring that grows
    while it is walked), \<open>Otel_Concurrent_Inv\<close> (the invariant), \<open>Otel_Concurrent_Balance\<close> (where every
    span is), \<open>Otel_Concurrent_Live\<close> (progress), \<open>Otel_Concurrent_Alone\<close> (a call without
    interference), \<open>Otel_Concurrent_Theorems\<close>: the properties.  \<open>Otel_Sink_Race\<close>: \<^verbatim>\<open>otel_set_span_sink\<close>,
    which takes no lock, against a drain.
  \<^item> \<open>Otel_Disabled\<close>: the API with tracing compiled out, against the enabled build.
  \<^item> \<open>Otel_Sink\<close>: the contract of \<^verbatim>\<open>struct otel_span_sink\<close> as the locale \<open>transactional_sink\<close>.
  \<^item> \<open>Otel_Sqlite_Store\<close>: the tables of \<^verbatim>\<open>otel_sqlite_schema.h\<close> and SQLite's contract as the locale
    \<open>sqlite_store\<close>; \<open>Otel_Sqlite\<close>: the callbacks and the retention of \<^verbatim>\<open>otel_sqlite.c\<close>;
    \<open>Otel_Sqlite_Props\<close>, \<open>Otel_Sqlite_Refine\<close>, \<open>Otel_Sqlite_Theorems\<close>: rows, refinement, properties;
    \<open>Otel_Sqlite_Faults\<close>: callbacks any of whose statements may fail.
  \<^item> \<open>Otel_Sqlite_Life\<close>: \<^verbatim>\<open>otel_sqlite_open\<close>, \<^verbatim>\<open>otel_sqlite_close\<close> and the tracer with the sink attached;
    \<open>Otel_Sqlite_Life_Props\<close>: sessions, over the locale \<open>sqlite_file\<close> that extends \<open>sqlite_store\<close>.
    \<open>Otel_Flusher\<close>: the flusher thread and how it is stopped.
  \<^item> \<open>Otel_Trace_Tool\<close>, \<open>Otel_Trace_Show\<close>, \<open>Otel_Trace_Main\<close>: \<^verbatim>\<open>tools/otel-trace.c\<close>, formatting and the
    commands \<^verbatim>\<open>list\<close>, \<^verbatim>\<open>spans\<close>, \<^verbatim>\<open>stats\<close>, \<^verbatim>\<open>sql\<close>, then \<^verbatim>\<open>show\<close>, then the arguments and \<^verbatim>\<open>main\<close>.
    \<open>Otel_Trace_Tree\<close>, \<open>Otel_Trace_Query\<close>, \<open>Otel_Trace_Args\<close>, \<open>Otel_Trace_Durations\<close>: their properties;
    \<open>Otel_Trace_Stored\<close>: from the sink to the screen, over the locale \<open>trace_reader\<close>.

  How state corresponds.  A C struct is a record with the fields of the struct; pointers into
  the arena are the 16-bit offsets the code stores, with \<open>OTEL_NIL\<close> as there.  Thread contexts live
  in a store of addresses (\<open>g_ctx\<close>), so that a freed one can be told from a live one, and
  \<open>g_tls\<close> holds the thread-local pointers.  What the environment sees is kept as history: the
  frames given to the transport and the calls of the sink.  \<open>None\<close> as the result of an operation
  stands for what must not happen: a list walk that does not end, a store outside a pool, an
  access through a freed context, packing without a buffer, a signed overflow, a loop without an end.  That it does not
  happen is proved where it holds (\<open>tracer_never_fails\<close>, \<open>export_span_stays_in_pools\<close>); where it does
  happen a theorem says so (\<open>ring_capacity_outcome\<close>, \<open>shutdown_leaves_dangling_context\<close>,
  \<open>drain_without_buffer\<close> for the buffer that \<^verbatim>\<open>otel_init\<close> could not allocate).

  Concurrency is modelled at three depths. \<open>Otel_Tracer\<close> runs whole operations;
  \<open>Otel_Concurrent\<close> keeps its state and adds the owners of the two locks and a program point for
  each thread, and \<open>calls_alone_are_sequential\<close> ties the two together; \<open>Otel_Ring_Concurrent\<close>
  splits an enqueue into its accesses to one ring. A drain gives the slots of a ring back before
  it packs the batch that points into them: \<open>batch_can_lose_borrowed_span\<close> exhibits the
  overwrite, and \<open>concurrent_spans_conserved\<close> claims a given span's contents for the frames only
  if its slot was not written in between. Packing and sending a batch is one step, so that a
  slot written while it is being packed is not covered, nor is the size of a frame
  with overwritten strings (\<open>frames_fit_the_buffer\<close> is about sequential runs). In \<open>Otel_Concurrent\<close> tracing is switched, and
  sampler and ring capacity set, store by store at any time; transport and sink keep the values
  they have at the start, and \<open>Otel_Sink_Race\<close> shows what can go wrong when the sink changes.

  What is shown, by group: the span operations implement lists with a byte budget, stay inside
  the arena and never lose a record uncounted; the ring is a FIFO queue under every
  interleaving; the batch sends every span once, in frames that fit their buffer and that a
  collector reads back; the tracer conserves spans and delivers what it queued, also when
  threads register, record, drain and leave at the same time, and its calls return; a client
  without a consumer, within limits that \<open>plain_client\<close> lists, sees no difference to the build without tracing; a drain into SQLite is one
  transaction and a session from open to close stores everything that is not counted as dropped,
  both when no statement fails (\<open>no_faults\<close>); references stay intact also when statements fail, as
  long as a failing write undoes itself only (\<open>failures_are_local\<close>); the flusher stops; and what the sink stored is what
  \<^verbatim>\<open>otel-trace show\<close> prints, for unsigned values below \<open>2 ^ 63\<close>. \<open>request_reaches_collector\<close> and \<open>show_prints_recorded_data\<close> span the
  components from the client's calls to the collector and to the screen. The properties of kind
  error state where the code falls short.

  Bounds and fuel. Integers keep their width; counters and cursors wrap as in the code. Only the
  reader of protobuf fields has fuel, the length of its input, which bounds the number of fields
  (\<open>read_msg_fields\<close>). List walks over the arena are \<^theory_text>\<open>partial_function (option)\<close>, with \<open>None\<close>
  for a walk that does not end, the capacity loop is \<open>while_option\<close>, the tree walk of \<^verbatim>\<open>show\<close> has
  a termination proof (each call sets a flag), everything else is structural. The number of
  drains a flusher does before \<^verbatim>\<open>otel_sqlite_close\<close> has joined it is a parameter, arbitrary in
  the theorems; \<open>close_stops_flusher\<close> shows it is at most one after the signal.

  Parameters.  SQLite (\<open>lib\<close>, with the locales \<open>sqlite_store\<close>, \<open>sqlite_file\<close> and \<open>trace_reader\<close> for its
  documented behaviour), the generated protobuf packer (\<open>pack\<close>, arbitrary, except
  where \<open>packs_protobuf\<close> says that it writes the protobuf encoding), the stopwatch and a client's
  clock, the random seed, the local calendar and the C library's text for doubles.  Each
  locale is interpreted on an in-memory store, and each property has a witness on concrete data.

  Not modelled. The wrappers of \<^verbatim>\<open>otel_platform.h\<close> that only call the operating system (locks,
  condition variables, threads, host name, random source; the locks appear as the guards of
  steps); weak memory beyond the acquire and release pairs of the ring; initialisation, shutdown
  and a change of the transport or the clock while another thread is in a call; the generated
  protobuf code and the stopwatch (not in the repository); allocation failure outside
  \<^verbatim>\<open>otel_init\<close> (the code does not check for it); messages on standard error but those of the
  tool's \<^verbatim>\<open>main\<close>; tests and build files.
\<close>

end
